(* ===== verification/Prelude.thy ===== *)
theory Prelude
  imports Main "HOL-Library.Word"
begin

text \<open>
  What every component of the library shares: the machine types of the C++ sources, the
  ways a C++ operation can go wrong, sequencing of operations that can fault, the
  collections of simplification rules, a few facts about 64-bit words, and the interface
  through which a step relation gets its reachable-state invariants.
\<close>

section \<open>Machine types\<close>

type_synonym size_t = "64 word"   \<comment> \<open>size_t, unsigned long and uint64_t of the x86-64 ABI\<close>
type_synonym addr = nat           \<comment> \<open>address of an allocated block; the allocator never reuses one\<close>
type_synonym oid = "64 word"      \<comment> \<open>address of a C++ object (\<open>this\<close>); 0 is the null pointer\<close>

section \<open>Faults\<close>

text \<open>
  Undefined behaviour and failed assertions are values: an operation returns
  \<open>Inl fault\<close> at the first access the C++ abstract machine gives no meaning to.
\<close>

datatype fault =
    Null_Deref        \<comment> \<open>a null pointer is dereferenced\<close>
  | Use_After_Free    \<comment> \<open>memory or an object is used after its end of life\<close>
  | Double_Free       \<comment> \<open>a block that is not allocated is deleted\<close>
  | Bad_Delete        \<comment> \<open>memory of an array \<^verbatim>\<open>new\<close> is deleted as a single object, or as one of another type\<close>
  | Out_Of_Bounds     \<comment> \<open>an access outside a block\<close>
  | Uninit_Read       \<comment> \<open>an element that was never constructed is read\<close>
  | Assert_Failed     \<comment> \<open>\<open>assert\<close> aborts the process\<close>
  | Bad_Iterator      \<comment> \<open>an iterator is used after its element was erased\<close>
  | Bad_Lock          \<comment> \<open>a mutex is locked by its owner, or unlocked by another\<close>
  | Signed_Overflow   \<comment> \<open>a signed integer overflows\<close>
  | Aborted           \<comment> \<open>\<open>abort()\<close> is called\<close>

fun bind_res :: "fault + 'a \<Rightarrow> ('a \<Rightarrow> fault + 'b) \<Rightarrow> fault + 'b" where
  "bind_res (Inl e) f = Inl e"
| "bind_res (Inr x) f = f x"

lemma bind_res_cong [fundef_cong]:
  "m = m' \<Longrightarrow> (\<And>x. m' = Inr x \<Longrightarrow> f x = f' x) \<Longrightarrow> bind_res m f = bind_res m' f'"
  by (cases m') auto

lemma bind_res_Inr_iff:
  "bind_res m f = Inr y \<longleftrightarrow> (\<exists>x. m = Inr x \<and> f x = Inr y)"
  by (cases m) auto

lemma bind_res_assoc:
  "bind_res (bind_res m f) g = bind_res m (\<lambda>x. bind_res (f x) g)"
  by (cases m) auto

lemma bind_res_if [simp]:
  "bind_res (if b then m else n) f = (if b then bind_res m f else bind_res n f)"
  by simp

definition ok :: "fault + 'a \<Rightarrow> bool" where
  "ok r = (case r of Inl _ \<Rightarrow> False | Inr _ \<Rightarrow> True)"

lemma ok_simps [simp]: "ok (Inr x)" "\<not> ok (Inl e)"
  by (simp_all add: ok_def)

lemma ok_iff: "ok r \<longleftrightarrow> (\<exists>x. r = Inr x)"
  by (cases r) auto

section \<open>Collections\<close>

named_theorems op_defs "definitions of the modelled operations, to unfold"
named_theorems frame_simps "which parts of the state an operation leaves alone"

section \<open>Words\<close>

lemma unat_less_2_64: "unat (x :: size_t) < 2 ^ 64"
  using unsigned_less [of x, where ?'a = nat] by simp

lemma unat_eq_one_iff: "unat (x :: size_t) = 1 \<longleftrightarrow> x = 1"
  using word_eq_iff_unsigned [of x 1, where ?'a = nat] by simp

lemma unat_inc:
  fixes x :: size_t
  assumes "unat x + 1 < 2 ^ 64"
  shows "unat (x + 1) = unat x + 1"
  using assms by (simp add: unat_word_ariths)

lemma sint_32_of_nat: "n < 2 ^ 31 \<Longrightarrow> sint (of_nat n :: 32 word) = int n"
  by (simp add: signed_of_nat signed_take_bit_int_eq_self)

lemma unat_of_nat_64: "n < 2 ^ 64 \<Longrightarrow> unat (of_nat n :: size_t) = n"
  by (simp add: unsigned_of_nat take_bit_nat_eq_self)

lemma unat_dec:
  fixes x :: size_t
  assumes "x \<noteq> 0"
  shows "unat (x - 1) = unat x - 1"
  using assms by (metis unat_minus_one)

lemma unat_add_no_wrap:
  fixes x y :: size_t
  assumes "unat x + unat y < 2 ^ 64"
  shows "unat (x + y) = unat x + unat y"
  using assms by (simp add: unat_word_ariths)

lemma unat_mult_no_wrap:
  fixes x y :: size_t
  assumes "unat x * unat y < 2 ^ 64"
  shows "unat (x * y) = unat x * unat y"
  using assms by (simp add: unat_word_ariths)

lemma word_ge_1_iff: "(1 :: size_t) \<le> x \<longleftrightarrow> x \<noteq> 0"
  by (simp add: word_le_nat_alt unat_eq_0 Suc_le_eq flip: unat_gt_0)

text \<open>There are fewer than \<open>2 ^ 64\<close> non-null object addresses, so a count of objects never wraps.\<close>

lemma card_oids_less:
  fixes A :: "oid set"
  assumes "0 \<notin> A"
  shows "card A < 2 ^ 64"
proof -
  have "card A \<le> card (UNIV - {0 :: oid})"
    using assms by (intro card_mono) auto
  also have "\<dots> = card (UNIV :: oid set) - 1"
    by (simp add: card_Diff_singleton)
  also have "\<dots> < 2 ^ 64"
    by (simp add: card_word)
  finally show ?thesis .
qed

section \<open>Threads at program points\<close>

text \<open>
  The threads below \<open>n\<close> whose program point lies in \<open>L\<close>, and how their number changes when one
  thread moves.
\<close>

definition points :: "nat \<Rightarrow> (nat \<Rightarrow> 'l) \<Rightarrow> 'l set \<Rightarrow> nat set" where
  "points n f L = {t. t < n \<and> f t \<in> L}"

lemma finite_points [simp]: "finite (points n f L)"
  by (simp add: points_def)

lemma card_points_update:
  assumes "t < n"
  shows "card (points n (f(t := l)) L) + (if f t \<in> L then 1 else 0) = card (points n f L) + (if l \<in> L then 1 else 0)"
proof -
  have "points n (f(t := l)) L = (if l \<in> L then insert t (points n f L - {t}) else points n f L - {t})"
    using assms by (auto simp: points_def)
  moreover have "t \<in> points n f L \<longleftrightarrow> f t \<in> L" using assms by (simp add: points_def)
  ultimately show ?thesis by (simp add: card_Diff_singleton_if card_insert_if)
      (metis Suc_pred card_gt_0_iff empty_iff finite_points)
qed

lemma card_points_eq_0: "card (points n f L) = 0 \<longleftrightarrow> (\<forall>t < n. f t \<notin> L)"
  by (auto simp: points_def)

lemma card_points_mono: "L \<subseteq> M \<Longrightarrow> card (points n f L) \<le> card (points n f M)"
  by (rule card_mono) (auto simp: points_def)

lemma card_points_eq_n: "card (points n f L) = n \<longleftrightarrow> (\<forall>t < n. f t \<in> L)"
proof
  assume "card (points n f L) = n"
  then have "points n f L = {..<n}" by (intro card_subset_eq) (auto simp: points_def)
  then show "\<forall>t < n. f t \<in> L" by (auto simp: points_def)
next
  assume "\<forall>t < n. f t \<in> L"
  then have "points n f L = {..<n}" by (auto simp: points_def)
  then show "card (points n f L) = n" by simp
qed

section \<open>Invariants of step relations\<close>

text \<open>
  A component with concurrency is a relation between states. The interface asks its
  provider for an invariant that holds at the start and is kept by each step; the client
  gets it for every state a run can reach.
\<close>

locale invariant_system =
  fixes start :: "'s \<Rightarrow> bool"
    and step :: "'s \<Rightarrow> 's \<Rightarrow> bool"
    and inv :: "'s \<Rightarrow> bool"
  assumes inv_start: "start s \<Longrightarrow> inv s"
    and inv_step: "inv s \<Longrightarrow> step s t \<Longrightarrow> inv t"
begin

lemma inv_run: "step\<^sup>*\<^sup>* s t \<Longrightarrow> inv s \<Longrightarrow> inv t"
  by (induction rule: rtranclp_induct) (auto intro: inv_step)

lemma inv_reachable: "start s \<Longrightarrow> step\<^sup>*\<^sup>* s t \<Longrightarrow> inv t"
  by (blast intro: inv_run inv_start)

end

end
