(* ===== verification/Shared_Ref.thy ===== *)
theory Shared_Ref
  imports Prelude
begin

text \<open>
  The copy-on-write reference count of \<^verbatim>\<open>src/Shared.h\<close>, class \<^verbatim>\<open>man::Shared\<close>.

  A \<open>Shared\<close> object is a handle: a pointer \<open>m_cnt\<close> to a heap-allocated reference count, a
  pointer \<open>m_cow\<close> to a heap-allocated flag, and the callback \<open>m_dtr\<close> that releases the
  resource. The state holds the allocated counts and flags and the live handles; a handle or
  a count that is gone is \<open>None\<close>, and using it is a fault. The callback is code of the
  client: it is a value of the type \<open>'d\<close> that the parameter \<open>call\<close> runs.

  Allocation always succeeds and never reuses an address. \<open>create()\<close> allocates the count
  and then the flag. Operations are modelled on one thread: the counts are
  \<open>std::atomic\<close>, but no operation of the class is atomic as a whole.
\<close>

section \<open>State\<close>

record 'd shared =
  m_dtr :: 'd
  m_cnt :: "addr option"
  m_cow :: "addr option"

record 'd rc_heap =
  cnts :: "addr \<rightharpoonup> size_t"
  cows :: "addr \<rightharpoonup> bool"
  handles :: "oid \<rightharpoonup> 'd shared"
  brk :: addr

section \<open>Memory accesses\<close>

definition deref :: "(addr \<rightharpoonup> 'a) \<Rightarrow> addr option \<Rightarrow> fault + 'a" where
  "deref m p = (case p of None \<Rightarrow> Inl Null_Deref
     | Some a \<Rightarrow> (case m a of None \<Rightarrow> Inl Use_After_Free | Some v \<Rightarrow> Inr v))"

definition store :: "(addr \<rightharpoonup> 'a) \<Rightarrow> addr option \<Rightarrow> 'a \<Rightarrow> fault + (addr \<rightharpoonup> 'a)" where
  "store m p v = (case p of None \<Rightarrow> Inl Null_Deref
     | Some a \<Rightarrow> (if m a = None then Inl Use_After_Free else Inr (m(a \<mapsto> v))))"

definition delete :: "(addr \<rightharpoonup> 'a) \<Rightarrow> addr option \<Rightarrow> fault + (addr \<rightharpoonup> 'a)" where
  "delete m p = (case p of None \<Rightarrow> Inr m
     | Some a \<Rightarrow> (if m a = None then Inl Double_Free else Inr (m(a := None))))"

definition get_handle :: "oid \<Rightarrow> ('d, 'm) rc_heap_scheme \<Rightarrow> fault + 'd shared" where
  "get_handle p h = (case handles h p of None \<Rightarrow> Inl Use_After_Free | Some sh \<Rightarrow> Inr sh)"

definition put_handle :: "oid \<Rightarrow> 'd shared \<Rightarrow> ('d, 'm) rc_heap_scheme \<Rightarrow> ('d, 'm) rc_heap_scheme" where
  "put_handle p sh h = h\<lparr>handles := (handles h)(p \<mapsto> sh)\<rparr>"

section \<open>Private operations\<close>

text \<open>\<open>bool last() const\<close>: the assertion is compiled in, the build does not define \<open>NDEBUG\<close>.\<close>

definition shared_last :: "oid \<Rightarrow> ('d, 'm) rc_heap_scheme \<Rightarrow> fault + bool" where
  "shared_last p h = bind_res (get_handle p h) (\<lambda>sh.
     case m_cnt sh of
       None \<Rightarrow> Inr False
     | Some a \<Rightarrow> bind_res (deref (cnts h) (Some a)) (\<lambda>c.
         if c \<ge> 1 then Inr (c = 1) else Inl Assert_Failed))"

definition shared_create :: "oid \<Rightarrow> ('d, 'm) rc_heap_scheme \<Rightarrow> fault + ('d, 'm) rc_heap_scheme" where
  "shared_create p h = bind_res (get_handle p h) (\<lambda>sh.
     let a = brk h; b = Suc (brk h)
     in Inr (put_handle p (sh\<lparr>m_cnt := Some a, m_cow := Some b\<rparr>)
          (h\<lparr>cnts := (cnts h)(a \<mapsto> 1), cows := (cows h)(b \<mapsto> False), brk := Suc b\<rparr>)))"

definition shared_ref :: "oid \<Rightarrow> ('d, 'm) rc_heap_scheme \<Rightarrow> fault + ('d, 'm) rc_heap_scheme" where
  "shared_ref p h = bind_res (get_handle p h) (\<lambda>sh.
     bind_res (deref (cnts h) (m_cnt sh)) (\<lambda>c.
     bind_res (store (cnts h) (m_cnt sh) (c + 1)) (\<lambda>cs. Inr (h\<lparr>cnts := cs\<rparr>))))"

definition shared_unref ::
  "('d \<Rightarrow> ('d, 'm) rc_heap_scheme \<Rightarrow> fault + ('d, 'm) rc_heap_scheme) \<Rightarrow>
   oid \<Rightarrow> ('d, 'm) rc_heap_scheme \<Rightarrow> fault + ('d, 'm) rc_heap_scheme" where
  "shared_unref call p h = bind_res (shared_last p h) (\<lambda>l. bind_res (get_handle p h) (\<lambda>sh.
     if l then
       bind_res (delete (cnts h) (m_cnt sh)) (\<lambda>cs.
       bind_res (delete (cows h) (m_cow sh)) (\<lambda>ws.
       call (m_dtr sh)
         (put_handle p (sh\<lparr>m_cnt := None, m_cow := None\<rparr>) (h\<lparr>cnts := cs, cows := ws\<rparr>))))
     else if m_cnt sh \<noteq> None then
       bind_res (deref (cnts h) (m_cnt sh)) (\<lambda>c.
       bind_res (store (cnts h) (m_cnt sh) (c - 1)) (\<lambda>cs. Inr (h\<lparr>cnts := cs\<rparr>)))
     else Inr h))"

section \<open>Assignment, construction, destruction\<close>

text \<open>
  \<open>operator=(const Shared&)\<close>: every field of \<open>other\<close> is read after \<open>unref()\<close> has run, which
  matters when \<open>other\<close> is \<open>*this\<close>.
\<close>

definition shared_copy_assign ::
  "('d \<Rightarrow> ('d, 'm) rc_heap_scheme \<Rightarrow> fault + ('d, 'm) rc_heap_scheme) \<Rightarrow>
   oid \<Rightarrow> oid \<Rightarrow> ('d, 'm) rc_heap_scheme \<Rightarrow> fault + ('d, 'm) rc_heap_scheme" where
  "shared_copy_assign call p q h =
     bind_res (shared_unref call p h) (\<lambda>h.
     bind_res (get_handle q h) (\<lambda>other.
     bind_res (get_handle p h) (\<lambda>_.
     bind_res (shared_ref p
       (put_handle p \<lparr>m_dtr = m_dtr other, m_cnt = m_cnt other, m_cow = m_cow other\<rparr> h)) (\<lambda>h.
     bind_res (get_handle p h) (\<lambda>sh.
     bind_res (store (cows h) (m_cow sh) True) (\<lambda>ws. Inr (h\<lparr>cows := ws\<rparr>)))))))"

definition shared_move_assign ::
  "('d \<Rightarrow> ('d, 'm) rc_heap_scheme \<Rightarrow> fault + ('d, 'm) rc_heap_scheme) \<Rightarrow>
   oid \<Rightarrow> oid \<Rightarrow> ('d, 'm) rc_heap_scheme \<Rightarrow> fault + ('d, 'm) rc_heap_scheme" where
  "shared_move_assign call p q h =
     bind_res (shared_unref call p h) (\<lambda>h.
     bind_res (get_handle q h) (\<lambda>other.
     bind_res (get_handle p h) (\<lambda>_.
     let h = put_handle p \<lparr>m_dtr = m_dtr other, m_cnt = m_cnt other, m_cow = m_cow other\<rparr> h
     in bind_res (get_handle q h) (\<lambda>other.
        Inr (put_handle q (other\<lparr>m_cnt := None, m_cow := None\<rparr>) h)))))"

text \<open>
  The constructors. The member \<open>m_cow\<close> has no initialiser, so it is indeterminate until
  \<open>create()\<close> or the assignment in the body sets it; nothing reads it before that, and the model
  puts \<open>None\<close> there.
\<close>

definition shared_construct ::
  "oid \<Rightarrow> 'd \<Rightarrow> ('d, 'm) rc_heap_scheme \<Rightarrow> fault + ('d, 'm) rc_heap_scheme" where
  "shared_construct p dtr h = shared_create p (put_handle p \<lparr>m_dtr = dtr, m_cnt = None, m_cow = None\<rparr> h)"

definition shared_copy_construct ::
  "('d \<Rightarrow> ('d, 'm) rc_heap_scheme \<Rightarrow> fault + ('d, 'm) rc_heap_scheme) \<Rightarrow>
   oid \<Rightarrow> oid \<Rightarrow> ('d, 'm) rc_heap_scheme \<Rightarrow> fault + ('d, 'm) rc_heap_scheme" where
  "shared_copy_construct call p q h = bind_res (get_handle q h) (\<lambda>other.
     shared_copy_assign call p q (put_handle p \<lparr>m_dtr = m_dtr other, m_cnt = None, m_cow = None\<rparr> h))"

definition shared_move_construct ::
  "('d \<Rightarrow> ('d, 'm) rc_heap_scheme \<Rightarrow> fault + ('d, 'm) rc_heap_scheme) \<Rightarrow>
   oid \<Rightarrow> oid \<Rightarrow> ('d, 'm) rc_heap_scheme \<Rightarrow> fault + ('d, 'm) rc_heap_scheme" where
  "shared_move_construct call p q h = bind_res (get_handle q h) (\<lambda>other.
     shared_move_assign call p q (put_handle p \<lparr>m_dtr = m_dtr other, m_cnt = None, m_cow = None\<rparr> h))"

text \<open>The destructor runs \<open>unref()\<close>; then the object's lifetime is over.\<close>

definition shared_destroy ::
  "('d \<Rightarrow> ('d, 'm) rc_heap_scheme \<Rightarrow> fault + ('d, 'm) rc_heap_scheme) \<Rightarrow>
   oid \<Rightarrow> ('d, 'm) rc_heap_scheme \<Rightarrow> fault + ('d, 'm) rc_heap_scheme" where
  "shared_destroy call p h = bind_res (shared_unref call p h) (\<lambda>h.
     Inr (h\<lparr>handles := (handles h)(p := None)\<rparr>))"

text \<open>
  \<open>write(copy)\<close>: \<open>copy\<close> is the client's code. The flag is read after it has run.
\<close>

definition shared_write ::
  "('d \<Rightarrow> ('d, 'm) rc_heap_scheme \<Rightarrow> fault + ('d, 'm) rc_heap_scheme) \<Rightarrow>
   (('d, 'm) rc_heap_scheme \<Rightarrow> fault + ('d, 'm) rc_heap_scheme) \<Rightarrow>
   oid \<Rightarrow> ('d, 'm) rc_heap_scheme \<Rightarrow> fault + ('d, 'm) rc_heap_scheme" where
  "shared_write call copy p h =
     bind_res (shared_last p h) (\<lambda>l. bind_res (get_handle p h) (\<lambda>sh.
     bind_res (if l then bind_res (store (cows h) (m_cow sh) False) (\<lambda>ws. Inr (h\<lparr>cows := ws\<rparr>))
               else Inr h) (\<lambda>h.
     bind_res (copy h) (\<lambda>h.
     bind_res (get_handle p h) (\<lambda>sh.
     bind_res (deref (cows h) (m_cow sh)) (\<lambda>f.
     if f then bind_res (shared_unref call p h) (shared_create p) else Inr h))))))"

section \<open>The invariant\<close>

text \<open>
  \<open>users h a\<close> is the set of live handles that point to the count \<open>a\<close>. In a well-formed heap
  each count is exactly the number of its users, a count with no user does not exist, and the
  flag of a count above one is set.
\<close>

definition users :: "('d, 'm) rc_heap_scheme \<Rightarrow> addr \<Rightarrow> oid set" where
  "users h a = {p. \<exists>sh. handles h p = Some sh \<and> m_cnt sh = Some a}"

definition count_ok :: "('d, 'm) rc_heap_scheme \<Rightarrow> addr \<Rightarrow> size_t \<Rightarrow> bool" where
  "count_ok h a c \<longleftrightarrow> users h a \<noteq> {} \<and> unat c = card (users h a) \<and> a < brk h \<and>
     cows h (Suc a) \<noteq> None \<and> (c \<noteq> 1 \<longrightarrow> cows h (Suc a) = Some True)"

definition rc_wf :: "('d, 'm) rc_heap_scheme \<Rightarrow> bool" where
  "rc_wf h \<longleftrightarrow> handles h 0 = None \<and>
     (\<forall>p sh. handles h p = Some sh \<longrightarrow> m_cow sh = map_option Suc (m_cnt sh) \<and>
        (\<forall>a. m_cnt sh = Some a \<longrightarrow> cnts h a \<noteq> None)) \<and>
     (\<forall>a c. cnts h a = Some c \<longrightarrow> count_ok h a c) \<and>
     (\<forall>b. cows h b \<noteq> None \<longrightarrow> (\<exists>a. b = Suc a \<and> cnts h a \<noteq> None))"

text \<open>The heap without the handle \<open>p\<close>, whatever \<open>p\<close> still points to.\<close>

definition forget :: "oid \<Rightarrow> ('d, 'm) rc_heap_scheme \<Rightarrow> ('d, 'm) rc_heap_scheme" where
  "forget p h = h\<lparr>handles := (handles h)(p := None)\<rparr>"

lemma forget_simps [simp]:
  "cnts (forget p h) = cnts h" "cows (forget p h) = cows h" "brk (forget p h) = brk h"
  "handles (forget p h) q = (if q = p then None else handles h q)"
  "forget p (put_handle p sh h) = forget p h"
  "forget p (h\<lparr>cnts := cs\<rparr>) = (forget p h)\<lparr>cnts := cs\<rparr>"
  "forget p (h\<lparr>cows := ws\<rparr>) = (forget p h)\<lparr>cows := ws\<rparr>"
  by (simp_all add: forget_def put_handle_def)

lemma put_handle_simps [simp]:
  "cnts (put_handle p sh h) = cnts h" "cows (put_handle p sh h) = cows h"
  "brk (put_handle p sh h) = brk h"
  "handles (put_handle p sh h) q = (if q = p then Some sh else handles h q)"
  by (simp_all add: put_handle_def)

lemma put_handle_commute [simp]:
  "(put_handle p sh h)\<lparr>cnts := cs\<rparr> = put_handle p sh (h\<lparr>cnts := cs\<rparr>)"
  "(put_handle p sh h)\<lparr>cows := ws\<rparr> = put_handle p sh (h\<lparr>cows := ws\<rparr>)"
  "(put_handle p sh h)\<lparr>brk := n\<rparr> = put_handle p sh (h\<lparr>brk := n\<rparr>)"
  "put_handle p sh (put_handle p sh' h) = put_handle p sh h"
  by (simp_all add: put_handle_def)

lemma get_handle_simp [simp]: "handles h p = Some sh \<Longrightarrow> get_handle p h = Inr sh"
  by (simp add: get_handle_def)

lemma get_handle_iff: "get_handle p h = Inr sh \<longleftrightarrow> handles h p = Some sh"
  by (simp add: get_handle_def split: option.splits)

lemma access_simps [simp]:
  "deref m None = Inl Null_Deref"
  "deref m (Some a) = (case m a of None \<Rightarrow> Inl Use_After_Free | Some v \<Rightarrow> Inr v)"
  "store m None v = Inl Null_Deref"
  "store m (Some a) v = (if m a = None then Inl Use_After_Free else Inr (m(a \<mapsto> v)))"
  "delete m None = Inr m"
  "delete m (Some a) = (if m a = None then Inl Double_Free else Inr (m(a := None)))"
  by (simp_all add: deref_def store_def delete_def)

lemma users_put: "users (put_handle p sh h) a =
    (if m_cnt sh = Some a then insert p (users h a) else users h a - {p})"
  by (auto simp: users_def)

lemma users_forget [simp]: "users (forget p h) a = users h a - {p}"
  by (auto simp: users_def)

lemma users_cnts [simp]:
  "users (h\<lparr>cnts := cs\<rparr>) a = users h a" "users (h\<lparr>cows := ws\<rparr>) a = users h a"
  "users (h\<lparr>brk := n\<rparr>) a = users h a"
  by (simp_all add: users_def)

lemma users_mem: "handles h p = Some sh \<Longrightarrow> p \<in> users h a \<longleftrightarrow> m_cnt sh = Some a"
  by (auto simp: users_def)

lemma users_eq: "handles h = handles h' \<Longrightarrow> users h = users h'"
  by (simp add: users_def fun_eq_iff)

lemma rc_wfI:
  assumes "handles h 0 = None"
    and "\<And>p sh. handles h p = Some sh \<Longrightarrow> m_cow sh = map_option Suc (m_cnt sh)"
    and "\<And>p sh a. handles h p = Some sh \<Longrightarrow> m_cnt sh = Some a \<Longrightarrow> \<exists>c. cnts h a = Some c"
    and "\<And>a c. cnts h a = Some c \<Longrightarrow> count_ok h a c"
    and "\<And>b f. cows h b = Some f \<Longrightarrow> \<exists>a c. b = Suc a \<and> cnts h a = Some c"
  shows "rc_wf h"
  using assms unfolding rc_wf_def by (metis not_None_eq)

lemma rc_wf_cong:
  assumes "cnts h = cnts h'" "cows h = cows h'" "handles h = handles h'" "brk h = brk h'"
  shows "rc_wf h \<longleftrightarrow> rc_wf h'"
  using assms users_eq [of h h'] by (simp add: rc_wf_def count_ok_def)

lemma rc_wf_null: "rc_wf h \<Longrightarrow> handles h 0 = None"
  by (simp add: rc_wf_def)

lemma rc_wf_handle:
  "rc_wf h \<Longrightarrow> handles h p = Some sh \<Longrightarrow> m_cow sh = map_option Suc (m_cnt sh)"
  by (simp add: rc_wf_def)

lemma rc_wf_live:
  assumes "rc_wf h" "handles h p = Some sh" "m_cnt sh = Some a"
  obtains c where "cnts h a = Some c"
  using assms unfolding rc_wf_def by blast

lemma rc_wf_liveD:
  "rc_wf h \<Longrightarrow> handles h p = Some sh \<Longrightarrow> m_cnt sh = Some a \<Longrightarrow> \<exists>c. cnts h a = Some c"
  by (blast elim: rc_wf_live)

lemma rc_wf_count: "rc_wf h \<Longrightarrow> cnts h a = Some c \<Longrightarrow> count_ok h a c"
  by (simp add: rc_wf_def)

lemma rc_wf_nonzero: "rc_wf h \<Longrightarrow> cnts h a = Some c \<Longrightarrow> c \<noteq> 0"
  using rc_wf_count [of h a c] by (auto simp: count_ok_def)

lemma rc_wf_flag: "rc_wf h \<Longrightarrow> cnts h a = Some c \<Longrightarrow> \<exists>f. cows h (Suc a) = Some f \<and> (c \<noteq> 1 \<longrightarrow> f)"
  using rc_wf_count [of h a c] by (auto simp: count_ok_def)

lemma rc_wf_flag_owner:
  "rc_wf h \<Longrightarrow> cows h b = Some f \<Longrightarrow> \<exists>a c. b = Suc a \<and> cnts h a = Some c"
  unfolding rc_wf_def by fastforce

lemma rc_wf_below: "rc_wf h \<Longrightarrow> cnts h a = Some c \<Longrightarrow> a < brk h"
  using rc_wf_count [of h a c] by (simp add: count_ok_def)

lemma count_1_users: "rc_wf h \<Longrightarrow> cnts h a = Some 1 \<Longrightarrow> p \<in> users h a \<Longrightarrow> users h a = {p}"
  using rc_wf_count [of h a 1] by (metis One_nat_def card_1_singletonE count_ok_def singletonD unat_1)

section \<open>What each step does to a well-formed heap\<close>

lemma last_exec:
  assumes "rc_wf h" "handles h p = Some sh"
  shows "shared_last p h = Inr (m_cnt sh \<noteq> None \<and> cnts h (the (m_cnt sh)) = Some 1)"
proof (cases "m_cnt sh")
  case None
  then show ?thesis using assms by (simp add: shared_last_def)
next
  case (Some a)
  obtain c where c: "cnts h a = Some c" by (rule rc_wf_live [OF assms Some])
  with rc_wf_nonzero [OF assms(1) c] show ?thesis
    using assms Some by (simp add: shared_last_def word_ge_1_iff)
qed

lemma unref_null:
  "handles h p = Some sh \<Longrightarrow> m_cnt sh = None \<Longrightarrow> shared_unref call p h = Inr h"
  by (simp add: shared_unref_def shared_last_def)

lemma unref_shared:
  assumes "rc_wf h" "handles h p = Some sh" "m_cnt sh = Some a" "cnts h a = Some c" "c \<noteq> 1"
  shows "shared_unref call p h = Inr (h\<lparr>cnts := (cnts h)(a \<mapsto> c - 1)\<rparr>)"
  using assms by (simp add: shared_unref_def last_exec)

lemma unref_last:
  assumes "rc_wf h" "handles h p = Some sh" "m_cnt sh = Some a" "cnts h a = Some 1"
  shows "shared_unref call p h = call (m_dtr sh)
    (put_handle p (sh\<lparr>m_cnt := None, m_cow := None\<rparr>)
      (h\<lparr>cnts := (cnts h)(a := None), cows := (cows h)(Suc a := None)\<rparr>))"
proof -
  obtain f where "cows h (Suc a) = Some f" using rc_wf_flag [OF assms(1,4)] by blast
  with assms rc_wf_handle [OF assms(1,2)] show ?thesis
    by (simp add: shared_unref_def last_exec)
qed

lemma forget_null_wf:
  assumes "rc_wf h" "handles h p = Some sh" "m_cnt sh = None"
  shows "rc_wf (forget p h)"
proof -
  have "users h a - {p} = users h a" for a
    using assms by (auto simp: users_def)
  with assms(1) show ?thesis by (simp add: rc_wf_def count_ok_def)
qed

lemma forget_shared_wf:
  assumes wf: "rc_wf h" and p: "handles h p = Some sh" "m_cnt sh = Some a"
    and c: "cnts h a = Some c" "c \<noteq> 1"
  shows "rc_wf (forget p (h\<lparr>cnts := (cnts h)(a \<mapsto> c - 1)\<rparr>))"
proof -
  have in_a: "p \<in> users h a" using p by (simp add: users_mem)
  have other: "users h a' - {p} = users h a'" if "a' \<noteq> a" for a'
    using that p by (auto simp: users_def)
  have ok: "count_ok h a c" by (rule rc_wf_count [OF wf c(1)])
  have c0: "c \<noteq> 0" by (rule rc_wf_nonzero [OF wf c(1)])
  have "unat c \<noteq> 1" using c(2) unat_eq_one_iff by blast
  moreover have "unat c \<noteq> 0" using c0 by (simp add: unat_eq_0)
  ultimately have card: "card (users h a - {p}) = unat c - 1" "card (users h a - {p}) \<noteq> 0"
    using ok in_a by (simp_all add: count_ok_def card_Diff_singleton)
  have ne: "users h a - {p} \<noteq> {}" using card(2) by (metis card.empty)
  have "count_ok (forget p (h\<lparr>cnts := (cnts h)(a \<mapsto> c - 1)\<rparr>)) a (c - 1)"
    using ok card(1) c(2) unat_dec [OF c0] ne by (simp add: count_ok_def)
  moreover have "count_ok (forget p (h\<lparr>cnts := (cnts h)(a \<mapsto> c - 1)\<rparr>)) a' c'"
    if "a' \<noteq> a" "cnts h a' = Some c'" for a' c'
    using rc_wf_count [OF wf that(2)] other [OF that(1)] by (simp add: count_ok_def)
  ultimately show ?thesis
    using wf rc_wf_null [OF wf]
    by (intro rc_wfI)
      (auto simp: rc_wf_handle split: if_splits elim: rc_wf_live [OF wf]
        dest!: rc_wf_flag_owner [OF wf])
qed

lemma forget_last_wf:
  assumes wf: "rc_wf h" and p: "handles h p = Some sh" "m_cnt sh = Some a" and c: "cnts h a = Some 1"
  shows "rc_wf (forget p (h\<lparr>cnts := (cnts h)(a := None), cows := (cows h)(Suc a := None)\<rparr>))"
proof -
  have only: "users h a = {p}"
    using count_1_users [OF wf c] p by (simp add: users_mem)
  have other: "users h a' - {p} = users h a'" if "a' \<noteq> a" for a'
    using that p by (auto simp: users_def)
  have away: "m_cnt sq \<noteq> Some a" if "handles h q = Some sq" "q \<noteq> p" for q sq
    using only that by (auto simp: users_def)
  have "count_ok (forget p (h\<lparr>cnts := (cnts h)(a := None), cows := (cows h)(Suc a := None)\<rparr>)) a' c'"
    if "a' \<noteq> a" "cnts h a' = Some c'" for a' c'
    using rc_wf_count [OF wf that(2)] other [OF that(1)] that(1) by (simp add: count_ok_def)
  then show ?thesis
    using wf away rc_wf_null [OF wf]
    by (intro rc_wfI)
      (auto simp: rc_wf_handle split: if_splits elim: rc_wf_live [OF wf]
        dest!: rc_wf_flag_owner [OF wf])
qed

lemma put_null_wf:
  assumes wf: "rc_wf (forget p h)" and p: "p \<noteq> 0" and sh: "m_cnt sh = None" "m_cow sh = None"
  shows "rc_wf (put_handle p sh h)"
proof (rule rc_wfI)
  show "handles (put_handle p sh h) 0 = None" using rc_wf_null [OF wf] p by (simp split: if_splits)
next
  fix q sq assume "handles (put_handle p sh h) q = Some sq"
  then show "m_cow sq = map_option Suc (m_cnt sq)"
    using rc_wf_handle [OF wf, of q sq] sh by (auto split: if_splits)
next
  fix q sq a assume "handles (put_handle p sh h) q = Some sq" "m_cnt sq = Some a"
  then show "\<exists>c. cnts (put_handle p sh h) a = Some c"
    using rc_wf_liveD [OF wf, of q sq a] sh by (auto split: if_splits)
next
  fix a c assume "cnts (put_handle p sh h) a = Some c"
  then show "count_ok (put_handle p sh h) a c"
    using rc_wf_count [OF wf, of a c] sh by (simp add: count_ok_def users_put)
next
  fix b f assume "cows (put_handle p sh h) b = Some f"
  then show "\<exists>a c. b = Suc a \<and> cnts (put_handle p sh h) a = Some c"
    using rc_wf_flag_owner [OF wf, of b f] by simp
qed

lemma forget_fresh: "handles h p = None \<Longrightarrow> forget p h = h"
  by (simp add: forget_def fun_upd_idem)

lemma create_exec:
  "handles h p = Some sh \<Longrightarrow> shared_create p h =
    Inr (put_handle p (sh\<lparr>m_cnt := Some (brk h), m_cow := Some (Suc (brk h))\<rparr>)
      (h\<lparr>cnts := (cnts h)(brk h \<mapsto> 1), cows := (cows h)(Suc (brk h) \<mapsto> False), brk := Suc (Suc (brk h))\<rparr>))"
  by (simp add: shared_create_def Let_def)

lemma fresh_users: "rc_wf h \<Longrightarrow> users h (brk h) = {}"
proof -
  assume wf: "rc_wf h"
  have "m_cnt sh \<noteq> Some (brk h)" if q: "handles h q = Some sh" for q sh
  proof
    assume "m_cnt sh = Some (brk h)"
    then obtain c where "cnts h (brk h) = Some c" by (rule rc_wf_live [OF wf q])
    from rc_wf_below [OF wf this] show False by simp
  qed
  then show ?thesis by (auto simp: users_def)
qed

lemma create_wf:
  assumes wf: "rc_wf (forget p h)" and p: "p \<noteq> 0"
  shows "rc_wf (put_handle p (sh\<lparr>m_cnt := Some (brk h), m_cow := Some (Suc (brk h))\<rparr>)
      (h\<lparr>cnts := (cnts h)(brk h \<mapsto> 1), cows := (cows h)(Suc (brk h) \<mapsto> False), brk := Suc (Suc (brk h))\<rparr>))"
    (is "rc_wf ?h")
proof (rule rc_wfI)
  show "handles ?h 0 = None" using rc_wf_null [OF wf] p by (simp split: if_splits)
next
  fix q sq assume "handles ?h q = Some sq"
  then show "m_cow sq = map_option Suc (m_cnt sq)"
    using rc_wf_handle [OF wf, of q sq] by (auto split: if_splits)
next
  fix q sq a assume "handles ?h q = Some sq" "m_cnt sq = Some a"
  then show "\<exists>c. cnts ?h a = Some c"
    using rc_wf_liveD [OF wf, of q sq a] by (auto split: if_splits)
next
  fix a c assume a: "cnts ?h a = Some c"
  show "count_ok ?h a c"
  proof (cases "a = brk h")
    case True
    have "users h (brk h) - {p} = {}" using fresh_users [OF wf] by simp
    then have "users ?h a = {p}" using True by (auto simp: users_put)
    then show ?thesis using a True by (simp add: count_ok_def)
  next
    case False
    with a rc_wf_count [OF wf, of a c] show ?thesis by (auto simp: count_ok_def users_put)
  qed
next
  fix b f assume "cows ?h b = Some f"
  then show "\<exists>a c. b = Suc a \<and> cnts ?h a = Some c"
    using rc_wf_flag_owner [OF wf, of b f] by (auto split: if_splits)
qed

lemma join_wf:
  assumes wf: "rc_wf (forget p h)" and p: "p \<noteq> 0" and c: "cnts h a = Some c"
  shows "rc_wf (put_handle p \<lparr>m_dtr = d, m_cnt = Some a, m_cow = Some (Suc a)\<rparr>
      (h\<lparr>cnts := (cnts h)(a \<mapsto> c + 1), cows := (cows h)(Suc a \<mapsto> True)\<rparr>))"
    (is "rc_wf ?h")
proof (rule rc_wfI)
  show "handles ?h 0 = None" using rc_wf_null [OF wf] p by (simp split: if_splits)
next
  fix q sq assume "handles ?h q = Some sq"
  then show "m_cow sq = map_option Suc (m_cnt sq)"
    using rc_wf_handle [OF wf, of q sq] by (auto split: if_splits)
next
  fix q sq a' assume "handles ?h q = Some sq" "m_cnt sq = Some a'"
  then show "\<exists>c. cnts ?h a' = Some c"
    using rc_wf_liveD [OF wf, of q sq a'] by (auto split: if_splits)
next
  fix a' c' assume a': "cnts ?h a' = Some c'"
  show "count_ok ?h a' c'"
  proof (cases "a' = a")
    case True
    have ok: "count_ok (forget p h) a c" using c rc_wf_count [OF wf] by simp
    have "0 \<notin> users ?h a"
      using rc_wf_null [OF wf] p by (auto simp: users_def split: if_splits)
    then have "card (insert p (users h a - {p})) < 2 ^ 64"
      by (intro card_oids_less) (simp add: users_put)
    moreover have "card (insert p (users h a - {p})) = Suc (card (users h a - {p}))"
      by (simp add: card.insert_remove)
    ultimately have "unat (c + 1) = card (insert p (users h a))"
      using ok by (subst unat_inc) (auto simp: count_ok_def)
    with ok True a' show ?thesis by (auto simp: count_ok_def users_put)
  next
    case False
    with a' rc_wf_count [OF wf, of a' c'] show ?thesis by (auto simp: count_ok_def users_put)
  qed
next
  fix b f assume "cows ?h b = Some f"
  then show "\<exists>a' c. b = Suc a' \<and> cnts ?h a' = Some c"
    using rc_wf_flag_owner [OF wf, of b] c by (fastforce split: if_splits)
qed

lemma take_wf:
  assumes wf: "rc_wf (forget p h)" and p: "p \<noteq> 0" "p \<noteq> q" and q: "handles h q = Some sq"
  shows "rc_wf (put_handle q (sq\<lparr>m_cnt := None, m_cow := None\<rparr>)
      (put_handle p \<lparr>m_dtr = m_dtr sq, m_cnt = m_cnt sq, m_cow = m_cow sq\<rparr> h))"
    (is "rc_wf ?h")
proof (rule rc_wfI)
  have q0: "q \<noteq> 0" using rc_wf_null [OF wf] p q by (auto split: if_splits)
  then show "handles ?h 0 = None" using rc_wf_null [OF wf] p by (simp split: if_splits)
next
  have "m_cow sq = map_option Suc (m_cnt sq)" using rc_wf_handle [OF wf, of q sq] p q by simp
  moreover fix r sr assume "handles ?h r = Some sr"
  ultimately show "m_cow sr = map_option Suc (m_cnt sr)"
    using rc_wf_handle [OF wf, of r sr] by (auto split: if_splits)
next
  fix r sr a assume r: "handles ?h r = Some sr" "m_cnt sr = Some a"
  have "\<exists>c. cnts h a = Some c" if "m_cnt sq = Some a"
    using rc_wf_liveD [OF wf, of q sq a] p q that by simp
  with r show "\<exists>c. cnts ?h a = Some c"
    using rc_wf_liveD [OF wf, of r sr a] by (auto split: if_splits)
next
  fix a c assume a: "cnts ?h a = Some c"
  then have ok: "count_ok (forget p h) a c" using rc_wf_count [OF wf] by simp
  show "count_ok ?h a c"
  proof (cases "m_cnt sq = Some a")
    case True
    with q p have "q \<in> users h a - {p}" by (simp add: users_mem)
    moreover have "users ?h a = insert p ((users h a - {p}) - {q})"
      using True p by (auto simp: users_put)
    ultimately have "users ?h a \<noteq> {}" "card (users ?h a) = card (users h a - {p})"
      by (simp_all add: card_insert_disjoint card_Suc_Diff1 del: card_Diff_insert)
    with ok show ?thesis by (simp add: count_ok_def)
  next
    case False
    with q have "users ?h a = users h a - {p}" by (auto simp: users_put users_mem)
    with ok show ?thesis by (simp add: count_ok_def)
  qed
next
  fix b f assume "cows ?h b = Some f"
  then show "\<exists>a c. b = Suc a \<and> cnts ?h a = Some c"
    using rc_wf_flag_owner [OF wf, of b f] by auto
qed

section \<open>Abstract view: which handles share which resource\<close>

text \<open>
  The client of the class thinks of a handle as a member of a group that shares one resource:
  \<open>group_of h p\<close> is the group of \<open>p\<close>, \<open>None\<close> when \<open>p\<close> is dead or moved from. A group is named by
  the address of its count.
\<close>

definition group_of :: "('d, 'm) rc_heap_scheme \<Rightarrow> oid \<rightharpoonup> addr" where
  "group_of h p = (case handles h p of None \<Rightarrow> None | Some sh \<Rightarrow> m_cnt sh)"

datatype 'd rc_op =
    Construct oid 'd
  | Copy_Construct oid oid
  | Move_Construct oid oid
  | Copy_Assign oid oid
  | Move_Assign oid oid
  | Destroy oid
  | Write oid

fun abs_op :: "addr \<Rightarrow> 'd rc_op \<Rightarrow> (oid \<rightharpoonup> addr) \<Rightarrow> (oid \<rightharpoonup> addr)" where
  "abs_op n (Construct p d) g = g(p \<mapsto> n)"
| "abs_op n (Copy_Construct p q) g = g(p := g q)"
| "abs_op n (Move_Construct p q) g = g(p := g q, q := None)"
| "abs_op n (Copy_Assign p q) g = g(p := g q)"
| "abs_op n (Move_Assign p q) g = g(p := g q, q := None)"
| "abs_op n (Destroy p) g = g(p := None)"
| "abs_op n (Write p) g = (if \<exists>q. q \<noteq> p \<and> g q = g p then g(p \<mapsto> n) else g)"

text \<open>The operations as the client calls them; the copy callback of \<open>Write\<close> is \<open>copy\<close>.\<close>

fun exec_op ::
  "('d \<Rightarrow> ('d, 'm) rc_heap_scheme \<Rightarrow> fault + ('d, 'm) rc_heap_scheme) \<Rightarrow>
   (('d, 'm) rc_heap_scheme \<Rightarrow> fault + ('d, 'm) rc_heap_scheme) \<Rightarrow>
   'd rc_op \<Rightarrow> ('d, 'm) rc_heap_scheme \<Rightarrow> fault + ('d, 'm) rc_heap_scheme" where
  "exec_op call copy (Construct p d) h = shared_construct p d h"
| "exec_op call copy (Copy_Construct p q) h = shared_copy_construct call p q h"
| "exec_op call copy (Move_Construct p q) h = shared_move_construct call p q h"
| "exec_op call copy (Copy_Assign p q) h = shared_copy_assign call p q h"
| "exec_op call copy (Move_Assign p q) h = shared_move_assign call p q h"
| "exec_op call copy (Destroy p) h = shared_destroy call p h"
| "exec_op call copy (Write p) h = shared_write call copy p h"

text \<open>
  What the class asks of its caller: an object is constructed where there is none, operations
  are on live objects, and one copies from or writes through a handle only if it was not moved
  from. A handle is not copy-assigned to itself.
\<close>

fun legal :: "'d rc_op \<Rightarrow> ('d, 'm) rc_heap_scheme \<Rightarrow> bool" where
  "legal (Construct p d) h \<longleftrightarrow> p \<noteq> 0 \<and> handles h p = None"
| "legal (Copy_Construct p q) h \<longleftrightarrow> p \<noteq> 0 \<and> handles h p = None \<and> group_of h q \<noteq> None"
| "legal (Move_Construct p q) h \<longleftrightarrow> p \<noteq> 0 \<and> handles h p = None \<and> handles h q \<noteq> None"
| "legal (Copy_Assign p q) h \<longleftrightarrow> p \<noteq> q \<and> handles h p \<noteq> None \<and> group_of h q \<noteq> None"
| "legal (Move_Assign p q) h \<longleftrightarrow> handles h p \<noteq> None \<and> handles h q \<noteq> None"
| "legal (Destroy p) h \<longleftrightarrow> handles h p \<noteq> None"
| "legal (Write p) h \<longleftrightarrow> group_of h p \<noteq> None"

fun exec_ops ::
  "('d \<Rightarrow> ('d, 'm) rc_heap_scheme \<Rightarrow> fault + ('d, 'm) rc_heap_scheme) \<Rightarrow>
   (('d, 'm) rc_heap_scheme \<Rightarrow> fault + ('d, 'm) rc_heap_scheme) \<Rightarrow>
   'd rc_op list \<Rightarrow> ('d, 'm) rc_heap_scheme \<Rightarrow> fault + ('d, 'm) rc_heap_scheme" where
  "exec_ops call copy [] h = Inr h"
| "exec_ops call copy (x # xs) h = bind_res (exec_op call copy x h) (exec_ops call copy xs)"

fun legal_ops ::
  "('d \<Rightarrow> ('d, 'm) rc_heap_scheme \<Rightarrow> fault + ('d, 'm) rc_heap_scheme) \<Rightarrow>
   (('d, 'm) rc_heap_scheme \<Rightarrow> fault + ('d, 'm) rc_heap_scheme) \<Rightarrow>
   'd rc_op list \<Rightarrow> ('d, 'm) rc_heap_scheme \<Rightarrow> bool" where
  "legal_ops call copy [] h \<longleftrightarrow> True"
| "legal_ops call copy (x # xs) h \<longleftrightarrow> legal x h \<and>
     (case exec_op call copy x h of Inl _ \<Rightarrow> True | Inr h' \<Rightarrow> legal_ops call copy xs h')"

lemma group_simps [simp]:
  "group_of (put_handle p sh h) = (group_of h)(p := m_cnt sh)"
  "group_of (forget p h) = (group_of h)(p := None)"
  "group_of (h\<lparr>cnts := cs\<rparr>) = group_of h" "group_of (h\<lparr>cows := ws\<rparr>) = group_of h"
  "group_of (h\<lparr>brk := n\<rparr>) = group_of h"
  by (auto simp: group_of_def fun_eq_iff)

lemma group_SomeE:
  assumes "group_of h p = Some a"
  obtains sh where "handles h p = Some sh" "m_cnt sh = Some a"
  using assms by (auto simp: group_of_def split: option.splits)

lemma group_cong: "handles h = handles h' \<Longrightarrow> group_of h = group_of h'"
  by (simp add: group_of_def fun_eq_iff)

lemma users_group: "users h a = {p. group_of h p = Some a}"
  by (auto simp: users_def group_of_def split: option.splits)

lemma group_fresh: "rc_wf h \<Longrightarrow> group_of h q \<noteq> Some (brk h)"
  using fresh_users [of h] by (auto simp: users_group)

lemma no_handle_no_group: "handles h p = None \<Longrightarrow> group_of h p = None"
  by (simp add: group_of_def)

section \<open>The contract with the release callback\<close>

text \<open>
  The interface between the class and its client: \<open>m_dtr\<close> may change the client's part of the
  state and may fault, but leaves counts, flags and handles alone.
\<close>

definition rc_frame :: "('d, 'm) rc_heap_scheme \<Rightarrow> ('d, 'm) rc_heap_scheme \<Rightarrow> bool" where
  "rc_frame h h' \<longleftrightarrow> cnts h' = cnts h \<and> cows h' = cows h \<and> handles h' = handles h \<and> brk h' = brk h"

lemma rc_frameD:
  assumes "rc_frame h h'"
  shows "cnts h' = cnts h" "cows h' = cows h" "handles h' = handles h" "brk h' = brk h"
    "group_of h' = group_of h" "rc_wf h' \<longleftrightarrow> rc_wf h"
  using assms group_cong [of h' h] rc_wf_cong [of h' h] by (simp_all add: rc_frame_def)

locale release_callback =
  fixes call :: "'d \<Rightarrow> ('d, 'm) rc_heap_scheme \<Rightarrow> fault + ('d, 'm) rc_heap_scheme"
  assumes call_frame: "call d h = Inr h' \<Longrightarrow> rc_frame h h'"
begin

lemma unref_spec:
  assumes wf: "rc_wf h" and p: "handles h p = Some sh" and u: "shared_unref call p h = Inr h1"
  shows "rc_wf (forget p h1) \<and> brk h1 = brk h \<and>
    (\<exists>sh1. handles h1 = (handles h)(p \<mapsto> sh1) \<and> m_dtr sh1 = m_dtr sh)"
proof (cases "m_cnt sh")
  case None
  then have "h1 = h" using unref_null [OF p None, of call] u by simp
  then show ?thesis using forget_null_wf [OF wf p None] p by (auto simp: fun_upd_idem intro!: exI [of _ sh])
next
  case (Some a)
  obtain c where c: "cnts h a = Some c" by (rule rc_wf_live [OF wf p Some])
  show ?thesis
  proof (cases "c = 1")
    case False
    then have "h1 = h\<lparr>cnts := (cnts h)(a \<mapsto> c - 1)\<rparr>"
      using unref_shared [OF wf p Some c False, of call] u by simp
    then show ?thesis using forget_shared_wf [OF wf p Some c False] p by (auto simp: fun_upd_idem intro!: exI [of _ sh])
  next
    case True
    let ?h = "put_handle p (sh\<lparr>m_cnt := None, m_cow := None\<rparr>)
      (h\<lparr>cnts := (cnts h)(a := None), cows := (cows h)(Suc a := None)\<rparr>)"
    have "call (m_dtr sh) ?h = Inr h1"
      using unref_last [OF wf p Some, of call] c True u by simp
    note eq = rc_frameD [OF call_frame [OF this]]
    have "rc_wf (forget p ?h)" using forget_last_wf [OF wf p Some] c True by simp
    moreover have "rc_wf (forget p h1) \<longleftrightarrow> rc_wf (forget p ?h)"
      by (rule rc_wf_cong) (simp_all add: eq(1-4) forget_def)
    ultimately show ?thesis
      by (auto simp: eq(1-4) put_handle_def intro!: exI [of _ "sh\<lparr>m_cnt := None, m_cow := None\<rparr>"])
  qed
qed

lemma copy_assign_spec:
  assumes wf: "rc_wf h" and p: "handles h p = Some sp" and q: "group_of h q = Some a" "q \<noteq> p"
    and u: "shared_unref call p h = Inr h1"
  shows "\<exists>h'. shared_copy_assign call p q h = Inr h' \<and> rc_wf h' \<and> group_of h' = (group_of h)(p \<mapsto> a)"
proof -
  from unref_spec [OF wf p u] obtain sp1 where wf1: "rc_wf (forget p h1)"
    and h1: "handles h1 = (handles h)(p \<mapsto> sp1)" by blast
  from q(1) obtain sq where sq: "handles h q = Some sq" "m_cnt sq = Some a" by (rule group_SomeE)
  then have q1: "handles (forget p h1) q = Some sq" using q(2) by (simp add: h1)
  then have cow: "m_cow sq = Some (Suc a)" using rc_wf_handle [OF wf1 q1] sq by simp
  from rc_wf_liveD [OF wf1 q1 sq(2)] obtain c where c: "cnts h1 a = Some c" by auto
  with rc_wf_flag [OF wf1, of a c] obtain f where f: "cows h1 (Suc a) = Some f" by auto
  let ?h = "put_handle p \<lparr>m_dtr = m_dtr sq, m_cnt = Some a, m_cow = Some (Suc a)\<rparr>
    (h1\<lparr>cnts := (cnts h1)(a \<mapsto> c + 1), cows := (cows h1)(Suc a \<mapsto> True)\<rparr>)"
  have "shared_copy_assign call p q h = Inr ?h"
    using u q q1 sq cow c f
    by (simp add: shared_copy_assign_def shared_ref_def get_handle_def h1)
  moreover have p0: "p \<noteq> 0" using rc_wf_null [OF wf] p by auto
  have "rc_wf ?h" by (rule join_wf [OF wf1 p0 c])
  moreover have "group_of ?h = (group_of h)(p \<mapsto> a)"
    by (simp add: group_of_def h1 fun_eq_iff)
  ultimately show ?thesis by blast
qed

lemma move_assign_spec:
  assumes wf: "rc_wf h" and p: "handles h p = Some sp" and q: "handles h q = Some sq"
    and u: "shared_unref call p h = Inr h1"
  shows "\<exists>h'. shared_move_assign call p q h = Inr h' \<and> rc_wf h' \<and>
    group_of h' = (group_of h)(p := group_of h q, q := None)"
proof -
  from unref_spec [OF wf p u] obtain sp1 where wf1: "rc_wf (forget p h1)"
    and h1: "handles h1 = (handles h)(p \<mapsto> sp1)" by blast
  have p0: "p \<noteq> 0" using rc_wf_null [OF wf] p by auto
  show ?thesis
  proof (cases "q = p")
    case True
    let ?h = "put_handle p \<lparr>m_dtr = m_dtr sp1, m_cnt = None, m_cow = None\<rparr> h1"
    have "shared_move_assign call p q h = Inr ?h"
      using u True by (simp add: shared_move_assign_def get_handle_def h1)
    moreover have "rc_wf ?h" by (rule put_null_wf [OF wf1 p0]) simp_all
    moreover have "group_of ?h = (group_of h)(p := None)" by (simp add: group_of_def h1 fun_eq_iff)
    ultimately show ?thesis using True by auto
  next
    case False
    let ?h = "put_handle q (sq\<lparr>m_cnt := None, m_cow := None\<rparr>)
      (put_handle p \<lparr>m_dtr = m_dtr sq, m_cnt = m_cnt sq, m_cow = m_cow sq\<rparr> h1)"
    have q1: "handles h1 q = Some sq" using q False by (simp add: h1)
    have "shared_move_assign call p q h = Inr ?h"
      using u q1 False by (simp add: shared_move_assign_def get_handle_def h1)
    moreover have "rc_wf ?h" using False by (intro take_wf [OF wf1 p0 _ q1]) simp
    moreover have "group_of ?h = (group_of h)(p := group_of h q, q := None)"
      using q False by (simp add: group_of_def h1 fun_eq_iff)
    ultimately show ?thesis by blast
  qed
qed

lemma destroy_spec:
  assumes wf: "rc_wf h" and p: "handles h p = Some sp" and u: "shared_unref call p h = Inr h1"
  shows "\<exists>h'. shared_destroy call p h = Inr h' \<and> rc_wf h' \<and> group_of h' = (group_of h)(p := None) \<and>
    handles h' = (handles h)(p := None)"
proof -
  from unref_spec [OF wf p u] obtain sp1 where wf1: "rc_wf (forget p h1)"
    and h1: "handles h1 = (handles h)(p \<mapsto> sp1)" by blast
  have "shared_destroy call p h = Inr (forget p h1)"
    using u by (simp add: shared_destroy_def forget_def)
  moreover have "group_of (forget p h1) = (group_of h)(p := None)"
    by (simp add: group_of_def h1 fun_eq_iff)
  ultimately show ?thesis using wf1 h1 by (auto simp: fun_eq_iff)
qed

end

lemma construct_spec:
  assumes wf: "rc_wf h" and p: "p \<noteq> 0" "handles h p = None"
  shows "\<exists>h'. shared_construct p d h = Inr h' \<and> rc_wf h' \<and> group_of h' = (group_of h)(p \<mapsto> brk h)"
proof -
  have "rc_wf (forget p (put_handle p \<lparr>m_dtr = d, m_cnt = None, m_cow = None\<rparr> h))"
    using wf p by (simp add: forget_fresh)
  from create_wf [OF this p(1), of "\<lparr>m_dtr = d, m_cnt = None, m_cow = None\<rparr>"] show ?thesis
    by (simp add: shared_construct_def create_exec)
qed

text \<open>A handle shares its group with no other exactly when the count is one.\<close>

lemma alone_iff:
  assumes wf: "rc_wf h" and p: "group_of h p = Some a" and c: "cnts h a = Some c"
  shows "c = 1 \<longleftrightarrow> \<not> (\<exists>q. q \<noteq> p \<and> group_of h q = Some a)"
proof -
  have "p \<in> users h a" using p by (simp add: users_group)
  then have "users h a = {p} \<longleftrightarrow> \<not> (\<exists>q. q \<noteq> p \<and> group_of h q = Some a)"
    by (auto simp: users_group)
  moreover have "unat c = card (users h a)" using rc_wf_count [OF wf c] by (simp add: count_ok_def)
  then have "c = 1 \<longleftrightarrow> users h a = {p}"
    using \<open>p \<in> users h a\<close> unat_eq_one_iff [of c] by (metis One_nat_def card_1_singleton_iff singletonD)
  ultimately show ?thesis by simp
qed

lemma write_alone_exec:
  assumes wf: "rc_wf h" and p: "handles h p = Some sh" "m_cnt sh = Some a" and c: "cnts h a = Some 1"
    and copy: "copy (h\<lparr>cows := (cows h)(Suc a \<mapsto> False)\<rparr>) = Inr h1"
      "rc_frame (h\<lparr>cows := (cows h)(Suc a \<mapsto> False)\<rparr>) h1"
  shows "shared_write call copy p h = Inr h1"
proof -
  obtain f where f: "cows h (Suc a) = Some f" using rc_wf_flag [OF wf c] by blast
  have "m_cow sh = Some (Suc a)" using rc_wf_handle [OF wf p(1)] p(2) by simp
  with assms f show ?thesis
    by (simp add: shared_write_def last_exec rc_frameD [OF copy(2)] get_handle_def)
qed

lemma write_alone_wf:
  assumes wf: "rc_wf h" and c: "cnts h a = Some 1"
  shows "rc_wf (h\<lparr>cows := (cows h)(Suc a \<mapsto> False)\<rparr>)"
proof (rule rc_wfI)
  fix a' c' assume "cnts (h\<lparr>cows := (cows h)(Suc a \<mapsto> False)\<rparr>) a' = Some c'"
  then show "count_ok (h\<lparr>cows := (cows h)(Suc a \<mapsto> False)\<rparr>) a' c'"
    using rc_wf_count [OF wf, of a' c'] c by (auto simp: count_ok_def)
qed (use rc_wf_null [OF wf] rc_wf_handle [OF wf] rc_wf_liveD [OF wf] rc_wf_flag_owner [OF wf] c in
  \<open>auto split: if_splits\<close>)

lemma write_shared_exec:
  assumes wf: "rc_wf h" and p: "handles h p = Some sh" "m_cnt sh = Some a"
    and c: "cnts h a = Some c" "c \<noteq> 1" and copy: "copy h = Inr h1" "rc_frame h h1"
  shows "shared_write call copy p h =
    Inr (put_handle p (sh\<lparr>m_cnt := Some (brk h), m_cow := Some (Suc (brk h))\<rparr>)
      (h1\<lparr>cnts := (cnts h)(a \<mapsto> c - 1, brk h \<mapsto> 1), cows := (cows h)(Suc (brk h) \<mapsto> False),
          brk := Suc (Suc (brk h))\<rparr>))"
proof -
  have f: "cows h (Suc a) = Some True" using rc_wf_flag [OF wf c(1)] c(2) by auto
  have cow: "m_cow sh = Some (Suc a)" using rc_wf_handle [OF wf p(1)] p(2) by simp
  note fr = rc_frameD [OF copy(2)]
  have "shared_unref call p h1 = Inr (h1\<lparr>cnts := (cnts h)(a \<mapsto> c - 1)\<rparr>)"
    using unref_shared [of h1 p sh a c call] wf p c by (simp add: fr)
  then show ?thesis
    using assms f cow by (simp add: shared_write_def last_exec get_handle_def fr create_exec)
qed

lemma write_shared_wf:
  assumes wf: "rc_wf h" and p: "handles h p = Some sh" "m_cnt sh = Some a"
    and c: "cnts h a = Some c" "c \<noteq> 1"
  shows "rc_wf (put_handle p (sh\<lparr>m_cnt := Some (brk h), m_cow := Some (Suc (brk h))\<rparr>)
      (h\<lparr>cnts := (cnts h)(a \<mapsto> c - 1, brk h \<mapsto> 1), cows := (cows h)(Suc (brk h) \<mapsto> False),
          brk := Suc (Suc (brk h))\<rparr>))"
proof -
  have "p \<noteq> 0" using rc_wf_null [OF wf] p by auto
  from create_wf [OF forget_shared_wf [OF wf p c] this] show ?thesis by simp
qed

lemma write_spec:
  assumes wf: "rc_wf h" and p: "group_of h p = Some a"
    and copy: "\<And>h0. \<exists>h1. copy h0 = Inr h1 \<and> rc_frame h0 h1"
  shows "\<exists>h'. shared_write call copy p h = Inr h' \<and> rc_wf h' \<and>
    group_of h' = (if \<exists>q. q \<noteq> p \<and> group_of h q = group_of h p then (group_of h)(p \<mapsto> brk h) else group_of h)"
proof -
  from p obtain sh where sh: "handles h p = Some sh" "m_cnt sh = Some a" by (rule group_SomeE)
  obtain c where c: "cnts h a = Some c" using rc_wf_live [OF wf sh] .
  show ?thesis
  proof (cases "c = 1")
    case True
    let ?h = "h\<lparr>cows := (cows h)(Suc a \<mapsto> False)\<rparr>"
    obtain h1 where h1: "copy ?h = Inr h1" "rc_frame ?h h1" using copy by blast
    have "shared_write call copy p h = Inr h1"
      using write_alone_exec [where copy = copy, OF wf sh _ h1] c True by simp
    moreover have "rc_wf h1" "group_of h1 = group_of h"
      using write_alone_wf [OF wf] c True by (simp_all add: rc_frameD [OF h1(2)])
    ultimately show ?thesis using alone_iff [OF wf p c] True p by auto
  next
    case False
    obtain h1 where h1: "copy h = Inr h1" "rc_frame h h1" using copy by blast
    note fr = rc_frameD [OF h1(2)]
    let ?h = "put_handle p (sh\<lparr>m_cnt := Some (brk h1), m_cow := Some (Suc (brk h1))\<rparr>)
      (h1\<lparr>cnts := (cnts h1)(a \<mapsto> c - 1, brk h1 \<mapsto> 1), cows := (cows h1)(Suc (brk h1) \<mapsto> False),
          brk := Suc (Suc (brk h1))\<rparr>)"
    have "shared_write call copy p h = Inr ?h"
      using write_shared_exec [where copy = copy, OF wf sh c False h1] by (simp add: fr)
    moreover have "rc_wf ?h"
      using write_shared_wf [of h1 p sh a c] wf sh c False by (simp add: fr)
    moreover have "\<exists>q. q \<noteq> p \<and> group_of h q = group_of h p"
      using alone_iff [OF wf p c] False p by simp
    ultimately show ?thesis by (simp add: fr)
  qed
qed

section \<open>Every legal run is safe\<close>

text \<open>
  When the client's callbacks do not fault, no operation does, and each implements its abstract
  counterpart.
\<close>

locale total_release = release_callback call
  for call :: "'d \<Rightarrow> ('d, 'm) rc_heap_scheme \<Rightarrow> fault + ('d, 'm) rc_heap_scheme" +
  fixes copy :: "('d, 'm) rc_heap_scheme \<Rightarrow> fault + ('d, 'm) rc_heap_scheme"
  assumes call_total: "\<exists>h'. call d h = Inr h'"
    and copy_total: "\<exists>h'. copy h = Inr h' \<and> rc_frame h h'"
begin

lemma unref_total:
  assumes wf: "rc_wf h" and p: "handles h p = Some sh"
  shows "\<exists>h1. shared_unref call p h = Inr h1"
proof (cases "m_cnt sh")
  case None
  then show ?thesis using unref_null [OF p None] by blast
next
  case (Some a)
  obtain c where c: "cnts h a = Some c" using rc_wf_live [OF wf p Some] .
  show ?thesis
    using unref_shared [OF wf p Some c, of call] unref_last [OF wf p Some, of call] c call_total
    by (cases "c = 1") auto
qed

lemma legal_exec:
  assumes wf: "rc_wf h" and l: "legal x h"
  shows "\<exists>h'. exec_op call copy x h = Inr h' \<and> rc_wf h' \<and> group_of h' = abs_op (brk h) x (group_of h)"
proof (cases x)
  case (Construct p d)
  then show ?thesis using l construct_spec [OF wf, of p d] by simp
next
  case (Copy_Construct p q)
  with l obtain a where p: "p \<noteq> 0" "handles h p = None" and a: "group_of h q = Some a" by auto
  from a obtain sq where sq: "handles h q = Some sq" by (rule group_SomeE)
  let ?h = "put_handle p \<lparr>m_dtr = m_dtr sq, m_cnt = None, m_cow = None\<rparr> h"
  have wf': "rc_wf ?h" using wf p by (intro put_null_wf) (simp_all add: forget_fresh)
  have "group_of ?h q = Some a" "q \<noteq> p" using a p sq by auto
  then show ?thesis
    using copy_assign_spec [OF wf' _ _ _ unref_null, of p _ q a] Copy_Construct sq a
    by (simp add: shared_copy_construct_def)
next
  case (Move_Construct p q)
  with l obtain sq where p: "p \<noteq> 0" "handles h p = None" and sq: "handles h q = Some sq" by auto
  let ?h = "put_handle p \<lparr>m_dtr = m_dtr sq, m_cnt = None, m_cow = None\<rparr> h"
  have wf': "rc_wf ?h" using wf p by (intro put_null_wf) (simp_all add: forget_fresh)
  have "q \<noteq> p" using p sq by auto
  then show ?thesis
    using move_assign_spec [OF wf' _ _ unref_null, of p _ q sq] Move_Construct sq
    by (simp add: shared_move_construct_def)
next
  case (Copy_Assign p q)
  with l obtain sp a where sp: "handles h p = Some sp" and a: "group_of h q = Some a" "q \<noteq> p" by auto
  from unref_total [OF wf sp] obtain h1 where "shared_unref call p h = Inr h1" by blast
  from copy_assign_spec [OF wf sp a this] show ?thesis using Copy_Assign a by simp
next
  case (Move_Assign p q)
  with l obtain sp sq where sp: "handles h p = Some sp" and sq: "handles h q = Some sq" by auto
  from unref_total [OF wf sp] obtain h1 where "shared_unref call p h = Inr h1" by blast
  from move_assign_spec [OF wf sp sq this] show ?thesis using Move_Assign by simp
next
  case (Destroy p)
  with l obtain sp where sp: "handles h p = Some sp" by auto
  from unref_total [OF wf sp] obtain h1 where "shared_unref call p h = Inr h1" by blast
  from destroy_spec [OF wf sp this] show ?thesis using Destroy by auto
next
  case (Write p)
  with l obtain a where "group_of h p = Some a" by auto
  from write_spec [OF wf this, of copy call] copy_total show ?thesis using Write by simp
qed

lemma legal_run:
  "rc_wf h \<Longrightarrow> legal_ops call copy xs h \<Longrightarrow> \<exists>h'. exec_ops call copy xs h = Inr h' \<and> rc_wf h'"
proof (induction xs arbitrary: h)
  case Nil
  then show ?case by simp
next
  case (Cons x xs)
  from legal_exec [OF Cons.prems(1), of x] Cons.prems(2)
  obtain h1 where "exec_op call copy x h = Inr h1" "rc_wf h1" by auto
  with Cons show ?case by simp
qed

end

section \<open>What a client with its own state sees\<close>

text \<open>
  A client extends the heap record with its own fields. These lemmas say, per operation, which
  callback each handle carries afterwards (\<open>dtr_of\<close>) and that the client's fields
  (\<open>rc_heap.more\<close>) change only through a callback.
\<close>

definition dtr_of :: "('d, 'm) rc_heap_scheme \<Rightarrow> oid \<rightharpoonup> 'd" where
  "dtr_of h p = map_option m_dtr (handles h p)"

lemma dtr_of_simps [simp]:
  "dtr_of (put_handle p sh h) = (dtr_of h)(p \<mapsto> m_dtr sh)"
  "dtr_of (forget p h) = (dtr_of h)(p := None)"
  "dtr_of (h\<lparr>cnts := cs\<rparr>) = dtr_of h" "dtr_of (h\<lparr>cows := ws\<rparr>) = dtr_of h"
  "dtr_of (h\<lparr>brk := n\<rparr>) = dtr_of h"
  by (auto simp: dtr_of_def fun_eq_iff)

lemma more_simps [simp]:
  "rc_heap.more (put_handle p sh h) = rc_heap.more h"
  "rc_heap.more (forget p h) = rc_heap.more h"
  by (simp_all add: put_handle_def forget_def)

lemma construct_client:
  assumes "rc_wf h" "p \<noteq> 0" "handles h p = None"
  shows "\<exists>h'. shared_construct p d h = Inr h' \<and> rc_wf h' \<and> group_of h' = (group_of h)(p \<mapsto> brk h) \<and>
    dtr_of h' = (dtr_of h)(p \<mapsto> d) \<and> rc_heap.more h' = rc_heap.more h"
  using construct_spec [OF assms] by (auto simp: shared_construct_def create_exec)

lemma copy_construct_client:
  assumes wf: "rc_wf h" and p: "p \<noteq> 0" "handles h p = None" and q: "group_of h q = Some a"
  shows "\<exists>h'. shared_copy_construct call p q h = Inr h' \<and> rc_wf h' \<and>
    group_of h' = (group_of h)(p \<mapsto> a) \<and> dtr_of h' = (dtr_of h)(p := dtr_of h q) \<and>
    rc_heap.more h' = rc_heap.more h"
proof -
  from q obtain sq where sq: "handles h q = Some sq" "m_cnt sq = Some a" by (rule group_SomeE)
  have qp: "q \<noteq> p" using sq p by auto
  have cow: "m_cow sq = Some (Suc a)" using rc_wf_handle [OF wf sq(1)] sq by simp
  obtain c where c: "cnts h a = Some c" using rc_wf_live [OF wf sq] .
  obtain f where f: "cows h (Suc a) = Some f" using rc_wf_flag [OF wf c] by blast
  let ?h = "put_handle p \<lparr>m_dtr = m_dtr sq, m_cnt = Some a, m_cow = Some (Suc a)\<rparr>
    (h\<lparr>cnts := (cnts h)(a \<mapsto> c + 1), cows := (cows h)(Suc a \<mapsto> True)\<rparr>)"
  have "shared_copy_construct call p q h = Inr ?h"
    using p sq qp cow c f
    by (simp add: shared_copy_construct_def shared_copy_assign_def shared_ref_def unref_null)
  moreover have "rc_wf ?h" using wf p c by (intro join_wf) (simp_all add: forget_fresh)
  ultimately show ?thesis using sq by (simp add: dtr_of_def)
qed

lemma move_construct_client:
  assumes wf: "rc_wf h" and p: "p \<noteq> 0" "handles h p = None" and q: "handles h q = Some sq"
  shows "\<exists>h'. shared_move_construct call p q h = Inr h' \<and> rc_wf h' \<and>
    group_of h' = (group_of h)(p := group_of h q, q := None) \<and>
    dtr_of h' = (dtr_of h)(p := dtr_of h q) \<and> rc_heap.more h' = rc_heap.more h"
proof -
  have qp: "q \<noteq> p" using q p by auto
  let ?h = "put_handle q (sq\<lparr>m_cnt := None, m_cow := None\<rparr>)
    (put_handle p \<lparr>m_dtr = m_dtr sq, m_cnt = m_cnt sq, m_cow = m_cow sq\<rparr> h)"
  have "shared_move_construct call p q h = Inr ?h"
    using p q qp by (simp add: shared_move_construct_def shared_move_assign_def unref_null)
  moreover have "rc_wf ?h" using wf p q qp by (intro take_wf) (simp_all add: forget_fresh)
  ultimately show ?thesis using q qp by (auto simp: dtr_of_def group_of_def fun_eq_iff)
qed

lemma destroy_moved_client:
  assumes wf: "rc_wf h" and p: "handles h p = Some sh" "m_cnt sh = None"
  shows "shared_destroy call p h = Inr (forget p h)" "rc_wf (forget p h)"
  using unref_null [OF p] forget_null_wf [OF wf p] by (simp_all add: shared_destroy_def forget_def)

lemma destroy_shared_client:
  assumes wf: "rc_wf h" and p: "group_of h p = Some a" and q: "q \<noteq> p" "group_of h q = Some a"
  shows "\<exists>h'. shared_destroy call p h = Inr h' \<and> rc_wf h' \<and> group_of h' = (group_of h)(p := None) \<and>
    dtr_of h' = (dtr_of h)(p := None) \<and> rc_heap.more h' = rc_heap.more h"
proof -
  from p obtain sh where sh: "handles h p = Some sh" "m_cnt sh = Some a" by (rule group_SomeE)
  obtain c where c: "cnts h a = Some c" using rc_wf_live [OF wf sh] .
  have "c \<noteq> 1" using alone_iff [OF wf p c] q by blast
  note u = unref_shared [OF wf sh c this, of call] and f = forget_shared_wf [OF wf sh c this]
  show ?thesis
    by (rule exI [of _ "forget p (h\<lparr>cnts := (cnts h)(a \<mapsto> c - 1)\<rparr>)"])
      (use u f in \<open>simp add: shared_destroy_def forget_def group_of_def dtr_of_def fun_eq_iff\<close>)
qed

lemma destroy_alone_client:
  assumes wf: "rc_wf h" and p: "group_of h p = Some a" and q: "\<And>q. q \<noteq> p \<Longrightarrow> group_of h q \<noteq> Some a"
    and d: "dtr_of h p = Some d"
  shows "\<exists>h0. shared_destroy call p h = bind_res (call d h0) (\<lambda>h'. Inr (forget p h')) \<and>
    rc_wf (forget p h0) \<and> group_of (forget p h0) = (group_of h)(p := None) \<and>
    dtr_of (forget p h0) = (dtr_of h)(p := None) \<and> rc_heap.more h0 = rc_heap.more h"
proof -
  from p obtain sh where sh: "handles h p = Some sh" "m_cnt sh = Some a" by (rule group_SomeE)
  obtain c where c: "cnts h a = Some c" using rc_wf_live [OF wf sh] .
  have c1: "cnts h a = Some 1" using alone_iff [OF wf p c] q c by blast
  have "m_dtr sh = d" using d sh by (simp add: dtr_of_def)
  let ?h0 = "put_handle p (sh\<lparr>m_cnt := None, m_cow := None\<rparr>)
      (h\<lparr>cnts := (cnts h)(a := None), cows := (cows h)(Suc a := None)\<rparr>)"
  have "shared_destroy call p h = bind_res (call d ?h0) (\<lambda>h'. Inr (forget p h'))"
    using unref_last [OF wf sh c1, of call] \<open>m_dtr sh = d\<close> by (simp add: shared_destroy_def forget_def)
  moreover have "rc_wf (forget p ?h0)" using forget_last_wf [OF wf sh c1] by simp
  moreover have "group_of (forget p ?h0) = (group_of h)(p := None)" by simp
  ultimately show ?thesis by (intro exI [of _ ?h0]) simp
qed

lemma write_client:
  assumes wf: "rc_wf h" and p: "group_of h p = Some a"
    and copy: "\<And>h0. rc_heap.more h0 = rc_heap.more h \<Longrightarrow>
      copy h0 = Inr (h0\<lparr>rc_heap.more := m\<rparr>)"
  shows "\<exists>h'. shared_write call copy p h = Inr h' \<and> rc_wf h' \<and> dtr_of h' = dtr_of h \<and>
    rc_heap.more h' = m \<and>
    group_of h' = (if \<exists>q. q \<noteq> p \<and> group_of h q = Some a then (group_of h)(p \<mapsto> brk h) else group_of h)"
proof -
  from p obtain sh where sh: "handles h p = Some sh" "m_cnt sh = Some a" by (rule group_SomeE)
  obtain c where c: "cnts h a = Some c" using rc_wf_live [OF wf sh] .
  have fr: "rc_frame h0 (h0\<lparr>rc_heap.more := m\<rparr>)" for h0 :: "('a, 'b) rc_heap_scheme"
    by (simp add: rc_frame_def)
  show ?thesis
  proof (cases "c = 1")
    case True
    let ?h = "h\<lparr>cows := (cows h)(Suc a \<mapsto> False)\<rparr>"
    have "shared_write call copy p h = Inr (?h\<lparr>rc_heap.more := m\<rparr>)"
      using write_alone_exec [where copy = copy and call = call, OF wf sh _ copy fr] c True by simp
    moreover have "rc_wf (?h\<lparr>rc_heap.more := m\<rparr>)"
      using write_alone_wf [OF wf] c True rc_frameD(6) [OF fr] by blast
    moreover have "group_of (?h\<lparr>rc_heap.more := m\<rparr>) = group_of h"
      "dtr_of (?h\<lparr>rc_heap.more := m\<rparr>) = dtr_of h"
      by (simp_all add: group_of_def dtr_of_def fun_eq_iff)
    moreover have "\<not> (\<exists>q. q \<noteq> p \<and> group_of h q = Some a)" using alone_iff [OF wf p c] True by blast
    ultimately show ?thesis by (intro exI [of _ "?h\<lparr>rc_heap.more := m\<rparr>"]) auto
  next
    case False
    let ?h = "h\<lparr>rc_heap.more := m\<rparr>"
    have h: "group_of ?h = group_of h" "dtr_of ?h = dtr_of h" "rc_wf ?h"
      using rc_frameD(5,6) [OF fr] wf by (simp_all add: dtr_of_def fun_eq_iff)
    have "shared_write call copy p h =
        Inr (put_handle p (sh\<lparr>m_cnt := Some (brk h), m_cow := Some (Suc (brk h))\<rparr>)
          (?h\<lparr>cnts := (cnts h)(a \<mapsto> c - 1, brk h \<mapsto> 1), cows := (cows h)(Suc (brk h) \<mapsto> False),
              brk := Suc (Suc (brk h))\<rparr>))" (is "_ = Inr ?h'")
      using write_shared_exec [where copy = copy and call = call, OF wf sh c False copy fr] by simp
    moreover have "rc_wf ?h'" using write_shared_wf [OF h(3), of p sh a c] sh c False by simp
    moreover have "dtr_of h p = Some (m_dtr sh)" using sh by (simp add: dtr_of_def)
    ultimately show ?thesis using alone_iff [OF wf p c] False
      by (auto simp: h fun_upd_idem)
  qed
qed

section \<open>The model with a log of releases\<close>

text \<open>
  The callback made concrete: it appends its own name to a log. The interface above is
  discharged for it, and the number of live counts plus the length of the log is the number
  of calls of \<open>create()\<close>.
\<close>

record 'd rc_log = "'d rc_heap" +
  released :: "'d list"

definition log_release :: "'d \<Rightarrow> ('d, 'm) rc_log_scheme \<Rightarrow> fault + ('d, 'm) rc_log_scheme" where
  "log_release d h = Inr (h\<lparr>released := released h @ [d]\<rparr>)"

definition no_copy :: "('d, 'm) rc_heap_scheme \<Rightarrow> fault + ('d, 'm) rc_heap_scheme" where
  "no_copy h = Inr h"

definition empty_log :: "'d rc_log" where
  "empty_log = \<lparr>cnts = Map.empty, cows = Map.empty, handles = Map.empty, brk = 0, released = []\<rparr>"

interpretation logged: total_release log_release no_copy
  by unfold_locales (auto simp: log_release_def no_copy_def rc_frame_def)

lemma empty_log_wf: "rc_wf empty_log"
  by (simp add: rc_wf_def empty_log_def)

fun creates :: "'d rc_op \<Rightarrow> ('d, 'm) rc_heap_scheme \<Rightarrow> nat" where
  "creates (Construct p d) h = 1"
| "creates (Write p) h =
     (if shared_last p h = Inr False then 1 else 0)"
| "creates _ h = 0"

fun creations :: "'d rc_op list \<Rightarrow> 'd rc_log \<Rightarrow> nat" where
  "creations [] h = 0"
| "creations (x # xs) h = creates x h +
     (case exec_op log_release no_copy x h of Inl _ \<Rightarrow> 0 | Inr h' \<Rightarrow> creations xs h')"

definition account :: "('d, 'm) rc_log_scheme \<Rightarrow> nat \<Rightarrow> bool" where
  "account h n \<longleftrightarrow> finite (dom (cnts h)) \<and> length (released h) + card (dom (cnts h)) = n"

lemma account_simps [simp]:
  "account (h\<lparr>handles := x\<rparr>) n \<longleftrightarrow> account h n" "account (h\<lparr>cows := ws\<rparr>) n \<longleftrightarrow> account h n"
  "account (put_handle p sh h) n \<longleftrightarrow> account h n"
  by (simp_all add: account_def put_handle_def)

lemma account_set [simp]:
  "cnts h a = Some c \<Longrightarrow> account (h\<lparr>cnts := (cnts h)(a \<mapsto> c')\<rparr>) n \<longleftrightarrow> account h n"
  by (simp add: account_def insert_absorb domI)

lemma account_ref:
  assumes "shared_ref p h = Inr h'" "account h n"
  shows "account h' n"
proof -
  from assms(1) obtain sh where "handles h p = Some sh"
    by (auto simp: shared_ref_def bind_res_Inr_iff get_handle_iff)
  with assms show ?thesis
    by (cases "m_cnt sh") (auto simp: shared_ref_def split: option.splits)
qed

lemma account_unref:
  assumes "shared_unref log_release p h = Inr h'" "account h n"
  shows "account h' n"
proof -
  from assms(1) obtain l sh where l: "shared_last p h = Inr l" and sh: "handles h p = Some sh"
    by (auto simp: shared_unref_def bind_res_Inr_iff get_handle_iff)
  show ?thesis
  proof (cases l)
    case True
    with l sh obtain a where a: "m_cnt sh = Some a" "a \<in> dom (cnts h)"
      by (auto simp: shared_last_def get_handle_def split: option.splits)
    then have "card (dom (cnts h)) = Suc (card (dom (cnts h) - {a}))"
      using assms(2) by (intro card.remove) (simp_all add: account_def)
    moreover obtain ws where "h' = (put_handle p (sh\<lparr>m_cnt := None, m_cow := None\<rparr>)
        (h\<lparr>cnts := (cnts h)(a := None), cows := ws\<rparr>))\<lparr>released := released h @ [m_dtr sh]\<rparr>"
      using assms(1) l True sh a(1)
      by (auto simp: shared_unref_def bind_res_Inr_iff get_handle_def log_release_def
          put_handle_def split: if_splits)
    ultimately show ?thesis using assms(2) by (auto simp: account_def put_handle_def)
  next
    case False
    then show ?thesis
      using assms l sh
      by (auto simp: shared_unref_def bind_res_Inr_iff get_handle_def split: if_splits option.splits)
  qed
qed

lemma account_create:
  assumes wf: "rc_wf (forget p h)" and n: "account h n" and h': "shared_create p h = Inr h'"
  shows "account h' (Suc n)"
proof -
  have "brk h \<notin> dom (cnts h)" using rc_wf_below [OF wf, of "brk h"] by auto
  then have "card (insert (brk h) (dom (cnts h))) = Suc (card (dom (cnts h)))"
    using n by (intro card_insert_disjoint) (simp_all add: account_def)
  with n h' show ?thesis
    by (auto simp: shared_create_def bind_res_Inr_iff Let_def account_def put_handle_def)
qed

lemma account_assign:
  "shared_copy_assign log_release p q h = Inr h' \<Longrightarrow> account h n \<Longrightarrow> account h' n"
  "shared_move_assign log_release p q h = Inr h' \<Longrightarrow> account h n \<Longrightarrow> account h' n"
  by (auto simp: shared_copy_assign_def shared_move_assign_def bind_res_Inr_iff Let_def
      dest!: account_unref account_ref)

lemma account_write:
  assumes wf: "rc_wf h" and g: "group_of h p = Some a" and n: "account h n"
    and h': "shared_write log_release no_copy p h = Inr h'"
  shows "account h' (n + creates (Write p) h)"
proof -
  from g obtain sh where sh: "handles h p = Some sh" "m_cnt sh = Some a" by (rule group_SomeE)
  obtain c where c: "cnts h a = Some c" using rc_wf_live [OF wf sh] .
  have p0: "p \<noteq> 0" using rc_wf_null [OF wf] sh by auto
  have fr: "rc_frame h0 h0" for h0 :: "('a, 'b) rc_log_scheme" by (simp add: rc_frame_def)
  show ?thesis
  proof (cases "c = 1")
    case True
    then show ?thesis
      using write_alone_exec [where copy = no_copy and call = log_release, OF wf sh] c n h' sh
      by (simp add: no_copy_def fr last_exec [OF wf sh(1)])
  next
    case False
    have "account (h\<lparr>cnts := (cnts h)(a \<mapsto> c - 1)\<rparr>) n" using n c by simp
    from account_create [OF forget_shared_wf [OF wf sh c False] this]
    have "account h' (Suc n)"
      using write_shared_exec [where copy = no_copy and call = log_release, OF wf sh c False _ fr] h' sh
      by (simp add: no_copy_def create_exec)
    then show ?thesis using False c sh by (simp add: last_exec [OF wf sh(1)])
  qed
qed

lemma account_exec:
  assumes wf: "rc_wf h" and l: "legal x h" and n: "account h n"
    and h': "exec_op log_release no_copy x h = Inr h'"
  shows "account h' (n + creates x h)"
proof (cases x)
  case (Construct p d)
  with l wf have "rc_wf (forget p (put_handle p \<lparr>m_dtr = d, m_cnt = None, m_cow = None\<rparr> h))"
    by (simp add: forget_fresh)
  from account_create [OF this] show ?thesis
    using Construct n h' by (simp add: shared_construct_def)
next
  case (Write p)
  with l obtain a where "group_of h p = Some a" by auto
  from account_write [OF wf this n] Write h' show ?thesis by simp
qed (use n h' in \<open>auto simp: shared_copy_construct_def shared_move_construct_def shared_destroy_def
    bind_res_Inr_iff dest!: account_assign account_unref\<close>)

lemma account_run:
  "rc_wf h \<Longrightarrow> legal_ops log_release no_copy xs h \<Longrightarrow> account h n \<Longrightarrow>
   exec_ops log_release no_copy xs h = Inr h' \<Longrightarrow> account h' (n + creations xs h)"
proof (induction xs arbitrary: h n)
  case Nil
  then show ?case by simp
next
  case (Cons x xs)
  from logged.legal_exec [OF Cons.prems(1), of x] Cons.prems(2)
  obtain h1 where h1: "exec_op log_release no_copy x h = Inr h1" "rc_wf h1" by auto
  have "account h1 (n + creates x h)"
    using account_exec [OF Cons.prems(1) _ Cons.prems(3) h1(1)] Cons.prems(2) by simp
  from Cons.IH [OF h1(2) _ this] Cons.prems h1 show ?case by (simp add: add.assoc)
qed

text \<open>A heap with two handles of one resource, for the witnesses.\<close>

definition pair_heap :: "unit rc_log" where
  "pair_heap = \<lparr>cnts = [0 \<mapsto> 2], cows = [1 \<mapsto> True],
     handles = [1 \<mapsto> \<lparr>m_dtr = (), m_cnt = Some 0, m_cow = Some 1\<rparr>,
                2 \<mapsto> \<lparr>m_dtr = (), m_cnt = Some 0, m_cow = Some 1\<rparr>],
     brk = 2, released = []\<rparr>"

lemma pair_heap_wf: "rc_wf pair_heap"
proof -
  have "exec_ops log_release no_copy [Construct 1 (), Copy_Construct 2 1] empty_log = Inr pair_heap"
    by (auto simp: shared_construct_def shared_create_def shared_copy_construct_def
        shared_copy_assign_def shared_unref_def shared_last_def shared_ref_def
        empty_log_def get_handle_def put_handle_def pair_heap_def fun_eq_iff numeral_2_eq_2)
  moreover have "legal_ops log_release no_copy [Construct 1 (), Copy_Construct 2 1] empty_log"
    by code_simp
  ultimately show ?thesis using logged.legal_run [OF empty_log_wf] by fastforce
qed

lemma self_copy_assign_cases:
  assumes wf: "rc_wf h" and p: "group_of h p = Some a"
  shows "shared_copy_assign log_release p p h =
    (if \<exists>q. q \<noteq> p \<and> group_of h q = Some a then Inr h else Inl Null_Deref)"
proof -
  from p obtain sh where sh: "handles h p = Some sh" "m_cnt sh = Some a" by (rule group_SomeE)
  obtain c where c: "cnts h a = Some c" using rc_wf_live [OF wf sh] .
  have cow: "m_cow sh = Some (Suc a)" using rc_wf_handle [OF wf sh(1)] sh(2) by simp
  show ?thesis
  proof (cases "c = 1")
    case True
    then show ?thesis
      using alone_iff [OF wf p c] unref_last [OF wf sh, of log_release] c
      by (simp add: shared_copy_assign_def get_handle_def log_release_def shared_ref_def put_handle_def)
  next
    case False
    have f: "cows h (Suc a) = Some True" using rc_wf_flag [OF wf c] False by auto
    have "\<lparr>m_dtr = m_dtr sh, m_cnt = Some a, m_cow = Some (Suc a)\<rparr> = sh"
      using sh(2) cow by (cases sh) simp
    then have "put_handle p \<lparr>m_dtr = m_dtr sh, m_cnt = Some a, m_cow = Some (Suc a)\<rparr> h = h"
      using sh(1) by (simp add: put_handle_def fun_upd_idem)
    moreover have "(cnts h)(a \<mapsto> c - 1, a \<mapsto> c - 1 + 1) = cnts h" using c by (auto simp: fun_eq_iff)
    ultimately show ?thesis
      using alone_iff [OF wf p c] unref_shared [OF wf sh c False, of log_release] False c f sh cow
      by (simp add: shared_copy_assign_def get_handle_def shared_ref_def fun_upd_idem
          flip: put_handle_commute)
  qed
qed

section \<open>Properties\<close>

text \<open>
  C1: from the empty heap, a run that respects the contract of the class never dereferences a null
  or a freed pointer, never frees twice and never trips the assertion of \<open>last()\<close>; afterwards each
  reference count is exactly the number of live handles of its group, and the copy-on-write flag of
  every group of more than one handle is set.
\<close>

theorem shared_runs_safe:
  assumes "legal_ops log_release no_copy xs (empty_log :: 'd rc_log)"
  shows "\<exists>h. exec_ops log_release no_copy xs empty_log = Inr h \<and>
    (\<forall>p a. group_of h p = Some a \<longrightarrow> (\<exists>c. cnts h a = Some c \<and>
       unat c = card {q. group_of h q = Some a} \<and>
       (1 < card {q. group_of h q = Some a} \<longrightarrow> cows h (Suc a) = Some True)))"
proof -
  from logged.legal_run [OF empty_log_wf assms] obtain h
    where h: "exec_ops log_release no_copy xs empty_log = Inr h" and wf: "rc_wf h" by blast
  have "\<exists>c. cnts h a = Some c \<and> unat c = card (users h a) \<and>
      (1 < card (users h a) \<longrightarrow> cows h (Suc a) = Some True)" if "group_of h p = Some a" for p a
  proof -
    from that obtain sh where "handles h p = Some sh" "m_cnt sh = Some a" by (rule group_SomeE)
    from rc_wf_liveD [OF wf this] obtain c where "cnts h a = Some c" by blast
    with rc_wf_count [OF wf this] show ?thesis by (auto simp: count_ok_def)
  qed
  with h show ?thesis by (auto simp: users_group)
qed

theorem shared_runs_safe_witness:
  "\<exists>h. exec_ops log_release no_copy
      [Construct 1 (), Copy_Construct 2 1, Write 2, Move_Construct 3 1, Destroy 1, Destroy 3, Destroy 2]
      empty_log = Inr h"
proof -
  have "legal_ops log_release no_copy
      [Construct 1 (), Copy_Construct 2 1, Write 2, Move_Construct 3 1, Destroy 1, Destroy 3, Destroy 2]
      empty_log"
    by code_simp
  from shared_runs_safe [OF this] show ?thesis by blast
qed

text \<open>
  The resource of a group is released exactly once. When a legal run has ended every handle,
  there are as many releases as groups were created, and no reference count and no flag is left
  allocated.
\<close>

theorem shared_released_once:
  assumes "legal_ops log_release no_copy xs (empty_log :: 'd rc_log)"
    and "exec_ops log_release no_copy xs empty_log = Inr h"
    and "\<And>p. handles h p = None"
  shows "length (released h) = creations xs empty_log \<and> cnts h = Map.empty \<and> cows h = Map.empty"
proof -
  have wf: "rc_wf h" using logged.legal_run [OF empty_log_wf assms(1)] assms(2) by auto
  have "account (empty_log :: 'd rc_log) 0" by (simp add: account_def empty_log_def)
  from account_run [OF empty_log_wf assms(1) this assms(2)]
  have acc: "length (released h) + card (dom (cnts h)) = creations xs empty_log"
    by (simp add: account_def)
  have "users h a = {}" for a using assms(3) by (simp add: users_def)
  then have none: "cnts h a = None" for a
    using rc_wf_count [OF wf, of a] by (cases "cnts h a") (auto simp: count_ok_def)
  then have "cows h b = None" for b
    using rc_wf_flag_owner [OF wf, of b] by (cases "cows h b") auto
  with none acc show ?thesis by (simp add: fun_eq_iff dom_def)
qed

theorem shared_released_once_witness:
  "\<exists>h. exec_ops log_release no_copy [Construct 1 CHR ''x'', Copy_Construct 2 1, Write 2, Destroy 1, Destroy 2]
      empty_log = Inr h \<and> length (released h) = 2 \<and> cnts h = Map.empty"
proof -
  let ?xs = "[Construct 1 CHR ''x'', Copy_Construct 2 1, Write 2, Destroy 1, Destroy 2]"
  have l: "legal_ops log_release no_copy ?xs empty_log" by code_simp
  obtain h where h: "exec_ops log_release no_copy ?xs empty_log = Inr h"
    and g: "released h = ''xx''" and d: "\<And>p. handles h p = None"
    using logged.legal_run [OF empty_log_wf l]
    by (auto simp: shared_construct_def shared_create_def shared_copy_construct_def
        shared_copy_assign_def shared_unref_def shared_last_def shared_ref_def shared_write_def
        shared_destroy_def log_release_def no_copy_def empty_log_def get_handle_def put_handle_def
        Let_def)
  from shared_released_once [OF l h d] h g show ?thesis by auto
qed

text \<open>
  C2: each operation does to the handles what its abstract counterpart says: copies join the group
  of the source, moves take its place in it and leave the source empty, a write through a shared
  handle moves it to a new group of its own, a destroyed handle leaves its group. The group that
  \<open>create()\<close> makes is new.
\<close>

theorem shared_refines_groups:
  assumes "rc_wf (h :: ('d, 'm) rc_log_scheme)" and "legal x h"
  shows "\<exists>h'. exec_op log_release no_copy x h = Inr h' \<and>
    group_of h' = abs_op (brk h) x (group_of h) \<and> brk h \<notin> ran (group_of h)"
proof -
  have "users h (brk h) = {}" by (rule fresh_users [OF assms(1)])
  then have "brk h \<notin> ran (group_of h)" by (auto simp: users_group ran_def)
  with logged.legal_exec [OF assms] show ?thesis by blast
qed

theorem shared_refines_groups_witness:
  "\<exists>h'. exec_op log_release no_copy (Write 2) pair_heap = Inr h' \<and>
    group_of h' = [1 \<mapsto> 0, 2 \<mapsto> 2]"
proof -
  have g: "group_of pair_heap = [1 \<mapsto> 0, 2 \<mapsto> 0]"
    by (auto simp: group_of_def pair_heap_def fun_eq_iff)
  then have "legal (Write 2) pair_heap" by simp
  from shared_refines_groups [OF pair_heap_wf this]
  obtain h' where e: "exec_op log_release no_copy (Write 2) pair_heap = Inr h'"
    and h': "group_of h' = abs_op (brk pair_heap) (Write 2 :: unit rc_op) (group_of pair_heap)"
    by blast
  have shared: "\<exists>q. q \<noteq> 2 \<and> group_of pair_heap q = group_of pair_heap 2"
    by (rule exI [of _ 1]) (simp add: g)
  have "group_of h' = (group_of pair_heap)(2 \<mapsto> brk pair_heap)"
    by (simp only: h' abs_op.simps shared if_True)
  moreover have "brk pair_heap = 2" by (simp add: pair_heap_def)
  ultimately have "group_of h' = [1 \<mapsto> 0, 2 \<mapsto> 2]" by (simp add: g)
  with e show ?thesis by blast
qed

text \<open>
  \<open>write()\<close> makes the handle the only member of its group, leaves every other handle in the
  group it was in, and releases nothing.
\<close>

theorem shared_write_isolates:
  assumes "rc_wf h" and "group_of h p = Some a"
    and "shared_write log_release no_copy p h = Inr h'"
  shows "(\<exists>b. group_of h' p = Some b \<and>
      (\<forall>q. q \<noteq> p \<longrightarrow> group_of h' q = group_of h q \<and> group_of h' q \<noteq> Some b)) \<and>
    released h' = released h"
proof -
  from assms(2) obtain sh where sh: "handles h p = Some sh" "m_cnt sh = Some a" by (rule group_SomeE)
  obtain c where c: "cnts h a = Some c" using rc_wf_live [OF assms(1) sh] .
  note alone = alone_iff [OF assms(1,2) c]
  have fr: "rc_frame h0 h0" for h0 :: "('a, 'b) rc_log_scheme" by (simp add: rc_frame_def)
  show ?thesis
  proof (cases "c = 1")
    case True
    with write_alone_exec [where copy = no_copy and call = log_release, OF assms(1) sh] c assms(3)
    have "h' = h\<lparr>cows := (cows h)(Suc a \<mapsto> False)\<rparr>" by (simp add: no_copy_def fr)
    then show ?thesis using alone True assms(2) by auto
  next
    case False
    with write_shared_exec [where copy = no_copy and call = log_release, OF assms(1) sh c _ _ fr] assms(3)
    have "group_of h' = (group_of h)(p \<mapsto> brk h)" "released h' = released h"
      by (auto simp: no_copy_def put_handle_def group_of_def fun_eq_iff)
    moreover have "group_of h q \<noteq> Some (brk h)" for q
      using fresh_users [OF assms(1)] by (auto simp: users_group)
    ultimately show ?thesis by auto
  qed
qed

theorem shared_write_isolates_witness:
  "\<exists>h'. shared_write log_release no_copy 2 pair_heap = Inr h' \<and> group_of h' 1 \<noteq> group_of h' 2"
proof -
  have g: "group_of pair_heap 2 = Some 0" by (simp add: group_of_def pair_heap_def)
  then obtain h' where h': "shared_write log_release no_copy 2 pair_heap = Inr h'"
    using logged.legal_exec [OF pair_heap_wf, of "Write 2"] by auto
  have "(1 :: oid) \<noteq> 2" by simp
  with shared_write_isolates [OF pair_heap_wf g h'] have "group_of h' 1 \<noteq> group_of h' 2" by metis
  with h' show ?thesis by blast
qed

text \<open>
  assigning a handle to itself has no effect while another handle shares the resource; on
  the only handle it releases the resource and then dereferences the null count pointer.
\<close>

theorem shared_self_assign:
  assumes "rc_wf h" and "group_of h p = Some a"
  shows "shared_copy_assign log_release p p h =
    (if \<exists>q. q \<noteq> p \<and> group_of h q = Some a then Inr h else Inl Null_Deref)"
  by (rule self_copy_assign_cases [OF assms])

theorem shared_self_assign_witness:
  "shared_copy_assign log_release 2 2 pair_heap = Inr pair_heap"
proof -
  have g: "group_of pair_heap 2 = Some 0" "group_of pair_heap 1 = Some 0"
    by (simp_all add: group_of_def pair_heap_def)
  have "\<exists>q. q \<noteq> 2 \<and> group_of pair_heap q = Some 0" by (rule exI [of _ 1]) (simp add: g)
  with shared_self_assign [OF pair_heap_wf g(1)] show ?thesis by simp
qed

end
