(* ===== verification/Array_Cow.thy ===== *)
theory Array_Cow
  imports Shared_Ref
begin

text \<open>
  The copy-on-write array of \<^verbatim>\<open>src/Array.h\<close>: \<^verbatim>\<open>Static<Array<T>>\<close>, a view of memory
  (\<open>m_ptr\<close>, \<open>m_len\<close>), and \<^verbatim>\<open>Array<T>\<close>, which derives from \<^verbatim>\<open>Shared\<close> and from the view and
  copies its buffer on \<open>operator+=\<close>.

  The heap of \<open>Shared_Ref\<close> is extended with the views of the live objects and the element
  blocks. An element has the type \<open>'v\<close> and copying one copies its value; \<open>sz\<close> is
  \<^verbatim>\<open>sizeof(T)\<close>. A block knows its size in bytes (\<^verbatim>\<open>sizeof(T) * len\<close>, computed on \<open>size_t\<close>) and
  the elements constructed in it. The callback that an \<^verbatim>\<open>Array\<close> gives to \<^verbatim>\<open>Shared\<close> is the lambda
  \<^verbatim>\<open>[this]{ if (this->m_ptr) delete this->m_ptr; }\<close>: the value \<open>Array_Dtr o\<close> is that lambda
  with \<open>this = o\<close> captured. Copies and moves of an array copy the lambda, and so the captured
  address.

  The members and the bases of an array are destroyed in the reverse order of their construction: \<open>m_capacity\<close>,
  the view, and last \<^verbatim>\<open>Shared\<close>, whose destructor may call the lambda. Reading \<open>m_ptr\<close> of a view whose
  destructor has finished is undefined, and so is the deletion of the buffer: it comes from
  \<^verbatim>\<open>new uint8_t[...]\<close> and the lambda deletes it as one object of type \<open>T\<close>. Both are faults here, so that the
  callback can return only when \<open>m_ptr\<close> is null.
\<close>

section \<open>State\<close>

record view =
  m_ptr :: "addr option"
  m_len :: size_t

record 'v block =
  block_bytes :: size_t
  elems :: "nat \<rightharpoonup> 'v"

datatype array_dtr = Array_Dtr oid

record 'v arr_heap = "array_dtr rc_heap" +
  views :: "oid \<rightharpoonup> view"
  m_capacity :: "oid \<rightharpoonup> size_t"
  blocks :: "addr \<rightharpoonup> 'v block"
  blk_brk :: addr
  loc_ptr :: "addr option"   \<comment> \<open>the local \<open>ptr\<close> of \<open>operator+=\<close>, which its lambda captures by reference\<close>

definition get_view :: "oid \<Rightarrow> ('v, 'm) arr_heap_scheme \<Rightarrow> fault + view" where
  "get_view p h = (case views h p of None \<Rightarrow> Inl Use_After_Free | Some v \<Rightarrow> Inr v)"

section \<open>Element accesses\<close>

definition get_block :: "addr option \<Rightarrow> ('v, 'm) arr_heap_scheme \<Rightarrow> fault + 'v block" where
  "get_block ptr h = deref (blocks h) ptr"

definition elem_read :: "size_t \<Rightarrow> addr option \<Rightarrow> size_t \<Rightarrow> ('v, 'm) arr_heap_scheme \<Rightarrow> fault + 'v" where
  "elem_read sz ptr i h = bind_res (get_block ptr h) (\<lambda>b.
     if (unat i + 1) * unat sz \<le> unat (block_bytes b)
     then (case elems b (unat i) of None \<Rightarrow> Inl Uninit_Read | Some v \<Rightarrow> Inr v)
     else Inl Out_Of_Bounds)"

text \<open>Placement new of a copy of \<open>v\<close> at \<open>&ptr[i]\<close>.\<close>

definition elem_new ::
  "size_t \<Rightarrow> addr option \<Rightarrow> size_t \<Rightarrow> 'v \<Rightarrow> ('v, 'm) arr_heap_scheme \<Rightarrow> fault + ('v, 'm) arr_heap_scheme" where
  "elem_new sz ptr i v h = bind_res (get_block ptr h) (\<lambda>b.
     if (unat i + 1) * unat sz \<le> unat (block_bytes b)
     then Inr (h\<lparr>blocks := (blocks h)(the ptr \<mapsto> b\<lparr>elems := (elems b)(unat i \<mapsto> v)\<rparr>)\<rparr>)
     else Inl Out_Of_Bounds)"

text \<open>
  The loop \<^verbatim>\<open>for (i = 0; i < n; ++i) new (&dst[off + i]) T(src[i])\<close>; the first \<open>n\<close> rounds.
\<close>

primrec copy_elems ::
  "size_t \<Rightarrow> addr option \<Rightarrow> addr option \<Rightarrow> size_t \<Rightarrow> nat \<Rightarrow>
   ('v, 'm) arr_heap_scheme \<Rightarrow> fault + ('v, 'm) arr_heap_scheme" where
  "copy_elems sz src dst off 0 h = Inr h"
| "copy_elems sz src dst off (Suc n) h =
     bind_res (copy_elems sz src dst off n h) (\<lambda>h.
     bind_res (elem_read sz src (of_nat n) h) (\<lambda>v.
     elem_new sz dst (off + of_nat n) v h))"

section \<open>Static\<close>

definition static_construct ::
  "oid \<Rightarrow> addr \<Rightarrow> size_t \<Rightarrow> ('v, 'm) arr_heap_scheme \<Rightarrow> fault + ('v, 'm) arr_heap_scheme" where
  "static_construct p ary n h = Inr (h\<lparr>views := (views h)(p \<mapsto> \<lparr>m_ptr = Some ary, m_len = n\<rparr>)\<rparr>)"

definition static_index :: "size_t \<Rightarrow> oid \<Rightarrow> size_t \<Rightarrow> ('v, 'm) arr_heap_scheme \<Rightarrow> fault + 'v" where
  "static_index sz p n h = bind_res (get_view p h) (\<lambda>v. elem_read sz (m_ptr v) n h)"

definition static_length :: "oid \<Rightarrow> ('v, 'm) arr_heap_scheme \<Rightarrow> fault + size_t" where
  "static_length p h = bind_res (get_view p h) (\<lambda>v. Inr (m_len v))"

section \<open>Array\<close>

text \<open>The callback: \<open>if (this->m_ptr) delete this->m_ptr\<close>, with the captured \<open>this\<close>.\<close>

fun array_release :: "array_dtr \<Rightarrow> ('v, 'm) arr_heap_scheme \<Rightarrow> fault + ('v, 'm) arr_heap_scheme" where
  "array_release (Array_Dtr this) h = bind_res (get_view this h) (\<lambda>v.
     case m_ptr v of None \<Rightarrow> Inr h
     | Some a \<Rightarrow> Inl (if blocks h a = None then Double_Free else Bad_Delete))"

text \<open>\<open>T* copy(size_t len)\<close>: a new block with room for \<open>len\<close> elements and the old \<open>m_len\<close> elements in it.\<close>

definition array_copy ::
  "size_t \<Rightarrow> oid \<Rightarrow> size_t \<Rightarrow> ('v, 'm) arr_heap_scheme \<Rightarrow> fault + (addr \<times> ('v, 'm) arr_heap_scheme)" where
  "array_copy sz p len h = bind_res (get_view p h) (\<lambda>v.
     let a = blk_brk h;
         h = h\<lparr>blocks := (blocks h)(a \<mapsto> \<lparr>block_bytes = sz * len, elems = Map.empty\<rparr>), blk_brk := Suc a\<rparr>
     in bind_res (copy_elems sz (m_ptr v) (Some a) 0 (unat (m_len v)) h) (\<lambda>h. Inr (a, h)))"

definition set_view :: "oid \<Rightarrow> view \<Rightarrow> ('v, 'm) arr_heap_scheme \<Rightarrow> ('v, 'm) arr_heap_scheme" where
  "set_view p v h = h\<lparr>views := (views h)(p \<mapsto> v)\<rparr>"

definition set_capacity :: "oid \<Rightarrow> size_t \<Rightarrow> ('v, 'm) arr_heap_scheme \<Rightarrow> ('v, 'm) arr_heap_scheme" where
  "set_capacity p n h = h\<lparr>m_capacity := (m_capacity h)(p \<mapsto> n)\<rparr>"

text \<open>
  The constructors from a view, from an array and from a temporary. \<^verbatim>\<open>Shared\<close> is the first base
  and is initialised first.
\<close>

definition array_from_static ::
  "size_t \<Rightarrow> oid \<Rightarrow> oid \<Rightarrow> ('v, 'm) arr_heap_scheme \<Rightarrow> fault + ('v, 'm) arr_heap_scheme" where
  "array_from_static sz p q h =
     bind_res (shared_construct p (Array_Dtr p) h) (\<lambda>h.
     bind_res (get_view q h) (\<lambda>other.
     let h = set_capacity p (m_len other) (set_view p \<lparr>m_ptr = m_ptr other, m_len = m_len other\<rparr> h)
     in bind_res (get_view p h) (\<lambda>v.
        bind_res (array_copy sz p (m_len v) h) (\<lambda>(ptr, h).
        Inr (set_view p (v\<lparr>m_ptr := Some ptr\<rparr>) h)))))"

definition array_copy_construct ::
  "oid \<Rightarrow> oid \<Rightarrow> ('v, 'm) arr_heap_scheme \<Rightarrow> fault + ('v, 'm) arr_heap_scheme" where
  "array_copy_construct p q h =
     bind_res (shared_copy_construct array_release p q h) (\<lambda>h.
     bind_res (get_view q h) (\<lambda>other.
     Inr (set_capacity p (m_len other) (set_view p \<lparr>m_ptr = m_ptr other, m_len = m_len other\<rparr> h))))"

definition array_move_construct ::
  "oid \<Rightarrow> oid \<Rightarrow> ('v, 'm) arr_heap_scheme \<Rightarrow> fault + ('v, 'm) arr_heap_scheme" where
  "array_move_construct p q h =
     bind_res (shared_move_construct array_release p q h) (\<lambda>h.
     bind_res (get_view q h) (\<lambda>other.
     Inr (set_capacity p (m_len other) (set_view p \<lparr>m_ptr = m_ptr other, m_len = m_len other\<rparr> h))))"

text \<open>
  \<open>operator+=(const Static<Array<T>>&)\<close>. The lambda given to \<open>write()\<close> stores the new block in
  the local \<open>ptr\<close>; \<open>other\<close> may be \<open>*this\<close>, and is read through its own fields each time.
\<close>

definition append_copy ::
  "size_t \<Rightarrow> oid \<Rightarrow> oid \<Rightarrow> ('v, 'm) arr_heap_scheme \<Rightarrow> fault + ('v, 'm) arr_heap_scheme" where
  "append_copy sz p q h = bind_res (get_view p h) (\<lambda>this. bind_res (get_view q h) (\<lambda>other.
     bind_res (array_copy sz p (m_len this + m_len other) h) (\<lambda>(ptr, h).
     Inr (h\<lparr>loc_ptr := Some ptr\<rparr>))))"

definition array_append ::
  "size_t \<Rightarrow> oid \<Rightarrow> oid \<Rightarrow> ('v, 'm) arr_heap_scheme \<Rightarrow> fault + ('v, 'm) arr_heap_scheme" where
  "array_append sz p q h =
     bind_res (shared_write array_release (append_copy sz p q) p (h\<lparr>loc_ptr := None\<rparr>)) (\<lambda>h.
     bind_res (get_view p h) (\<lambda>this.
     bind_res (get_view q h) (\<lambda>other.
     bind_res (copy_elems sz (m_ptr other) (loc_ptr h) (m_len this) (unat (m_len other)) h) (\<lambda>h.
     let h = set_view p (this\<lparr>m_ptr := loc_ptr h\<rparr>) h
     in bind_res (get_view p h) (\<lambda>this.
        bind_res (get_view q h) (\<lambda>other.
        Inr (set_view p (this\<lparr>m_len := m_len this + m_len other\<rparr>) h)))))))"

text \<open>
  \<open>operator+\<close> of an array, and the free \<open>operator+\<close> of two views: the local \<open>copy\<close>, \<open>array\<close> is
  constructed directly as the returned object \<open>r\<close>.
\<close>

definition array_plus ::
  "size_t \<Rightarrow> oid \<Rightarrow> oid \<Rightarrow> oid \<Rightarrow> ('v, 'm) arr_heap_scheme \<Rightarrow> fault + ('v, 'm) arr_heap_scheme" where
  "array_plus sz r p q h = bind_res (array_copy_construct r p h) (array_append sz r q)"

definition static_plus ::
  "size_t \<Rightarrow> oid \<Rightarrow> oid \<Rightarrow> oid \<Rightarrow> ('v, 'm) arr_heap_scheme \<Rightarrow> fault + ('v, 'm) arr_heap_scheme" where
  "static_plus sz r p q h = bind_res (array_from_static sz r p h) (array_append sz r q)"

text \<open>\<open>~Array\<close>: its member, then its bases, the view before \<^verbatim>\<open>Shared\<close>.\<close>

definition static_destroy :: "oid \<Rightarrow> ('v, 'm) arr_heap_scheme \<Rightarrow> ('v, 'm) arr_heap_scheme" where
  "static_destroy p h = h\<lparr>views := (views h)(p := None)\<rparr>"

definition array_destroy :: "oid \<Rightarrow> ('v, 'm) arr_heap_scheme \<Rightarrow> fault + ('v, 'm) arr_heap_scheme" where
  "array_destroy p h = (let h = h\<lparr>m_capacity := (m_capacity h)(p := None)\<rparr>; h = static_destroy p h
     in shared_destroy array_release p h)"

text \<open>The callback respects the contract of the reference count.\<close>

lemma array_release_frame: "array_release d h = Inr h' \<Longrightarrow> rc_frame h h'"
  by (cases d) (auto simp: rc_frame_def bind_res_Inr_iff split: option.splits)

interpretation arrays: release_callback array_release
  by unfold_locales (rule array_release_frame)

section \<open>Contents\<close>

text \<open>
  \<open>holds sz h p xs\<close>: the object \<open>p\<close> (a view or an array) holds the list \<open>xs\<close>: its length is that
  of the list, its block is allocated and large enough, and each element is constructed.
\<close>

definition block_holds :: "size_t \<Rightarrow> 'v block \<Rightarrow> 'v list \<Rightarrow> bool" where
  "block_holds sz b xs \<longleftrightarrow> length xs * unat sz \<le> unat (block_bytes b) \<and>
     (\<forall>k < length xs. elems b k = Some (xs ! k))"

definition holds :: "size_t \<Rightarrow> ('v, 'm) arr_heap_scheme \<Rightarrow> oid \<Rightarrow> 'v list \<Rightarrow> bool" where
  "holds sz h p xs \<longleftrightarrow> (\<exists>v a b. views h p = Some v \<and> m_ptr v = Some a \<and>
     unat (m_len v) = length xs \<and> blocks h a = Some b \<and> block_holds sz b xs)"

definition arr_wf :: "('v, 'm) arr_heap_scheme \<Rightarrow> bool" where
  "arr_wf h \<longleftrightarrow> rc_wf h \<and> (\<forall>a. blocks h a \<noteq> None \<longrightarrow> a < blk_brk h)"

lemma holdsE:
  assumes "holds sz h p xs"
  obtains v a b where "views h p = Some v" "m_ptr v = Some a" "unat (m_len v) = length xs"
    "blocks h a = Some b" "block_holds sz b xs"
  using assms by (auto simp: holds_def)

lemma holds_frame:
  assumes "holds sz h p xs" "views h' p = views h p" "\<And>a b. blocks h a = Some b \<Longrightarrow> blocks h' a = Some b"
  shows "holds sz h' p xs"
  using assms by (fastforce simp: holds_def)

lemma holds_unique: "holds sz h p xs \<Longrightarrow> holds sz h p ys \<Longrightarrow> xs = ys"
  by (auto simp: holds_def block_holds_def intro: nth_equalityI)

lemma holds_length: "holds sz h p xs \<Longrightarrow> length xs < 2 ^ 64"
  by (metis holdsE unat_less_2_64)

lemma more_eq_views:
  assumes "rc_heap.more h = rc_heap.more h'"
  shows "views h = views h'" "blocks h = blocks h'" "blk_brk h = blk_brk h'" "loc_ptr h = loc_ptr h'"
    "m_capacity h = m_capacity h'"
  using assms by (cases h; cases h'; simp)+

text \<open>What the loop of element copies does, when the source is constructed and the target is big enough.\<close>

lemma copy_elems_exec:
  assumes src: "blocks h a = Some b" "block_holds sz b xs" "a \<noteq> d"
    and dst: "blocks h d = Some c" "(unat off + n) * unat sz \<le> unat (block_bytes c)"
    and n: "n \<le> length xs" "unat off + n < 2 ^ 64"
  shows "copy_elems sz (Some a) (Some d) off n h = Inr (h\<lparr>blocks := (blocks h)(d \<mapsto> c\<lparr>elems :=
    (\<lambda>k. if unat off \<le> k \<and> k < unat off + n then Some (xs ! (k - unat off)) else elems c k)\<rparr>)\<rparr>)"
proof -
  define E where "E m = (\<lambda>k. if unat off \<le> k \<and> k < unat off + m then Some (xs ! (k - unat off))
    else elems c k)" for m
  have "copy_elems sz (Some a) (Some d) off n h = Inr (h\<lparr>blocks := (blocks h)(d \<mapsto> c\<lparr>elems := E n\<rparr>)\<rparr>)"
    using dst(2) n
  proof (induction n)
    case 0
    have "E 0 = elems c" by (auto simp: E_def fun_eq_iff)
    then show ?case using dst(1) by (simp add: fun_upd_idem)
  next
    case (Suc n)
    have n64: "unat (of_nat n :: size_t) = n"
      using Suc.prems by (simp add: unat_of_nat_64)
    have off: "unat (off + of_nat n) = unat off + n"
      using Suc.prems n64 by (simp add: unat_add_no_wrap)
    have "(n + 1) * unat sz \<le> length xs * unat sz"
      using Suc.prems(2) by (intro mult_le_mono1) simp
    then have bound: "(n + 1) * unat sz \<le> unat (block_bytes b)"
      using src(2) by (simp add: block_holds_def)
    have IH: "copy_elems sz (Some a) (Some d) off n h =
        Inr (h\<lparr>blocks := (blocks h)(d \<mapsto> c\<lparr>elems := E n\<rparr>)\<rparr>)"
      by (rule Suc.IH) (use Suc.prems in simp_all)
    have upd: "(E n)(unat off + n \<mapsto> xs ! n) = E (Suc n)"
      by (auto simp: E_def fun_eq_iff)
    show ?case
      using Suc.prems src bound upd
      by (simp add: IH elem_read_def elem_new_def get_block_def n64 off block_holds_def)
        (simp add: fun_upd_def)
  qed
  then show ?thesis by (simp add: E_def)
qed

definition full_elems :: "'v list \<Rightarrow> nat \<rightharpoonup> 'v" where
  "full_elems xs k = (if k < length xs then Some (xs ! k) else None)"

lemma full_elems_Nil [simp]: "full_elems [] = Map.empty"
  by (simp add: full_elems_def fun_eq_iff)

lemma full_block_holds:
  "length xs * unat sz \<le> unat n \<Longrightarrow> block_holds sz \<lparr>block_bytes = n, elems = full_elems xs\<rparr> xs"
  by (simp add: block_holds_def full_elems_def)

lemma copy_into_full:
  assumes src: "blocks h a = Some b" "block_holds sz b ys" "a \<noteq> d"
    and dst: "blocks h d = Some \<lparr>block_bytes = n, elems = full_elems xs\<rparr>"
      "(length xs + length ys) * unat sz \<le> unat n"
    and off: "unat off = length xs" "length xs + length ys < 2 ^ 64"
  shows "copy_elems sz (Some a) (Some d) off (length ys) h = Inr (h\<lparr>blocks := (blocks h)(d \<mapsto>
    \<lparr>block_bytes = n, elems = full_elems (xs @ ys)\<rparr>)\<rparr>)"
proof -
  have eq: "(\<lambda>k. if unat off \<le> k \<and> k < unat off + length ys then Some (ys ! (k - unat off))
      else elems \<lparr>block_bytes = n, elems = full_elems xs\<rparr> k) = full_elems (xs @ ys)"
    by (auto simp: full_elems_def fun_eq_iff nth_append off)
  have "copy_elems sz (Some a) (Some d) off (length ys) h = Inr (h\<lparr>blocks := (blocks h)(d \<mapsto>
    \<lparr>block_bytes = n, elems = full_elems xs\<rparr>\<lparr>elems :=
      (\<lambda>k. if unat off \<le> k \<and> k < unat off + length ys then Some (ys ! (k - unat off))
      else elems \<lparr>block_bytes = n, elems = full_elems xs\<rparr> k)\<rparr>)\<rparr>)"
    by (rule copy_elems_exec [OF src dst(1)]) (use dst(2) off in simp_all)
  then show ?thesis unfolding eq by simp
qed

lemma array_copy_exec:
  assumes fresh: "blocks h (blk_brk h) = None" and p: "holds sz h p xs"
    and len: "length xs \<le> unat len" "unat sz * unat len < 2 ^ 64"
  shows "array_copy sz p len h = Inr (blk_brk h, h\<lparr>blocks := (blocks h)(blk_brk h \<mapsto>
    \<lparr>block_bytes = sz * len, elems = full_elems xs\<rparr>), blk_brk := Suc (blk_brk h)\<rparr>)"
proof -
  from p obtain v a b where v: "views h p = Some v" "m_ptr v = Some a" "unat (m_len v) = length xs"
    and b: "blocks h a = Some b" "block_holds sz b xs" by (rule holdsE)
  let ?h = "h\<lparr>blocks := (blocks h)(blk_brk h \<mapsto> \<lparr>block_bytes = sz * len, elems = Map.empty\<rparr>),
    blk_brk := Suc (blk_brk h)\<rparr>"
  have "a \<noteq> blk_brk h" using b fresh by auto
  moreover have "length xs * unat sz \<le> unat (sz * len)"
    using len by (simp add: unat_mult_no_wrap mult.commute mult_le_mono1)
  moreover have "length xs < 2 ^ 64" by (rule holds_length [OF p])
  ultimately have "copy_elems sz (m_ptr v) (Some (blk_brk h)) 0 (length xs) ?h =
      Inr (?h\<lparr>blocks := (blocks ?h)(blk_brk h \<mapsto>
        \<lparr>block_bytes = sz * len, elems = full_elems ([] @ xs)\<rparr>)\<rparr>)"
    unfolding v(2) by (intro copy_into_full) (use b in simp_all)
  then show ?thesis using v by (simp add: array_copy_def get_view_def Let_def)
qed

lemma arr_wf_fresh: "arr_wf h \<Longrightarrow> blocks h (blk_brk h) = None"
  unfolding arr_wf_def by (metis less_irrefl)

lemma set_view_simps [simp]:
  "rc_wf (set_view p v h) \<longleftrightarrow> rc_wf h" "group_of (set_view p v h) = group_of h"
  "dtr_of (set_view p v h) = dtr_of h" "handles (set_view p v h) = handles h"
  "views (set_view p v h) = (views h)(p \<mapsto> v)" "blocks (set_view p v h) = blocks h"
  "blk_brk (set_view p v h) = blk_brk h" "loc_ptr (set_view p v h) = loc_ptr h"
  by (rule rc_wf_cong; simp add: set_view_def)
    (auto simp: set_view_def group_of_def dtr_of_def fun_eq_iff)

lemma set_capacity_simps [simp]:
  "rc_wf (set_capacity p n h) \<longleftrightarrow> rc_wf h" "group_of (set_capacity p n h) = group_of h"
  "dtr_of (set_capacity p n h) = dtr_of h" "handles (set_capacity p n h) = handles h"
  "views (set_capacity p n h) = views h" "blocks (set_capacity p n h) = blocks h"
  "blk_brk (set_capacity p n h) = blk_brk h" "loc_ptr (set_capacity p n h) = loc_ptr h"
  by (rule rc_wf_cong; simp add: set_capacity_def)
    (auto simp: set_capacity_def group_of_def dtr_of_def fun_eq_iff)

lemma payload_simps [simp]:
  "rc_wf (h\<lparr>blocks := bs\<rparr>) \<longleftrightarrow> rc_wf h" "rc_wf (h\<lparr>blk_brk := n\<rparr>) \<longleftrightarrow> rc_wf h"
  "rc_wf (h\<lparr>loc_ptr := l\<rparr>) \<longleftrightarrow> rc_wf h" "rc_wf (h\<lparr>views := vs\<rparr>) \<longleftrightarrow> rc_wf h"
  "rc_wf (h\<lparr>m_capacity := cs\<rparr>) \<longleftrightarrow> rc_wf h"
  "group_of (h\<lparr>views := vs\<rparr>) = group_of h" "group_of (h\<lparr>m_capacity := cs\<rparr>) = group_of h"
  "dtr_of (h\<lparr>views := vs\<rparr>) = dtr_of h" "dtr_of (h\<lparr>m_capacity := cs\<rparr>) = dtr_of h"
  "group_of (h\<lparr>blocks := bs\<rparr>) = group_of h" "group_of (h\<lparr>blk_brk := n\<rparr>) = group_of h"
  "group_of (h\<lparr>loc_ptr := l\<rparr>) = group_of h"
  "dtr_of (h\<lparr>blocks := bs\<rparr>) = dtr_of h" "dtr_of (h\<lparr>blk_brk := n\<rparr>) = dtr_of h"
  "dtr_of (h\<lparr>loc_ptr := l\<rparr>) = dtr_of h"
  by ((rule rc_wf_cong; simp)+) (auto simp: group_of_def dtr_of_def fun_eq_iff)

section \<open>What each operation does\<close>

lemma from_static_spec:
  assumes wf: "arr_wf h" and p: "p \<noteq> 0" "handles h p = None" "q \<noteq> p" and q: "holds sz h q ys"
    and len: "length ys * unat sz < 2 ^ 64"
  shows "\<exists>h' v b. array_from_static sz p q h = Inr h' \<and> arr_wf h' \<and>
    group_of h' = (group_of h)(p \<mapsto> brk h) \<and> dtr_of h' = (dtr_of h)(p \<mapsto> Array_Dtr p) \<and>
    views h' = (views h)(p \<mapsto> v) \<and> m_ptr v = Some (blk_brk h) \<and> unat (m_len v) = length ys \<and>
    blocks h' = (blocks h)(blk_brk h \<mapsto> b) \<and> block_holds sz b ys \<and> blk_brk h' = Suc (blk_brk h)"
proof -
  have rc: "rc_wf h" using wf by (simp add: arr_wf_def)
  from construct_client [OF rc p(1,2), of "Array_Dtr p"] obtain h1 where
    h1: "shared_construct p (Array_Dtr p) h = Inr h1" "rc_wf h1"
      "group_of h1 = (group_of h)(p \<mapsto> brk h)" "dtr_of h1 = (dtr_of h)(p \<mapsto> Array_Dtr p)"
    and m1: "rc_heap.more h1 = rc_heap.more h" by blast
  note pay = more_eq_views [OF m1]
  from q obtain w a b where w: "views h q = Some w" "m_ptr w = Some a" "unat (m_len w) = length ys"
    and b: "blocks h a = Some b" "block_holds sz b ys" by (rule holdsE)
  let ?v = "\<lparr>m_ptr = m_ptr w, m_len = m_len w\<rparr>"
  let ?h2 = "set_capacity p (m_len w) (set_view p ?v h1)"
  have "holds sz ?h2 p ys" using w b by (simp add: holds_def pay)
  moreover have fresh: "blocks ?h2 (blk_brk ?h2) = None" using arr_wf_fresh [OF wf] by (simp add: pay)
  ultimately have copy: "array_copy sz p (m_len w) ?h2 = Inr (blk_brk h, ?h2\<lparr>blocks := (blocks h)(blk_brk h \<mapsto>
      \<lparr>block_bytes = sz * m_len w, elems = full_elems ys\<rparr>), blk_brk := Suc (blk_brk h)\<rparr>)"
    using array_copy_exec [of ?h2 sz p ys "m_len w"] w len by (simp add: pay mult.commute)
  let ?h3 = "set_view p (?v\<lparr>m_ptr := Some (blk_brk h)\<rparr>) (?h2\<lparr>blocks := (blocks h)(blk_brk h \<mapsto>
      \<lparr>block_bytes = sz * m_len w, elems = full_elems ys\<rparr>), blk_brk := Suc (blk_brk h)\<rparr>)"
  have "array_from_static sz p q h = Inr ?h3"
    using h1 w p copy by (simp add: array_from_static_def get_view_def pay Let_def)
  moreover have "arr_wf ?h3" using wf h1 by (auto simp: arr_wf_def less_Suc_eq)
  moreover have "block_holds sz \<lparr>block_bytes = sz * m_len w, elems = full_elems ys\<rparr> ys"
    using w len by (intro full_block_holds) (simp add: unat_mult_no_wrap mult.commute)
  moreover have "views ?h3 = (views h)(p \<mapsto> ?v\<lparr>m_ptr := Some (blk_brk h)\<rparr>)" by (simp add: pay)
  ultimately show ?thesis using h1 w
    by (intro exI [of _ ?h3] exI [of _ "?v\<lparr>m_ptr := Some (blk_brk h)\<rparr>"]
        exI [of _ "\<lparr>block_bytes = sz * m_len w, elems = full_elems ys\<rparr>"]) simp
qed

lemma copy_construct_spec:
  assumes wf: "arr_wf h" and p: "p \<noteq> 0" "handles h p = None" "q \<noteq> p" and q: "group_of h q = Some a"
    and w: "views h q = Some w"
  shows "\<exists>h'. array_copy_construct p q h = Inr h' \<and> arr_wf h' \<and>
    group_of h' = (group_of h)(p \<mapsto> a) \<and> dtr_of h' = (dtr_of h)(p := dtr_of h q) \<and>
    views h' = (views h)(p \<mapsto> w) \<and> blocks h' = blocks h \<and> blk_brk h' = blk_brk h"
proof -
  have rc: "rc_wf h" using wf by (simp add: arr_wf_def)
  from copy_construct_client [OF rc p(1,2) q, of array_release] obtain h1 where
    h1: "shared_copy_construct array_release p q h = Inr h1" "rc_wf h1"
      "group_of h1 = (group_of h)(p \<mapsto> a)" "dtr_of h1 = (dtr_of h)(p := dtr_of h q)"
    and m1: "rc_heap.more h1 = rc_heap.more h" by blast
  note pay = more_eq_views [OF m1]
  have weq: "\<lparr>m_ptr = m_ptr w, m_len = m_len w\<rparr> = w" by simp
  let ?h = "set_capacity p (m_len w) (set_view p w h1)"
  have "array_copy_construct p q h =
      Inr (set_capacity p (m_len w) (set_view p \<lparr>m_ptr = m_ptr w, m_len = m_len w\<rparr> h1))"
    using h1 w p by (simp add: array_copy_construct_def get_view_def pay)
  then have "array_copy_construct p q h = Inr ?h" unfolding weq .
  moreover have "arr_wf ?h" using wf h1 by (simp add: arr_wf_def pay)
  ultimately show ?thesis using h1 by (intro exI [of _ ?h]) (simp add: pay)
qed

lemma move_construct_spec:
  assumes wf: "arr_wf h" and p: "p \<noteq> 0" "handles h p = None" "q \<noteq> p" and q: "handles h q = Some sq"
    and w: "views h q = Some w"
  shows "\<exists>h'. array_move_construct p q h = Inr h' \<and> arr_wf h' \<and>
    group_of h' = (group_of h)(p := group_of h q, q := None) \<and> dtr_of h' = (dtr_of h)(p := dtr_of h q) \<and>
    views h' = (views h)(p \<mapsto> w) \<and> blocks h' = blocks h \<and> blk_brk h' = blk_brk h"
proof -
  have rc: "rc_wf h" using wf by (simp add: arr_wf_def)
  from move_construct_client [OF rc p(1,2) q, of array_release] obtain h1 where
    h1: "shared_move_construct array_release p q h = Inr h1" "rc_wf h1"
      "group_of h1 = (group_of h)(p := group_of h q, q := None)" "dtr_of h1 = (dtr_of h)(p := dtr_of h q)"
    and m1: "rc_heap.more h1 = rc_heap.more h" by blast
  note pay = more_eq_views [OF m1]
  have weq: "\<lparr>m_ptr = m_ptr w, m_len = m_len w\<rparr> = w" by simp
  let ?h = "set_capacity p (m_len w) (set_view p w h1)"
  have "array_move_construct p q h =
      Inr (set_capacity p (m_len w) (set_view p \<lparr>m_ptr = m_ptr w, m_len = m_len w\<rparr> h1))"
    using h1 w p by (simp add: array_move_construct_def get_view_def pay)
  then have "array_move_construct p q h = Inr ?h" unfolding weq .
  moreover have "arr_wf ?h" using wf h1 by (simp add: arr_wf_def pay)
  ultimately show ?thesis using h1 by (intro exI [of _ ?h]) (simp add: pay)
qed

lemma append_copy_exec:
  assumes fresh: "blocks h (blk_brk h) = None" and p: "holds sz h p xs" and q: "holds sz h q ys"
    and sz: "0 < sz" and len: "(length xs + length ys) * unat sz < 2 ^ 64"
    and v: "views h p = Some v" "views h q = Some w" and h0: "rc_heap.more h0 = rc_heap.more h"
  shows "append_copy sz p q h0 = Inr (h0\<lparr>rc_heap.more := rc_heap.more (h\<lparr>blocks := (blocks h)(blk_brk h \<mapsto>
    \<lparr>block_bytes = sz * (m_len v + m_len w), elems = full_elems xs\<rparr>), blk_brk := Suc (blk_brk h),
    loc_ptr := Some (blk_brk h)\<rparr>)\<rparr>)"
proof -
  note pay = more_eq_views [OF h0]
  have lens: "unat (m_len v) = length xs" "unat (m_len w) = length ys"
    using p q v by (auto simp: holds_def)
  have "length xs + length ys \<le> (length xs + length ys) * unat sz"
    using sz by (simp add: Suc_le_eq unat_gt_0 word_gt_0)
  then have "length xs + length ys < 2 ^ 64" using len by (rule le_less_trans)
  then have sum: "unat (m_len v + m_len w) = length xs + length ys"
    using lens by (simp add: unat_add_no_wrap)
  have "holds sz h0 p xs" using p by (simp add: holds_def pay)
  then have "array_copy sz p (m_len v + m_len w) h0 = Inr (blk_brk h, h0\<lparr>blocks := (blocks h)(blk_brk h \<mapsto>
      \<lparr>block_bytes = sz * (m_len v + m_len w), elems = full_elems xs\<rparr>), blk_brk := Suc (blk_brk h)\<rparr>)"
    using array_copy_exec [of h0 sz p xs "m_len v + m_len w"] fresh sum len
    by (simp add: pay mult.commute)
  then have "append_copy sz p q h0 = Inr (h0\<lparr>blocks := (blocks h)(blk_brk h \<mapsto>
      \<lparr>block_bytes = sz * (m_len v + m_len w), elems = full_elems xs\<rparr>), blk_brk := Suc (blk_brk h),
      loc_ptr := Some (blk_brk h)\<rparr>)"
    using v by (simp add: append_copy_def get_view_def pay)
  then show ?thesis using h0 by (cases h0; cases h) simp
qed

lemma append_spec:
  assumes wf: "arr_wf h" and g: "group_of h p = Some g" and p: "holds sz h p xs" and q: "holds sz h q ys"
    and sz: "0 < sz" and len: "(length xs + length ys) * unat sz < 2 ^ 64"
  shows "\<exists>h' v b. array_append sz p q h = Inr h' \<and> arr_wf h' \<and> dtr_of h' = dtr_of h \<and>
    group_of h' = (if \<exists>r. r \<noteq> p \<and> group_of h r = Some g then (group_of h)(p \<mapsto> brk h) else group_of h) \<and>
    views h' = (views h)(p \<mapsto> v) \<and> m_ptr v = Some (blk_brk h) \<and> unat (m_len v) = length xs + length ys \<and>
    blocks h' = (blocks h)(blk_brk h \<mapsto> b) \<and> block_holds sz b (xs @ ys) \<and> blk_brk h' = Suc (blk_brk h)"
proof -
  let ?h = "h\<lparr>loc_ptr := None\<rparr>"
  have rc: "rc_wf ?h" and fresh: "blocks ?h (blk_brk ?h) = None" and gp: "group_of ?h p = Some g"
    and hp: "holds sz ?h p xs" "holds sz ?h q ys"
    using wf g p q arr_wf_fresh [OF wf] by (simp_all add: arr_wf_def holds_def)
  from p obtain v where v: "views h p = Some v" "unat (m_len v) = length xs" by (rule holdsE)
  from q obtain w a b where w: "views h q = Some w" "m_ptr w = Some a" "unat (m_len w) = length ys"
    and b: "blocks h a = Some b" "block_holds sz b ys" by (rule holdsE)
  have "length xs + length ys \<le> (length xs + length ys) * unat sz"
    using sz by (simp add: Suc_le_eq unat_gt_0 word_gt_0)
  then have l64: "length xs + length ys < 2 ^ 64" using len by (rule le_less_trans)
  have sum: "unat (m_len v + m_len w) = length xs + length ys"
    using v w l64 by (simp add: unat_add_no_wrap)
  define n where "n = sz * (m_len v + m_len w)"
  have n: "unat n = (length xs + length ys) * unat sz"
    unfolding n_def using sum len by (simp add: unat_mult_no_wrap mult.commute)
  define m where "m = rc_heap.more (?h\<lparr>blocks := (blocks h)(blk_brk h \<mapsto>
    \<lparr>block_bytes = n, elems = full_elems xs\<rparr>), blk_brk := Suc (blk_brk h), loc_ptr := Some (blk_brk h)\<rparr>)"
  have copy: "append_copy sz p q h0 = Inr (h0\<lparr>rc_heap.more := m\<rparr>)"
    if "rc_heap.more h0 = rc_heap.more ?h" for h0
    using append_copy_exec [OF fresh hp sz len, of v w h0] v w that by (simp add: m_def n_def)
  from write_client [where copy = "append_copy sz p q" and call = array_release, OF rc gp copy]
  obtain h1 where h1: "shared_write array_release (append_copy sz p q) p ?h = Inr h1" "rc_wf h1"
      "dtr_of h1 = dtr_of h" and m1: "rc_heap.more h1 = m"
    and grp: "group_of h1 = (if \<exists>r. r \<noteq> p \<and> group_of h r = Some g then (group_of h)(p \<mapsto> brk h) else group_of h)"
    by (auto cong: if_cong)
  note pay = more_eq_views [OF m1 [unfolded m_def]]
  let ?h2 = "h1\<lparr>blocks := (blocks h1)(blk_brk h \<mapsto> \<lparr>block_bytes = n, elems = full_elems (xs @ ys)\<rparr>)\<rparr>"
  have "a \<noteq> blk_brk h" using b arr_wf_fresh [OF wf] by auto
  then have loop: "copy_elems sz (Some a) (Some (blk_brk h)) (m_len v) (length ys) h1 = Inr ?h2"
    by (intro copy_into_full) (use b v n l64 in \<open>simp_all add: pay\<close>)
  let ?v = "v\<lparr>m_ptr := Some (blk_brk h), m_len := m_len v + m_len w\<rparr>"
  let ?h3 = "set_view p ?v (set_view p (v\<lparr>m_ptr := Some (blk_brk h)\<rparr>) ?h2)"
  have "array_append sz p q h = Inr ?h3"
    using h1 v w loop by (cases "q = p") (simp_all add: array_append_def get_view_def pay Let_def)
  moreover have "arr_wf ?h3" using wf h1 by (auto simp: arr_wf_def pay less_Suc_eq)
  moreover have "block_holds sz \<lparr>block_bytes = n, elems = full_elems (xs @ ys)\<rparr> (xs @ ys)"
    using n by (intro full_block_holds) simp
  ultimately show ?thesis using h1 grp sum
    by (intro exI [of _ ?h3] exI [of _ ?v] exI [of _ "\<lparr>block_bytes = n, elems = full_elems (xs @ ys)\<rparr>"])
      (simp add: pay)
qed

text \<open>The end of an array, by what the callback finds.\<close>

lemma static_destroy_simps [simp]:
  "rc_wf (static_destroy p h) \<longleftrightarrow> rc_wf h" "group_of (static_destroy p h) = group_of h"
  "dtr_of (static_destroy p h) = dtr_of h" "handles (static_destroy p h) = handles h"
  "views (static_destroy p h) = (views h)(p := None)" "blocks (static_destroy p h) = blocks h"
  "blk_brk (static_destroy p h) = blk_brk h" "loc_ptr (static_destroy p h) = loc_ptr h"
  by (simp_all add: static_destroy_def)

lemma destroy_copy_spec:
  assumes wf: "arr_wf h" and p: "group_of h p = Some g" and q: "q \<noteq> p" "group_of h q = Some g"
  shows "\<exists>h'. array_destroy p h = Inr h' \<and> arr_wf h' \<and> group_of h' = (group_of h)(p := None) \<and>
    dtr_of h' = (dtr_of h)(p := None) \<and> views h' = (views h)(p := None) \<and>
    blocks h' = blocks h \<and> blk_brk h' = blk_brk h"
proof -
  let ?k = "static_destroy p (h\<lparr>m_capacity := (m_capacity h)(p := None)\<rparr>)"
  have rc: "rc_wf ?k" "group_of ?k p = Some g" "group_of ?k q = Some g" using wf p q by (simp_all add: arr_wf_def)
  from destroy_shared_client [OF rc(1,2) q(1) rc(3), of array_release] obtain h1 where
    h1: "shared_destroy array_release p ?k = Inr h1" "rc_wf h1" "group_of h1 = (group_of ?k)(p := None)"
      "dtr_of h1 = (dtr_of ?k)(p := None)" and m1: "rc_heap.more h1 = rc_heap.more ?k" by blast
  note pay = more_eq_views [OF m1]
  show ?thesis using h1 wf
    by (intro exI [of _ h1]) (simp add: array_destroy_def Let_def arr_wf_def pay)
qed

lemma destroy_moved_spec:
  assumes wf: "arr_wf h" and p: "handles h p = Some s" "m_cnt s = None"
  shows "\<exists>h'. array_destroy p h = Inr h' \<and> arr_wf h' \<and> group_of h' = (group_of h)(p := None) \<and>
    dtr_of h' = (dtr_of h)(p := None) \<and> views h' = (views h)(p := None) \<and>
    blocks h' = blocks h \<and> blk_brk h' = blk_brk h"
proof -
  let ?k = "static_destroy p (h\<lparr>m_capacity := (m_capacity h)(p := None)\<rparr>)"
  have k: "rc_wf ?k" "handles ?k p = Some s" using wf p by (simp_all add: arr_wf_def)
  show ?thesis using destroy_moved_client(1) [OF k p(2), of array_release] destroy_moved_client(2) [OF k p(2)] wf
    by (intro exI [of _ "forget p ?k"])
      (auto simp: array_destroy_def Let_def arr_wf_def forget_def group_of_def dtr_of_def fun_eq_iff static_destroy_def)
qed

text \<open>The last handle calls the lambda, which faults whatever it finds, unless \<open>m_ptr\<close> is null.\<close>

lemma destroy_last_exec:
  assumes wf: "arr_wf h" and p: "group_of h p = Some g" and q: "\<And>q. q \<noteq> p \<Longrightarrow> group_of h q \<noteq> Some g"
    and d: "dtr_of h p = Some (Array_Dtr this)"
  obtains h0 where "array_destroy p h = bind_res (array_release (Array_Dtr this) h0) (\<lambda>h'. Inr (forget p h'))"
    "views h0 = (views h)(p := None)" "blocks h0 = blocks h"
proof -
  let ?k = "static_destroy p (h\<lparr>m_capacity := (m_capacity h)(p := None)\<rparr>)"
  have rc: "rc_wf ?k" "group_of ?k p = Some g" "dtr_of ?k p = Some (Array_Dtr this)"
    and away: "\<And>q. q \<noteq> p \<Longrightarrow> group_of ?k q \<noteq> Some g"
    using wf p q d by (simp_all add: arr_wf_def)
  from destroy_alone_client [OF rc(1,2) away rc(3), of array_release] obtain h0 where
    h0: "shared_destroy array_release p ?k = bind_res (array_release (Array_Dtr this) h0) (\<lambda>h'. Inr (forget p h'))"
      "rc_heap.more h0 = rc_heap.more ?k" by blast
  note pay = more_eq_views [OF h0(2)]
  from that [of h0] h0(1) show ?thesis by (simp add: array_destroy_def Let_def pay)
qed

lemma destroy_last_faults:
  assumes wf: "arr_wf h" and p: "group_of h p = Some g" and q: "\<And>q. q \<noteq> p \<Longrightarrow> group_of h q \<noteq> Some g"
    and d: "dtr_of h p = Some (Array_Dtr this)"
  shows "this = p \<or> views h this = None \<Longrightarrow> array_destroy p h = Inl Use_After_Free"
    and "this \<noteq> p \<Longrightarrow> views h this = Some w \<Longrightarrow> m_ptr w = Some a \<Longrightarrow>
      array_destroy p h = Inl (if blocks h a = None then Double_Free else Bad_Delete)"
proof -
  from destroy_last_exec [OF wf p q d] obtain h0 where
    ex: "array_destroy p h = bind_res (array_release (Array_Dtr this) h0) (\<lambda>h'. Inr (forget p h'))"
    and pay: "views h0 = (views h)(p := None)" "blocks h0 = blocks h" by blast
  show "this = p \<or> views h this = None \<Longrightarrow> array_destroy p h = Inl Use_After_Free"
    by (auto simp: ex get_view_def pay)
  show "this \<noteq> p \<Longrightarrow> views h this = Some w \<Longrightarrow> m_ptr w = Some a \<Longrightarrow>
      array_destroy p h = Inl (if blocks h a = None then Double_Free else Bad_Delete)"
    by (simp add: ex get_view_def pay)
qed

lemma index_holds:
  assumes "holds sz h p xs" "i < length xs"
  shows "static_index sz p (of_nat i) h = Inr (xs ! i)"
proof -
  from assms(1) obtain v a b where v: "views h p = Some v" "m_ptr v = Some a" "blocks h a = Some b"
    and b: "block_holds sz b xs" by (rule holdsE)
  have i: "unat (of_nat i :: size_t) = i"
    using assms(2) holds_length [OF assms(1)] by (intro unat_of_nat_64) simp
  have "(i + 1) * unat sz \<le> length xs * unat sz" using assms(2) by (intro mult_le_mono1) simp
  then have "(i + 1) * unat sz \<le> unat (block_bytes b)" using b by (simp add: block_holds_def)
  then show ?thesis using v b assms(2) i
    by (simp add: static_index_def get_view_def elem_read_def get_block_def deref_def block_holds_def)
qed

lemma arr_wf_block: "arr_wf h \<Longrightarrow> blocks h a = Some b \<Longrightarrow> a \<noteq> blk_brk h"
  using arr_wf_fresh by fastforce

section \<open>Programs over arrays\<close>

text \<open>
  \<open>begin()\<close> and \<open>end()\<close> are pointers into the block, a block and an index; a range-based loop goes from one to the other
  and reads through each pointer.
\<close>

definition array_begin :: "oid \<Rightarrow> ('v, 'm) arr_heap_scheme \<Rightarrow> fault + addr option \<times> size_t" where
  "array_begin p h = bind_res (get_view p h) (\<lambda>v. Inr (m_ptr v, 0))"

definition array_end :: "oid \<Rightarrow> ('v, 'm) arr_heap_scheme \<Rightarrow> fault + addr option \<times> size_t" where
  "array_end p h = bind_res (get_view p h) (\<lambda>v. Inr (m_ptr v, m_len v))"

function range_reads ::
  "size_t \<Rightarrow> addr option \<Rightarrow> size_t \<Rightarrow> size_t \<Rightarrow> ('v, 'm) arr_heap_scheme \<Rightarrow> fault + 'v list" where
  "range_reads sz a i e h = (if i = e then Inr [] else
     bind_res (elem_read sz a i h) (\<lambda>x. bind_res (range_reads sz a (i + 1) e h) (\<lambda>xs. Inr (x # xs))))"
  by pat_completeness auto
termination
proof (relation "measure (\<lambda>(sz, a, i, e, h). unat (e - i))")
  fix sz :: size_t and a :: "addr option" and i e :: size_t and h :: "('v, 'm) arr_heap_scheme"
  assume "i \<noteq> e"
  then have "e - i \<noteq> 0" by simp
  then have "unat (e - i - 1) < unat (e - i)" by (simp add: unat_dec unat_gt_0)
  then show "((sz, a, i + 1, e, h), sz, a, i, e, h) \<in> measure (\<lambda>(sz, a, i, e, h). unat (e - i))"
    by (simp add: algebra_simps)
qed simp

declare range_reads.simps [simp del]

definition range_for :: "size_t \<Rightarrow> oid \<Rightarrow> ('v, 'm) arr_heap_scheme \<Rightarrow> fault + 'v list" where
  "range_for sz p h = bind_res (array_begin p h) (\<lambda>(a, i). bind_res (array_end p h) (\<lambda>(_, e). range_reads sz a i e h))"

text \<open>The loop reads the list that the array holds.\<close>

lemma range_for_holds:
  assumes "holds sz h p xs"
  shows "range_for sz p h = Inr xs"
proof -
  obtain v a b where v: "views h p = Some v" "m_ptr v = Some a" "unat (m_len v) = length xs" by (rule holdsE [OF assms])
  have len: "length xs < 2 ^ 64" by (rule holds_length [OF assms])
  have r: "elem_read sz (m_ptr v) (of_nat i) h = Inr (xs ! i)" if "i < length xs" for i
    using index_holds [OF assms that] v by (simp add: static_index_def get_view_def)
  have e: "m_len v = of_nat (length xs)" using v(3) by (metis unat_of_nat_64 len word_eq_iff_unsigned)
  have "i \<le> length xs \<Longrightarrow> range_reads sz (m_ptr v) (of_nat i) (m_len v) h = Inr (drop i xs)" for i
  proof (induction "length xs - i" arbitrary: i)
    case 0
    then show ?case by (simp add: range_reads.simps e)
  next
    case (Suc n)
    then have i: "i < length xs" by simp
    then have "of_nat i \<noteq> (of_nat (length xs) :: size_t)"
      using unat_of_nat_64 [of i] unat_of_nat_64 [OF len] len by (metis less_trans nat_neq_iff)
    moreover have "range_reads sz (m_ptr v) (of_nat i + 1) (m_len v) h = Inr (drop (Suc i) xs)"
      using Suc(1) [of "Suc i"] Suc(2) i by (simp add: add.commute)
    ultimately show ?case
      using r [OF i] i by (subst range_reads.simps) (simp add: e Cons_nth_drop_Suc)
  qed
  from this [of 0] show ?thesis using v by (simp add: range_for_def array_begin_def array_end_def get_view_def)
qed

text \<open>
  \<^verbatim>\<open>main\<close> of \<^verbatim>\<open>src/tests/array.cpp\<close>, after its two views \<open>a\<close> and \<open>b\<close>: \<open>c = a + b\<close>, a copy \<open>d\<close> of \<open>c\<close>
  and the loop that prints every element of \<open>d\<close>; and the end of its scope, where \<open>d\<close> ends and then \<open>c\<close>.
\<close>

definition array_main ::
  "size_t \<Rightarrow> oid \<Rightarrow> oid \<Rightarrow> oid \<Rightarrow> oid \<Rightarrow> ('v, 'm) arr_heap_scheme \<Rightarrow>
   fault + ('v list \<times> ('v, 'm) arr_heap_scheme)" where
  "array_main sz a b c d h =
     bind_res (static_plus sz c a b h) (\<lambda>h.
     bind_res (array_copy_construct d c h) (\<lambda>h.
     bind_res (range_for sz d h) (\<lambda>out. Inr (out, h))))"

definition array_main_end :: "oid \<Rightarrow> oid \<Rightarrow> ('v, 'm) arr_heap_scheme \<Rightarrow> fault + ('v, 'm) arr_heap_scheme" where
  "array_main_end c d h = bind_res (array_destroy d h) (array_destroy c)"

text \<open>A heap with two views and no array, for the witnesses.\<close>

definition two_views :: "nat arr_heap" where
  "two_views = \<lparr>cnts = Map.empty, cows = Map.empty, handles = Map.empty, brk = 0,
     views = [1 \<mapsto> \<lparr>m_ptr = Some 0, m_len = 3\<rparr>, 2 \<mapsto> \<lparr>m_ptr = Some 1, m_len = 2\<rparr>],
     m_capacity = Map.empty,
     blocks = [0 \<mapsto> \<lparr>block_bytes = 12, elems = full_elems [1, 2, 3]\<rparr>,
               1 \<mapsto> \<lparr>block_bytes = 8, elems = full_elems [4, 5]\<rparr>],
     blk_brk = 2, loc_ptr = None\<rparr>"

lemma two_views_wf: "arr_wf two_views"
  by (simp add: arr_wf_def rc_wf_def two_views_def)

lemma two_views_holds: "holds 4 two_views 1 [1, 2, 3]" "holds 4 two_views 2 [4, 5]"
  by (simp_all add: holds_def two_views_def full_block_holds)

lemma two_views_handles: "handles two_views p = None" "views two_views 3 = None" "views two_views 4 = None"
  by (simp_all add: two_views_def)

lemma static_plus_spec:
  assumes wf: "arr_wf h" and r: "r \<noteq> 0" "handles h r = None" "views h r = None"
    and p: "holds sz h p xs" and q: "holds sz h q ys"
    and sz: "0 < sz" and len: "(length xs + length ys) * unat sz < 2 ^ 64"
  shows "\<exists>h' v b c. static_plus sz r p q h = Inr h' \<and> arr_wf h' \<and>
    group_of h' = (group_of h)(r \<mapsto> brk h) \<and> dtr_of h' = (dtr_of h)(r \<mapsto> Array_Dtr r) \<and>
    views h' = (views h)(r \<mapsto> v) \<and> m_ptr v = Some (Suc (blk_brk h)) \<and>
    unat (m_len v) = length xs + length ys \<and>
    blocks h' = (blocks h)(blk_brk h \<mapsto> b, Suc (blk_brk h) \<mapsto> c) \<and>
    block_holds sz b xs \<and> block_holds sz c (xs @ ys) \<and> blk_brk h' = Suc (Suc (blk_brk h))"
proof -
  have ne: "p \<noteq> r" "q \<noteq> r" using p q r(3) by (auto simp: holds_def)
  have "length xs * unat sz < 2 ^ 64" using len by (simp add: distrib_right)
  from from_static_spec [OF wf r(1,2) ne(1) p this] obtain h1 v b where
    h1: "array_from_static sz r p h = Inr h1" "arr_wf h1" "group_of h1 = (group_of h)(r \<mapsto> brk h)"
      "dtr_of h1 = (dtr_of h)(r \<mapsto> Array_Dtr r)" "views h1 = (views h)(r \<mapsto> v)"
      "m_ptr v = Some (blk_brk h)" "unat (m_len v) = length xs"
      "blocks h1 = (blocks h)(blk_brk h \<mapsto> b)" "block_holds sz b xs" "blk_brk h1 = Suc (blk_brk h)"
    by blast
  have g: "group_of h1 r = Some (brk h)" using h1 by simp
  have hr: "holds sz h1 r xs" using h1 by (simp add: holds_def)
  have hq: "holds sz h1 q ys"
    by (rule holds_frame [OF q]) (use h1 ne arr_wf_block [OF wf] in auto)
  have "group_of h1 = (if \<exists>x. x \<noteq> r \<and> group_of h1 x = Some (brk h) then (group_of h1)(r \<mapsto> brk h1) else group_of h1)"
    using group_fresh [of h] wf h1(3) by (auto simp: arr_wf_def)
  with append_spec [OF h1(2) g hr hq sz len] obtain h2 v2 c where
    h2: "array_append sz r q h1 = Inr h2" "arr_wf h2" "dtr_of h2 = dtr_of h1" "group_of h2 = group_of h1"
      "views h2 = (views h1)(r \<mapsto> v2)" "m_ptr v2 = Some (blk_brk h1)"
      "unat (m_len v2) = length xs + length ys" "blocks h2 = (blocks h1)(blk_brk h1 \<mapsto> c)"
      "block_holds sz c (xs @ ys)" "blk_brk h2 = Suc (blk_brk h1)"
    by metis
  show ?thesis
    by (intro exI [of _ h2] exI [of _ v2] exI [of _ b] exI [of _ c])
      (use h1 h2 in \<open>simp add: static_plus_def\<close>)
qed

section \<open>Properties\<close>

text \<open>
  C12: Appending has value semantics. When the array \<open>p\<close> holds \<open>xs\<close> and the view \<open>q\<close> holds
  \<open>ys\<close> (\<open>q\<close> may be \<open>p\<close> itself, a view of the same memory, or a copy that shares its buffer),
  \<open>p += q\<close> succeeds, \<open>p\<close> then holds \<open>xs @ ys\<close> and is the only handle of its buffer, and every
  other view and array holds what it held, the copies of \<open>p\<close> included. The size in bytes of
  the result must be representable.
\<close>

theorem array_append_value:
  assumes wf: "arr_wf h" and g: "group_of h p = Some g" and p: "holds sz h p xs" and q: "holds sz h q ys"
    and sz: "0 < sz" and len: "(length xs + length ys) * unat sz < 2 ^ 64"
  shows "\<exists>h' g'. array_append sz p q h = Inr h' \<and> arr_wf h' \<and> holds sz h' p (xs @ ys) \<and>
    (\<forall>r zs. r \<noteq> p \<longrightarrow> holds sz h r zs \<longrightarrow> holds sz h' r zs) \<and>
    group_of h' p = Some g' \<and> (\<forall>r. r \<noteq> p \<longrightarrow> group_of h' r \<noteq> Some g')"
proof -
  from append_spec [OF assms] obtain h' v b where
    h': "array_append sz p q h = Inr h'" "arr_wf h'" "views h' = (views h)(p \<mapsto> v)"
      "m_ptr v = Some (blk_brk h)" "unat (m_len v) = length xs + length ys"
      "blocks h' = (blocks h)(blk_brk h \<mapsto> b)" "block_holds sz b (xs @ ys)"
    and grp: "group_of h' = (if \<exists>r. r \<noteq> p \<and> group_of h r = Some g then (group_of h)(p \<mapsto> brk h) else group_of h)"
    by blast
  have "holds sz h' p (xs @ ys)" using h' by (simp add: holds_def)
  moreover have "holds sz h' r zs" if "r \<noteq> p" "holds sz h r zs" for r zs
    by (rule holds_frame [OF that(2)]) (use h' that(1) arr_wf_block [OF wf] in auto)
  moreover have "\<exists>g'. group_of h' p = Some g' \<and> (\<forall>r. r \<noteq> p \<longrightarrow> group_of h' r \<noteq> Some g')"
    using g grp group_fresh [of h] wf by (auto simp: arr_wf_def)
  ultimately show ?thesis using h'(1,2) by blast
qed

lemma array_append_value_witness:
  "\<exists>h h'. array_from_static 4 3 1 two_views = Inr h \<and> array_append 4 3 3 h = Inr h' \<and>
    holds 4 h' 3 [1, 2, 3, 1, 2, 3 :: nat] \<and> holds 4 h' 1 [1, 2, 3]"
proof -
  have "\<exists>h v b. array_from_static 4 3 1 two_views = Inr h \<and> arr_wf h \<and>
      group_of h = (group_of two_views)(3 \<mapsto> brk two_views) \<and> dtr_of h = (dtr_of two_views)(3 \<mapsto> Array_Dtr 3) \<and>
      views h = (views two_views)(3 \<mapsto> v) \<and> m_ptr v = Some (blk_brk two_views) \<and>
      unat (m_len v) = length [1, 2, 3 :: nat] \<and>
      blocks h = (blocks two_views)(blk_brk two_views \<mapsto> b) \<and> block_holds 4 b [1, 2, 3] \<and>
      blk_brk h = Suc (blk_brk two_views)"
    by (rule from_static_spec [OF two_views_wf _ two_views_handles(1) _ two_views_holds(1)]) simp_all
  then obtain h v b where h: "array_from_static 4 3 1 two_views = Inr h" "arr_wf h"
      "group_of h 3 = Some (brk two_views)" "views h = (views two_views)(3 \<mapsto> v)"
      "m_ptr v = Some (blk_brk two_views)" "unat (m_len v) = length [1, 2, 3 :: nat]"
      "blocks h = (blocks two_views)(blk_brk two_views \<mapsto> b)" "block_holds 4 b [1, 2, 3]"
    by auto
  have h3: "holds 4 h 3 [1, 2, 3]" using h by (simp add: holds_def)
  have h1: "holds 4 h 1 [1, 2, 3]"
    by (rule holds_frame [OF two_views_holds(1)]) (use h arr_wf_block [OF two_views_wf] in auto)
  obtain h' where "array_append 4 3 3 h = Inr h'" "holds 4 h' 3 ([1, 2, 3] @ [1, 2, 3])"
    "\<forall>r zs. r \<noteq> 3 \<longrightarrow> holds 4 h r zs \<longrightarrow> holds 4 h' r zs"
    using array_append_value [OF h(2,3) h3 h3] by auto
  then show ?thesis using h(1) h1 by auto
qed

text \<open>
  The sum of two views is their concatenation: \<open>r = a + b\<close> makes the new array \<open>r\<close>, alone
  in its group, that holds \<open>xs @ ys\<close>; the element at each index in range is read back, and
  the operands and every other object keep their contents.
\<close>

theorem array_plus_value:
  assumes wf: "arr_wf h" and r: "r \<noteq> 0" "handles h r = None" "views h r = None"
    and p: "holds sz h p xs" and q: "holds sz h q ys"
    and sz: "0 < sz" and len: "(length xs + length ys) * unat sz < 2 ^ 64"
  shows "\<exists>h'. static_plus sz r p q h = Inr h' \<and> arr_wf h' \<and> group_of h' = (group_of h)(r \<mapsto> brk h) \<and>
    static_length r h' = Inr (of_nat (length (xs @ ys))) \<and>
    (\<forall>i < length (xs @ ys). static_index sz r (of_nat i) h' = Inr ((xs @ ys) ! i)) \<and>
    (\<forall>x zs. holds sz h x zs \<longrightarrow> holds sz h' x zs)"
proof -
  from static_plus_spec [OF assms] obtain h' v b c where
    h': "static_plus sz r p q h = Inr h'" "arr_wf h'" "group_of h' = (group_of h)(r \<mapsto> brk h)"
      "views h' = (views h)(r \<mapsto> v)" "m_ptr v = Some (Suc (blk_brk h))"
      "unat (m_len v) = length xs + length ys"
      "blocks h' = (blocks h)(blk_brk h \<mapsto> b, Suc (blk_brk h) \<mapsto> c)" "block_holds sz c (xs @ ys)"
    by blast
  have hr: "holds sz h' r (xs @ ys)" using h' by (simp add: holds_def)
  have "holds sz h' x zs" if "holds sz h x zs" for x zs
  proof -
    have "blocks h a = Some d \<Longrightarrow> a < blk_brk h" for a d using wf by (simp add: arr_wf_def)
    then show ?thesis using h'(4,7) r(3) that by (fastforce intro: holds_frame [OF that] simp: holds_def)
  qed
  moreover have "m_len v = of_nat (length xs + length ys)" by (simp flip: h'(6))
  then have "static_length r h' = Inr (of_nat (length (xs @ ys)))"
    using h'(4) by (simp add: static_length_def get_view_def)
  ultimately show ?thesis using h'(1,2,3) index_holds [OF hr] by blast
qed

lemma array_plus_value_witness:
  "\<exists>h. static_plus 4 3 1 2 two_views = Inr h \<and> static_index 4 3 3 h = Inr (4 :: nat)"
proof -
  have "\<exists>h. static_plus 4 3 1 2 two_views = Inr h \<and> arr_wf h \<and>
    group_of h = (group_of two_views)(3 \<mapsto> brk two_views) \<and>
    static_length 3 h = Inr (of_nat (length ([1, 2, 3] @ [4, 5 :: nat]))) \<and>
    (\<forall>i < length ([1, 2, 3] @ [4, 5 :: nat]). static_index 4 3 (of_nat i) h = Inr (([1, 2, 3] @ [4, 5]) ! i)) \<and>
    (\<forall>x zs. holds 4 two_views x zs \<longrightarrow> holds 4 h x zs)"
    by (rule array_plus_value [OF two_views_wf _ two_views_handles(1,2) two_views_holds]) simp_all
  then obtain h where h: "static_plus 4 3 1 2 two_views = Inr h"
    "\<And>i. i < 5 \<Longrightarrow> static_index 4 3 (of_nat i) h = Inr ([1, 2, 3, 4, 5 :: nat] ! i)" by auto
  show ?thesis using h(1) h(2) [of 3] by auto
qed

text \<open>
  C14: The program of \<^verbatim>\<open>src/tests/array.cpp\<close>, for views of any contents. It prints \<open>xs @ ys\<close>. At that point
  it has allocated two blocks: \<open>c\<close> and \<open>d\<close> share the second; the first, the buffer \<open>c\<close> had before \<open>+=\<close>, holds
  \<open>xs\<close> and no view points to it any more (\<open>operator+=\<close> does not release the buffer it replaces). Then \<open>d\<close> ends
  well, which leaves \<open>c\<close> with its elements, and the end of \<open>c\<close> is undefined: the lambda reads \<open>m_ptr\<close> of a view that has been
  destroyed, so that the program has no defined end. (At the start no view points to memory that is not allocated yet.)
\<close>

theorem array_main_prints:
  assumes wf: "arr_wf h" and new: "c \<noteq> 0" "d \<noteq> 0" "c \<noteq> d" "handles h c = None" "handles h d = None"
      "views h c = None" "views h d = None"
    and p: "holds sz h a xs" and q: "holds sz h b ys"
    and sz: "0 < sz" and len: "(length xs + length ys) * unat sz < 2 ^ 64"
    and old: "\<forall>x w. views h x = Some w \<longrightarrow> m_ptr w \<noteq> Some (blk_brk h)"
  shows "\<exists>h1 h2 b1 b2. array_main sz a b c d h = Inr (xs @ ys, h1) \<and> arr_wf h1 \<and>
    blocks h1 = (blocks h)(blk_brk h \<mapsto> b1, Suc (blk_brk h) \<mapsto> b2) \<and> block_holds sz b1 xs \<and>
    holds sz h1 c (xs @ ys) \<and> views h1 d = views h1 c \<and>
    (\<forall>x w. views h1 x = Some w \<longrightarrow> m_ptr w \<noteq> Some (blk_brk h)) \<and>
    array_destroy d h1 = Inr h2 \<and> holds sz h2 c (xs @ ys) \<and> blocks h2 = blocks h1 \<and>
    array_destroy c h2 = Inl Use_After_Free \<and> array_main_end c d h1 = Inl Use_After_Free"
proof -
  from static_plus_spec [OF wf new(1,4,6) p q sz len] obtain h1 v b1 b2 where
    h1: "static_plus sz c a b h = Inr h1" "arr_wf h1" "group_of h1 = (group_of h)(c \<mapsto> brk h)"
      "dtr_of h1 = (dtr_of h)(c \<mapsto> Array_Dtr c)" "views h1 = (views h)(c \<mapsto> v)"
      "m_ptr v = Some (Suc (blk_brk h))" "unat (m_len v) = length xs + length ys"
      "blocks h1 = (blocks h)(blk_brk h \<mapsto> b1, Suc (blk_brk h) \<mapsto> b2)"
      "block_holds sz b1 xs" "block_holds sz b2 (xs @ ys)" by blast
  have gc: "group_of h1 c = Some (brk h)" using h1 by simp
  have hd: "handles h1 d = None"
    using fun_cong [OF h1(4), of d] new by (simp add: dtr_of_def split: option.splits)
  from copy_construct_spec [OF h1(2) new(2) hd new(3) gc, of v] h1(5) obtain h2 where
    h2: "array_copy_construct d c h1 = Inr h2" "arr_wf h2" "group_of h2 = (group_of h1)(d \<mapsto> brk h)"
      "dtr_of h2 = (dtr_of h1)(d := dtr_of h1 c)" "views h2 = (views h1)(d \<mapsto> v)"
      "blocks h2 = blocks h1" "blk_brk h2 = blk_brk h1" by auto
  have held: "holds sz h2 d (xs @ ys)" "holds sz h2 c (xs @ ys)" using h1 h2 by (simp_all add: holds_def)
  have gcd: "group_of h2 d = Some (brk h)" "c \<noteq> d" "group_of h2 c = Some (brk h)"
    using h2(3) gc new(3) by simp_all
  from destroy_copy_spec [OF h2(2) gcd] obtain h3 where
    h3: "array_destroy d h2 = Inr h3" "arr_wf h3" "group_of h3 = (group_of h2)(d := None)"
      "dtr_of h3 = (dtr_of h2)(d := None)" "views h3 = (views h2)(d := None)" "blocks h3 = blocks h2"
    by blast
  have alone: "group_of h3 x \<noteq> Some (brk h)" if "x \<noteq> c" for x
    using that h3(3) h2(3) h1(3) group_fresh [of h x] wf by (simp add: arr_wf_def)
  have "group_of h3 c = Some (brk h)" "dtr_of h3 c = Some (Array_Dtr c)" using h1 h2 h3 new(3) by simp_all
  then have fin: "array_destroy c h3 = Inl Use_After_Free" using destroy_last_faults(1) [OF h3(2) _ alone] by blast
  have "array_main sz a b c d h = Inr (xs @ ys, h2)"
    using h1(1) h2(1) range_for_holds [OF held(1)] by (simp add: array_main_def)
  moreover have "views h2 d = views h2 c" "blocks h2 = (blocks h)(blk_brk h \<mapsto> b1, Suc (blk_brk h) \<mapsto> b2)"
    "\<forall>x w. views h2 x = Some w \<longrightarrow> m_ptr w \<noteq> Some (blk_brk h)" using h1 h2 new(3) old by auto
  moreover have "holds sz h3 c (xs @ ys)" using held(2) h3 new(3) by (simp add: holds_def)
  moreover have "array_main_end c d h2 = Inl Use_After_Free" using h3(1) fin by (simp add: array_main_end_def)
  ultimately show ?thesis using h2(2) held(2) h1(9) h3(1,6) fin by blast
qed

lemma array_main_prints_witness:
  "\<exists>h. array_main 4 1 2 3 4 two_views = Inr ([1, 2, 3, 4, 5 :: nat], h) \<and> array_main_end 3 4 h = Inl Use_After_Free"
proof -
  have old: "\<forall>x w. views two_views x = Some w \<longrightarrow> m_ptr w \<noteq> Some (blk_brk two_views)" by (simp add: two_views_def)
  obtain h where "array_main 4 1 2 3 4 two_views = Inr ([1, 2, 3] @ [4, 5 :: nat], h)" "array_main_end 3 4 h = Inl Use_After_Free"
    using array_main_prints [OF two_views_wf _ _ _ two_views_handles(1,1,2,3) two_views_holds _ _ old] by auto
  then show ?thesis by auto
qed

lemma dangling_cases:
  assumes wf: "arr_wf h" and p: "group_of h p = Some g" "dtr_of h p = Some (Array_Dtr p)" "views h p = Some w"
    and sole: "\<And>r. r \<noteq> p \<Longrightarrow> group_of h r \<noteq> Some g"
    and q: "q \<noteq> 0" "q \<noteq> p" "handles h q = None"
  shows "bind_res (array_copy_construct q p h) (\<lambda>h. bind_res (array_destroy p h) (array_destroy q))
      = Inl Use_After_Free"
    and "bind_res (array_move_construct q p h) (\<lambda>h. bind_res (array_destroy p h) (array_destroy q))
      = Inl Use_After_Free"
proof -
  from copy_construct_spec [OF wf q(1,3) q(2) [symmetric] p(1,3)] obtain h1 where
    h1: "array_copy_construct q p h = Inr h1" "arr_wf h1" "group_of h1 = (group_of h)(q \<mapsto> g)"
      "dtr_of h1 = (dtr_of h)(q := dtr_of h p)" "views h1 = (views h)(q \<mapsto> w)" by blast
  have g1: "group_of h1 p = Some g" "group_of h1 q = Some g" using h1 p q by simp_all
  from destroy_copy_spec [OF h1(2) g1(1) q(2) g1(2)] obtain h2 where
    h2: "array_destroy p h1 = Inr h2" "arr_wf h2" "group_of h2 = (group_of h1)(p := None)"
      "dtr_of h2 = (dtr_of h1)(p := None)" "views h2 = (views h1)(p := None)" by blast
  have "group_of h2 q = Some g" "dtr_of h2 q = Some (Array_Dtr p)" "views h2 p = None"
    using h1 h2 q p by simp_all
  moreover have "group_of h2 r \<noteq> Some g" if "r \<noteq> q" for r using sole that h1(3) h2(3) by simp
  ultimately have "array_destroy q h2 = Inl Use_After_Free" using destroy_last_faults(1) [OF h2(2)] by blast
  then show "bind_res (array_copy_construct q p h) (\<lambda>h. bind_res (array_destroy p h) (array_destroy q))
      = Inl Use_After_Free" using h1(1) h2(1) by simp
next
  obtain sp where sp: "handles h p = Some sp" using p(1) by (auto elim: group_SomeE)
  from move_construct_spec [OF wf q(1,3) q(2) [symmetric] sp p(3)] obtain h1 where
    h1: "array_move_construct q p h = Inr h1" "arr_wf h1" "group_of h1 = (group_of h)(q := group_of h p, p := None)"
      "dtr_of h1 = (dtr_of h)(q := dtr_of h p)" "views h1 = (views h)(q \<mapsto> w)" by blast
  have "dtr_of h1 p \<noteq> None" using h1(4) p q by simp
  then obtain s1 where s1: "handles h1 p = Some s1" by (auto simp: dtr_of_def)
  have "group_of h1 p = None" using h1(3) q by simp
  then have null: "m_cnt s1 = None" using s1 by (simp add: group_of_def)
  from destroy_moved_spec [OF h1(2) s1 null] obtain h2 where
    h2: "array_destroy p h1 = Inr h2" "arr_wf h2" "group_of h2 = (group_of h1)(p := None)"
      "dtr_of h2 = (dtr_of h1)(p := None)" "views h2 = (views h1)(p := None)" by blast
  have "group_of h2 q = Some g" "dtr_of h2 q = Some (Array_Dtr p)" "views h2 p = None"
    using h1 h2 q p by simp_all
  moreover have "group_of h2 r \<noteq> Some g" if "r \<noteq> q" for r using sole that h1(3) h2(3) by simp
  ultimately have "array_destroy q h2 = Inl Use_After_Free" using destroy_last_faults(1) [OF h2(2)] by blast
  then show "bind_res (array_move_construct q p h) (\<lambda>h. bind_res (array_destroy p h) (array_destroy q))
      = Inl Use_After_Free" using h1(1) h2(1) by simp
qed

text \<open>
  A copy must not outlive the array it was made from, nor an array the temporary it was
  moved from. The release callback holds the address of the first array. When \<open>q\<close> is a copy
  of \<open>p\<close> and \<open>p\<close> ends first, or \<open>q\<close> was moved from \<open>p\<close> and \<open>p\<close> ends, the end of \<open>q\<close> reads
  the dead \<open>p\<close>.
\<close>

theorem array_dangling_this:
  assumes "arr_wf h" "group_of h p = Some g" "dtr_of h p = Some (Array_Dtr p)" "views h p = Some w"
    "\<And>r. r \<noteq> p \<Longrightarrow> group_of h r \<noteq> Some g" "q \<noteq> 0" "q \<noteq> p" "handles h q = None"
  shows "bind_res (array_copy_construct q p h) (\<lambda>h. bind_res (array_destroy p h) (array_destroy q))
      = Inl Use_After_Free \<and>
    bind_res (array_move_construct q p h) (\<lambda>h. bind_res (array_destroy p h) (array_destroy q))
      = Inl Use_After_Free"
  using dangling_cases [OF assms] by blast

lemma one_array:
  obtains h v b where "array_from_static 4 3 1 two_views = Inr h" "arr_wf h" "group_of h = [3 \<mapsto> 0]"
    "dtr_of h = [3 \<mapsto> Array_Dtr 3]" "views h = (views two_views)(3 \<mapsto> v)" "m_ptr v = Some 2"
    "blocks h = (blocks two_views)(2 \<mapsto> b)" "block_holds 4 b [1, 2, 3]" "unat (m_len v) = 3" "holds 4 h 2 [4, 5]"
proof -
  have "\<exists>h v b. array_from_static 4 3 1 two_views = Inr h \<and> arr_wf h \<and>
      group_of h = (group_of two_views)(3 \<mapsto> brk two_views) \<and> dtr_of h = (dtr_of two_views)(3 \<mapsto> Array_Dtr 3) \<and>
      views h = (views two_views)(3 \<mapsto> v) \<and> m_ptr v = Some (blk_brk two_views) \<and>
      unat (m_len v) = length [1, 2, 3 :: nat] \<and>
      blocks h = (blocks two_views)(blk_brk two_views \<mapsto> b) \<and> block_holds 4 b [1, 2, 3] \<and>
      blk_brk h = Suc (blk_brk two_views)"
    by (rule from_static_spec [OF two_views_wf _ two_views_handles(1) _ two_views_holds(1)]) simp_all
  moreover have "group_of two_views = Map.empty" "dtr_of two_views = Map.empty" "brk two_views = 0"
    "blk_brk two_views = 2"
    by (simp_all add: two_views_def group_of_def dtr_of_def fun_eq_iff)
  ultimately obtain h v b where h: "array_from_static 4 3 1 two_views = Inr h" "arr_wf h" "group_of h = [3 \<mapsto> 0]"
    "dtr_of h = [3 \<mapsto> Array_Dtr 3]" "views h = (views two_views)(3 \<mapsto> v)" "m_ptr v = Some 2"
    "blocks h = (blocks two_views)(2 \<mapsto> b)" "block_holds 4 b [1, 2, 3]" "unat (m_len v) = 3"
    by auto
  have "holds 4 h 2 [4, 5]"
    by (rule holds_frame [OF two_views_holds(2)]) (use h in \<open>auto simp: two_views_def\<close>)
  with h that show ?thesis by blast
qed

lemma array_dangling_this_witness:
  "\<exists>h. array_from_static 4 3 1 two_views = Inr h \<and>
    bind_res (array_copy_construct 4 3 h) (\<lambda>h. bind_res (array_destroy 3 h) (array_destroy 4)) = Inl Use_After_Free"
proof -
  obtain h v b where h: "array_from_static 4 3 1 two_views = Inr h" "arr_wf h" "group_of h = [3 \<mapsto> 0]"
    "dtr_of h = [3 \<mapsto> Array_Dtr 3]" "views h = (views two_views)(3 \<mapsto> v)" by (rule one_array)
  have "handles h 4 = None" using fun_cong [OF h(4), of 4] by (simp add: dtr_of_def split: option.splits)
  then have "bind_res (array_copy_construct 4 3 h) (\<lambda>h. bind_res (array_destroy 3 h) (array_destroy 4))
      = Inl Use_After_Free"
    using array_dangling_this [OF h(2), of 3 0 v 4] h by simp
  then show ?thesis using h(1) by blast
qed

text \<open>
  Appending to a copy and then ending it deletes the buffer of another array. After
  \<open>q = p; q += t\<close> the array \<open>q\<close> is alone in its group but still has the callback of \<open>p\<close>: what its
  end deletes is the buffer that \<open>p\<close> is using. Ending \<open>p\<close> first reads the view that \<open>p\<close> has just destroyed.
\<close>

theorem array_append_bad_end:
  assumes wf: "arr_wf h" and p: "group_of h p = Some g" "dtr_of h p = Some (Array_Dtr p)" "holds sz h p xs"
    and sole: "\<And>r. r \<noteq> p \<Longrightarrow> group_of h r \<noteq> Some g"
    and q: "q \<noteq> 0" "q \<noteq> p" "handles h q = None" and t: "holds sz h t ys" "t \<noteq> q"
    and sz: "0 < sz" and len: "(length xs + length ys) * unat sz < 2 ^ 64"
  shows "\<exists>h1 h2. array_copy_construct q p h = Inr h1 \<and> array_append sz q t h1 = Inr h2 \<and>
    holds sz h2 q (xs @ ys) \<and> holds sz h2 p xs \<and>
    array_destroy q h2 = Inl Bad_Delete \<and> array_destroy p h2 = Inl Use_After_Free"
proof -
  from p(3) obtain w a b where w: "views h p = Some w" "m_ptr w = Some a" "unat (m_len w) = length xs"
    "blocks h a = Some b" "block_holds sz b xs" by (rule holdsE)
  from copy_construct_spec [OF wf q(1,3) q(2) [symmetric] p(1) w(1)] obtain h1 where
    h1: "array_copy_construct q p h = Inr h1" "arr_wf h1" "group_of h1 = (group_of h)(q \<mapsto> g)"
      "dtr_of h1 = (dtr_of h)(q := dtr_of h p)" "views h1 = (views h)(q \<mapsto> w)" "blocks h1 = blocks h"
      "blk_brk h1 = blk_brk h"
    by blast
  have hq: "holds sz h1 q xs" using h1 w by (simp add: holds_def)
  have ht: "holds sz h1 t ys" by (rule holds_frame [OF t(1)]) (use h1 t in auto)
  have gq: "group_of h1 q = Some g" "group_of h1 p = Some g" using h1 p q by simp_all
  from append_spec [OF h1(2) gq(1) hq ht sz len] obtain h2 v c where
    h2: "array_append sz q t h1 = Inr h2" "arr_wf h2" "dtr_of h2 = dtr_of h1"
      "views h2 = (views h1)(q \<mapsto> v)" "m_ptr v = Some (blk_brk h1)" "unat (m_len v) = length xs + length ys"
      "blocks h2 = (blocks h1)(blk_brk h1 \<mapsto> c)" "block_holds sz c (xs @ ys)"
    and grp: "group_of h2 = (if \<exists>r. r \<noteq> q \<and> group_of h1 r = Some g then (group_of h1)(q \<mapsto> brk h1) else group_of h1)"
    by blast
  have g2: "group_of h2 = (group_of h)(q \<mapsto> brk h1)" using grp gq q h1(3) by auto
  have a: "a \<noteq> blk_brk h1" using arr_wf_block [OF wf w(4)] h1(7) by simp
  have hold: "holds sz h2 q (xs @ ys)" "holds sz h2 p xs"
    using h2 h1 w a q by (simp_all add: holds_def)
  have nb: "group_of h2 r \<noteq> Some (brk h1)" if "r \<noteq> q" for r
    using that g2 group_fresh [of h1 r] h1(2,3) by (simp add: arr_wf_def)
  have "brk h1 \<noteq> g" using group_fresh [of h1 p] h1(2) gq(2) by (auto simp: arr_wf_def)
  then have g3: "group_of h2 r \<noteq> Some g" if "r \<noteq> p" for r using that g2 sole by simp
  have q2: "group_of h2 q = Some (brk h1)" "dtr_of h2 q = Some (Array_Dtr p)" "views h2 p = Some w"
    "blocks h2 a \<noteq> None" "group_of h2 p = Some g" "dtr_of h2 p = Some (Array_Dtr p)"
    using g2 h2 h1 p q w a by simp_all
  have "array_destroy q h2 = Inl Bad_Delete"
    using destroy_last_faults(2) [OF h2(2) q2(1) nb q2(2) q(2) [symmetric] q2(3) w(2)] q2(4) by simp
  moreover have "array_destroy p h2 = Inl Use_After_Free"
    using destroy_last_faults(1) [OF h2(2) q2(5) g3 q2(6)] by simp
  ultimately show ?thesis using h1(1) h2(1) hold by blast
qed

lemma array_append_bad_end_witness:
  "\<exists>h h1 h2. array_from_static 4 3 1 two_views = Inr h \<and> array_copy_construct 4 3 h = Inr h1 \<and>
    array_append 4 4 2 h1 = Inr h2 \<and> holds 4 h2 4 [1, 2, 3, 4, 5 :: nat] \<and> array_destroy 4 h2 = Inl Bad_Delete"
proof -
  obtain h v b where h: "array_from_static 4 3 1 two_views = Inr h" "arr_wf h" "group_of h = [3 \<mapsto> 0]"
    "dtr_of h = [3 \<mapsto> Array_Dtr 3]" "views h = (views two_views)(3 \<mapsto> v)" "m_ptr v = Some 2"
    "blocks h = (blocks two_views)(2 \<mapsto> b)" "block_holds 4 b [1, 2, 3]" "unat (m_len v) = 3"
    and t: "holds 4 h 2 [4, 5]" by (rule one_array)
  have "handles h 4 = None" using fun_cong [OF h(4), of 4] by (simp add: dtr_of_def split: option.splits)
  moreover have "holds 4 h 3 [1, 2, 3]" using h by (simp add: holds_def)
  ultimately have "\<exists>h1 h2. array_copy_construct 4 3 h = Inr h1 \<and> array_append 4 4 2 h1 = Inr h2 \<and>
      holds 4 h2 4 ([1, 2, 3] @ [4, 5]) \<and> holds 4 h2 3 [1, 2, 3] \<and>
      array_destroy 4 h2 = Inl Bad_Delete \<and> array_destroy 3 h2 = Inl Use_After_Free"
    by (intro array_append_bad_end [OF h(2), of 3 0 4 "[1, 2, 3]" 4 2 "[4, 5]"]) (use h t in simp_all)
  then show ?thesis using h(1) by auto
qed

end
