(* ===== verification/Array_Write.thy ===== *)
theory Array_Write
  imports Array_Cow
begin

text \<open>
  Assignments to the elements of arrays: \<open>operator[]\<close> of \<^verbatim>\<open>src/Array.h\<close> returns a reference into the block, so
  \<open>a[i] = x\<close> writes the block that the array or view points to, whoever else points to it. What other
  arrays and views hold after such a write, before and after an append.
\<close>

section \<open>The write\<close>

text \<open>The assignment operator of the element's type needs an element that was constructed.\<close>

definition elem_assign ::
  "size_t \<Rightarrow> addr option \<Rightarrow> size_t \<Rightarrow> 'v \<Rightarrow> ('v, 'm) arr_heap_scheme \<Rightarrow> fault + ('v, 'm) arr_heap_scheme" where
  "elem_assign sz ptr i x h = bind_res (get_block ptr h) (\<lambda>b.
     if (unat i + 1) * unat sz \<le> unat (block_bytes b)
     then (case elems b (unat i) of None \<Rightarrow> Inl Uninit_Read
       | Some _ \<Rightarrow> Inr (h\<lparr>blocks := (blocks h)(the ptr \<mapsto> b\<lparr>elems := (elems b)(unat i \<mapsto> x)\<rparr>)\<rparr>))
     else Inl Out_Of_Bounds)"

definition static_assign ::
  "size_t \<Rightarrow> oid \<Rightarrow> size_t \<Rightarrow> 'v \<Rightarrow> ('v, 'm) arr_heap_scheme \<Rightarrow> fault + ('v, 'm) arr_heap_scheme" where
  "static_assign sz p n x h = bind_res (get_view p h) (\<lambda>v. elem_assign sz (m_ptr v) n x h)"

text \<open>Writing where the array's range-based loop would read: \<open>for (auto& x : a) x = f(x)\<close>, the first \<open>n\<close> rounds.\<close>

primrec update_elems ::
  "size_t \<Rightarrow> oid \<Rightarrow> ('v \<Rightarrow> 'v) \<Rightarrow> nat \<Rightarrow> ('v, 'm) arr_heap_scheme \<Rightarrow> fault + ('v, 'm) arr_heap_scheme" where
  "update_elems sz p f 0 h = Inr h"
| "update_elems sz p f (Suc n) h = bind_res (update_elems sz p f n h) (\<lambda>h.
     bind_res (static_index sz p (of_nat n) h) (\<lambda>x. static_assign sz p (of_nat n) (f x) h))"

section \<open>What a write changes\<close>

definition same_block :: "('v, 'm) arr_heap_scheme \<Rightarrow> oid \<Rightarrow> oid \<Rightarrow> bool" where
  "same_block h p q \<longleftrightarrow> (\<exists>v w. views h p = Some v \<and> views h q = Some w \<and> m_ptr v = m_ptr w)"

lemma block_holds_update:
  assumes "block_holds sz b xs" "i < length xs"
  shows "block_holds sz (b\<lparr>elems := (elems b)(i \<mapsto> x)\<rparr>) (xs[i := x])"
  using assms by (simp add: block_holds_def nth_list_update)

lemma static_assign_exec:
  assumes "holds sz h p xs" "i < length xs" "views h p = Some v" "m_ptr v = Some a" "blocks h a = Some b"
  shows "static_assign sz p (of_nat i) x h =
    Inr (h\<lparr>blocks := (blocks h)(a \<mapsto> b\<lparr>elems := (elems b)(i \<mapsto> x)\<rparr>)\<rparr>)"
proof -
  have b: "block_holds sz b xs" using assms by (auto elim: holdsE)
  have i: "unat (of_nat i :: size_t) = i"
    using assms(2) holds_length [OF assms(1)] by (intro unat_of_nat_64) simp
  have "(i + 1) * unat sz \<le> length xs * unat sz" using assms(2) by (intro mult_le_mono1) simp
  then have "(i + 1) * unat sz \<le> unat (block_bytes b)" using b by (simp add: block_holds_def)
  moreover have "elems b i = Some (xs ! i)" using b assms(2) by (simp add: block_holds_def)
  ultimately show ?thesis
    using assms(3-5) i by (simp add: static_assign_def get_view_def elem_assign_def get_block_def deref_def)
qed

text \<open>
  A write through \<open>p\<close> succeeds, leaves the arrays, groups and views as they are, is seen by everything that points to the same block,
  and by nothing else.
\<close>

lemma static_assign_spec:
  assumes p: "holds sz h p xs" and i: "i < length xs"
  shows "\<exists>h'. static_assign sz p (of_nat i) x h = Inr h' \<and> views h' = views h \<and> group_of h' = group_of h \<and>
    holds sz h' p (xs[i := x]) \<and>
    (\<forall>q ys. holds sz h q ys \<and> same_block h p q \<and> i < length ys \<longrightarrow> holds sz h' q (ys[i := x])) \<and>
    (\<forall>q ys. holds sz h q ys \<and> \<not> same_block h p q \<longrightarrow> holds sz h' q ys)"
proof -
  obtain v a b where v: "views h p = Some v" "m_ptr v = Some a" "unat (m_len v) = length xs" "blocks h a = Some b"
    "block_holds sz b xs" by (rule holdsE [OF p])
  define h' where "h' = h\<lparr>blocks := (blocks h)(a \<mapsto> b\<lparr>elems := (elems b)(i \<mapsto> x)\<rparr>)\<rparr>"
  have e: "static_assign sz p (of_nat i) x h = Inr h'"
    unfolding h'_def by (rule static_assign_exec [OF p i v(1,2,4)])
  have f: "views h' = views h" "group_of h' = group_of h" by (simp_all add: h'_def group_of_def)
  have seen: "holds sz h' q (ys[i := x])" if q: "holds sz h q ys" "same_block h p q" "i < length ys" for q ys
  proof -
    obtain w c where w: "views h q = Some w" "m_ptr w = Some a" "unat (m_len w) = length ys" "blocks h a = Some c"
      "block_holds sz c ys" using q(1,2) v by (auto simp: same_block_def elim!: holdsE)
    then show ?thesis using block_holds_update [OF w(5) q(3), of x] v(4) by (simp add: holds_def h'_def)
  qed
  have "holds sz h' q ys" if q: "holds sz h q ys" "\<not> same_block h p q" for q ys
  proof -
    obtain w c d where w: "views h q = Some w" "m_ptr w = Some c" "unat (m_len w) = length ys" "blocks h c = Some d"
      "block_holds sz d ys" by (rule holdsE [OF q(1)])
    moreover have "c \<noteq> a" using q(2) v(1,2) w(1,2) by (auto simp: same_block_def)
    ultimately show ?thesis by (simp add: holds_def h'_def)
  qed
  moreover have "same_block h p p" using v(1) by (simp add: same_block_def)
  ultimately show ?thesis using e f seen p i by blast
qed

text \<open>The loop over all elements.\<close>

lemma update_elems_spec:
  assumes p: "holds sz h p xs" and n: "n \<le> length xs"
  shows "\<exists>h'. update_elems sz p f n h = Inr h' \<and> views h' = views h \<and> group_of h' = group_of h \<and>
    holds sz h' p (map f (take n xs) @ drop n xs) \<and>
    (\<forall>q. holds sz h q xs \<and> same_block h p q \<longrightarrow> holds sz h' q (map f (take n xs) @ drop n xs))"
  using n
proof (induction n)
  case 0
  then show ?case using p by simp
next
  case (Suc n)
  then obtain h1 where h1: "update_elems sz p f n h = Inr h1" "views h1 = views h" "group_of h1 = group_of h"
    "holds sz h1 p (map f (take n xs) @ drop n xs)"
    "\<And>q. holds sz h q xs \<Longrightarrow> same_block h p q \<Longrightarrow> holds sz h1 q (map f (take n xs) @ drop n xs)" by auto
  let ?ys = "map f (take n xs) @ drop n xs"
  have n: "n < length ?ys" "?ys ! n = xs ! n" using Suc.prems by (simp_all add: nth_append)
  have "map f (take n xs) @ drop n xs = map f (take n xs) @ (xs ! n) # drop (Suc n) xs"
    using Suc.prems by (simp add: Cons_nth_drop_Suc)
  then have u: "?ys[n := f (xs ! n)] = map f (take (Suc n) xs) @ drop (Suc n) xs"
    using Suc.prems by (simp add: list_update_append take_Suc_conv_app_nth)
  have idx: "static_index sz p (of_nat n) h1 = Inr (xs ! n)" using index_holds [OF h1(4) n(1)] n(2) by simp
  obtain h2 where h2: "static_assign sz p (of_nat n) (f (xs ! n)) h1 = Inr h2" "views h2 = views h1" "group_of h2 = group_of h1"
    "holds sz h2 p (?ys[n := f (xs ! n)])"
    "\<forall>q ys. holds sz h1 q ys \<and> same_block h1 p q \<and> n < length ys \<longrightarrow> holds sz h2 q (ys[n := f (xs ! n)])"
    using static_assign_spec [OF h1(4) n(1), of "f (xs ! n)"] by blast
  have "same_block h1 p q = same_block h p q" for q by (simp add: same_block_def h1(2))
  then have "holds sz h2 q (?ys[n := f (xs ! n)])" if "holds sz h q xs" "same_block h p q" for q
    using h2(5) h1(5) [OF that] that(2) n(1) by blast
  then show ?case using h1 h2 idx unfolding u by simp
qed

section \<open>Copies and writes\<close>

text \<open>
  C13: a copy of an array shares its elements, not their values: after \<open>q = p\<close> an assignment \<open>q[i] = x\<close> changes \<open>p\<close> as well, the
  copy-on-write of \<open>Shared\<close> is only in \<open>operator+=\<close>. After \<open>q += t\<close> the array \<open>q\<close> has a block of its own: an assignment to one of its
  elements leaves \<open>p\<close> and \<open>t\<close> as they were.
\<close>

theorem array_write_shared:
  assumes wf: "arr_wf h" and p: "group_of h p = Some g" "holds sz h p xs"
    and q: "q \<noteq> 0" "q \<noteq> p" "handles h q = None" and t: "holds sz h t ys" "t \<noteq> q"
    and sz: "0 < sz" and len: "(length xs + length ys) * unat sz < 2 ^ 64"
  shows "\<exists>h1 h2. array_copy_construct q p h = Inr h1 \<and> array_append sz q t h1 = Inr h2 \<and>
    (\<forall>i < length xs. \<exists>h3. static_assign sz q (of_nat i) x h1 = Inr h3 \<and>
       holds sz h3 q (xs[i := x]) \<and> holds sz h3 p (xs[i := x])) \<and>
    (\<forall>i < length xs + length ys. \<exists>h3. static_assign sz q (of_nat i) x h2 = Inr h3 \<and>
       holds sz h3 q ((xs @ ys)[i := x]) \<and> holds sz h3 p xs \<and> holds sz h3 t ys)"
proof -
  obtain w a b where w: "views h p = Some w" "m_ptr w = Some a" "unat (m_len w) = length xs"
    "blocks h a = Some b" "block_holds sz b xs" by (rule holdsE [OF p(2)])
  obtain tw ta tb where tw: "views h t = Some tw" "m_ptr tw = Some ta" "unat (m_len tw) = length ys"
    "blocks h ta = Some tb" "block_holds sz tb ys" by (rule holdsE [OF t(1)])
  from copy_construct_spec [OF wf q(1,3) q(2) [symmetric] p(1) w(1)] obtain h1 where
    h1: "array_copy_construct q p h = Inr h1" "arr_wf h1" "group_of h1 = (group_of h)(q \<mapsto> g)"
      "views h1 = (views h)(q \<mapsto> w)" "blocks h1 = blocks h" "blk_brk h1 = blk_brk h" by blast
  have hq: "holds sz h1 q xs" "holds sz h1 p xs" "holds sz h1 t ys" "same_block h1 q p"
    using h1 w tw q(2) t(2) by (simp_all add: holds_def same_block_def)
  have gq: "group_of h1 q = Some g" using h1(3) by simp
  from append_spec [OF h1(2) gq hq(1,3) sz len] obtain h2 v c where
    h2: "array_append sz q t h1 = Inr h2" "views h2 = (views h1)(q \<mapsto> v)" "m_ptr v = Some (blk_brk h1)"
      "unat (m_len v) = length xs + length ys" "blocks h2 = (blocks h1)(blk_brk h1 \<mapsto> c)" "block_holds sz c (xs @ ys)"
    by blast
  have fresh: "a \<noteq> blk_brk h1" "ta \<noteq> blk_brk h1" using arr_wf_block [OF wf w(4)] arr_wf_block [OF wf tw(4)] h1(6) by simp_all
  have h2q: "holds sz h2 q (xs @ ys)" "holds sz h2 p xs" "holds sz h2 t ys"
    using h2 h1 w tw fresh q(2) t(2) by (simp_all add: holds_def)
  have apart: "\<not> same_block h2 q p" "\<not> same_block h2 q t"
    using h2(2,3) h1(4) w(1,2) tw(1,2) fresh q(2) t(2) by (auto simp: same_block_def)
  have "\<exists>h3. static_assign sz q (of_nat i) x h1 = Inr h3 \<and> holds sz h3 q (xs[i := x]) \<and> holds sz h3 p (xs[i := x])"
    if "i < length xs" for i
    using static_assign_spec [OF hq(1) that, of x] hq(2,4) that by blast
  moreover have "\<exists>h3. static_assign sz q (of_nat i) x h2 = Inr h3 \<and>
       holds sz h3 q ((xs @ ys)[i := x]) \<and> holds sz h3 p xs \<and> holds sz h3 t ys" if "i < length xs + length ys" for i
  proof -
    have "i < length (xs @ ys)" using that by simp
    from static_assign_spec [OF h2q(1) this, of x] show ?thesis using h2q(2,3) apart by blast
  qed
  ultimately show ?thesis using h1(1) h2(1) by blast
qed

theorem array_write_shared_witness:
  "\<exists>h h1 h3. array_from_static 4 3 1 two_views = Inr h \<and> array_copy_construct 4 3 h = Inr h1 \<and>
    static_assign 4 4 (of_nat 0) 9 h1 = Inr h3 \<and> holds 4 h3 3 [9, 2, 3 :: nat]"
proof -
  obtain h v b where h: "array_from_static 4 3 1 two_views = Inr h" "arr_wf h" "group_of h = [3 \<mapsto> 0]"
    "dtr_of h = [3 \<mapsto> Array_Dtr 3]" "views h = (views two_views)(3 \<mapsto> v)" "m_ptr v = Some 2"
    "blocks h = (blocks two_views)(2 \<mapsto> b)" "block_holds 4 b [1, 2, 3]" "unat (m_len v) = 3"
    and t: "holds 4 h 2 [4, 5]" by (rule one_array)
  have "handles h 4 = None" using fun_cong [OF h(4), of 4] by (simp add: dtr_of_def split: option.splits)
  moreover have "holds 4 h 3 [1, 2, 3]" using h by (simp add: holds_def)
  moreover have "group_of h 3 = Some 0" using h(3) by simp
  moreover have "(4 :: oid) \<noteq> 0" "(4 :: oid) \<noteq> 3" "(2 :: oid) \<noteq> 4" "(0 :: size_t) < 4"
    "(length [1, 2, 3 :: nat] + length [4, 5 :: nat]) * unat (4 :: size_t) < 2 ^ 64" by simp_all
  ultimately obtain h1 where h1: "array_copy_construct 4 3 h = Inr h1"
    "\<forall>i < length [1, 2, 3 :: nat]. \<exists>h3. static_assign 4 4 (of_nat i) 9 h1 = Inr h3 \<and>
       holds 4 h3 4 ([1, 2, 3][i := 9]) \<and> holds 4 h3 3 ([1, 2, 3][i := 9])"
    using array_write_shared [OF h(2), of 3 0 4 "[1, 2, 3]" 4 2 "[4, 5]" 9] t by blast
  have "0 < length [1, 2, 3 :: nat]" by simp
  then obtain h3 where "static_assign 4 4 (of_nat 0) 9 h1 = Inr h3" "holds 4 h3 3 ([1, 2, 3][0 := 9])"
    using h1(2) by blast
  then show ?thesis using h(1) h1(1) by auto
qed

end
