(* ===== verification/Shared_Pointer.thy ===== *)
theory Shared_Pointer
  imports Shared_Ref
begin

text \<open>
  The owning pointer at the end of \<^verbatim>\<open>src/Shared.h\<close>: \<^verbatim>\<open>Pointer<T>\<close> derives from \<^verbatim>\<open>Shared\<close>, allocates its
  object, and gives \<^verbatim>\<open>Shared\<close> the lambda \<^verbatim>\<open>[this]{ if (&this->m_ref) delete &this->m_ref; }\<close>. Its copy and move
  constructors are the defaults: they copy the reference, and \<^verbatim>\<open>Shared\<close> copies the lambda with the
  captured \<^verbatim>\<open>this\<close>. The value \<open>Pointer_Dtr o\<close> is that lambda with \<open>this = o\<close>. A reference is never null,
  so the test of the lambda always succeeds. Assignment is deleted, because of the reference.
\<close>

section \<open>The class\<close>

datatype pointer_dtr = Pointer_Dtr oid

record 'v ptr_heap = "pointer_dtr rc_heap" +
  m_ref :: "oid \<rightharpoonup> addr"
  objects :: "addr \<rightharpoonup> 'v"
  obj_brk :: addr

definition get_ref :: "oid \<Rightarrow> ('v, 'm) ptr_heap_scheme \<Rightarrow> fault + addr" where
  "get_ref p h = (case m_ref h p of None \<Rightarrow> Inl Use_After_Free | Some a \<Rightarrow> Inr a)"

definition set_ref :: "oid \<Rightarrow> addr \<Rightarrow> ('v, 'm) ptr_heap_scheme \<Rightarrow> ('v, 'm) ptr_heap_scheme" where
  "set_ref p a h = h\<lparr>m_ref := (m_ref h)(p \<mapsto> a)\<rparr>"

fun pointer_release :: "pointer_dtr \<Rightarrow> ('v, 'm) ptr_heap_scheme \<Rightarrow> fault + ('v, 'm) ptr_heap_scheme" where
  "pointer_release (Pointer_Dtr this) h = bind_res (get_ref this h) (\<lambda>a.
     bind_res (delete (objects h) (Some a)) (\<lambda>os. Inr (h\<lparr>objects := os\<rparr>)))"

definition pointer_new :: "oid \<Rightarrow> 'v \<Rightarrow> ('v, 'm) ptr_heap_scheme \<Rightarrow> fault + ('v, 'm) ptr_heap_scheme" where
  "pointer_new p v h = bind_res (shared_construct p (Pointer_Dtr p) h) (\<lambda>h. let a = obj_brk h in
     Inr (set_ref p a (h\<lparr>objects := (objects h)(a \<mapsto> v), obj_brk := Suc a\<rparr>)))"

definition pointer_copy :: "oid \<Rightarrow> oid \<Rightarrow> ('v, 'm) ptr_heap_scheme \<Rightarrow> fault + ('v, 'm) ptr_heap_scheme" where
  "pointer_copy p q h = bind_res (shared_copy_construct pointer_release p q h) (\<lambda>h.
     bind_res (get_ref q h) (\<lambda>a. Inr (set_ref p a h)))"

definition pointer_move :: "oid \<Rightarrow> oid \<Rightarrow> ('v, 'm) ptr_heap_scheme \<Rightarrow> fault + ('v, 'm) ptr_heap_scheme" where
  "pointer_move p q h = bind_res (shared_move_construct pointer_release p q h) (\<lambda>h.
     bind_res (get_ref q h) (\<lambda>a. Inr (set_ref p a h)))"

text \<open>\<open>*p\<close> for reading and \<open>*p = v\<close>; \<open>operator->\<close> returns the same reference.\<close>

definition pointer_read :: "oid \<Rightarrow> ('v, 'm) ptr_heap_scheme \<Rightarrow> fault + 'v" where
  "pointer_read p h = bind_res (get_ref p h) (\<lambda>a. deref (objects h) (Some a))"

definition pointer_write :: "oid \<Rightarrow> 'v \<Rightarrow> ('v, 'm) ptr_heap_scheme \<Rightarrow> fault + ('v, 'm) ptr_heap_scheme" where
  "pointer_write p v h = bind_res (get_ref p h) (\<lambda>a.
     bind_res (store (objects h) (Some a) v) (\<lambda>os. Inr (h\<lparr>objects := os\<rparr>)))"

definition pointer_destroy :: "oid \<Rightarrow> ('v, 'm) ptr_heap_scheme \<Rightarrow> fault + ('v, 'm) ptr_heap_scheme" where
  "pointer_destroy p h = bind_res (shared_destroy pointer_release p h) (\<lambda>h.
     Inr (h\<lparr>m_ref := (m_ref h)(p := None)\<rparr>))"

lemma pointer_release_frame: "pointer_release d h = Inr h' \<Longrightarrow> rc_frame h h'"
  by (cases d) (auto simp: rc_frame_def bind_res_Inr_iff split: if_splits)

interpretation pointers: release_callback pointer_release
  by unfold_locales (rule pointer_release_frame)

section \<open>Runs of pointers\<close>

datatype 'v ptr_op =
    New oid 'v
  | Copy oid oid
  | Move oid oid
  | Assign oid 'v
  | End oid

fun ptr_exec :: "'v ptr_op \<Rightarrow> ('v, 'm) ptr_heap_scheme \<Rightarrow> fault + ('v, 'm) ptr_heap_scheme" where
  "ptr_exec (New p v) = pointer_new p v"
| "ptr_exec (Copy p q) = pointer_copy p q"
| "ptr_exec (Move p q) = pointer_move p q"
| "ptr_exec (Assign p v) = pointer_write p v"
| "ptr_exec (End p) = pointer_destroy p"

fun ptr_run :: "'v ptr_op list \<Rightarrow> ('v, 'm) ptr_heap_scheme \<Rightarrow> fault + ('v, 'm) ptr_heap_scheme" where
  "ptr_run [] h = Inr h"
| "ptr_run (x # xs) h = bind_res (ptr_exec x h) (ptr_run xs)"

text \<open>
  What a caller must respect: objects are made where there is none, a pointer that was moved from is
  not used, and a pointer is not ended while another one in use carries the callback that captured it.
\<close>

definition outlived :: "oid \<Rightarrow> ('v, 'm) ptr_heap_scheme \<Rightarrow> bool" where
  "outlived p h \<longleftrightarrow> (\<exists>q. q \<noteq> p \<and> group_of h q \<noteq> None \<and> dtr_of h q = Some (Pointer_Dtr p))"

fun ptr_legal :: "'v ptr_op \<Rightarrow> ('v, 'm) ptr_heap_scheme \<Rightarrow> bool" where
  "ptr_legal (New p v) h \<longleftrightarrow> p \<noteq> 0 \<and> handles h p = None"
| "ptr_legal (Copy p q) h \<longleftrightarrow> p \<noteq> 0 \<and> handles h p = None \<and> group_of h q \<noteq> None"
| "ptr_legal (Move p q) h \<longleftrightarrow> p \<noteq> 0 \<and> handles h p = None \<and> group_of h q \<noteq> None"
| "ptr_legal (Assign p v) h \<longleftrightarrow> group_of h p \<noteq> None"
| "ptr_legal (End p) h \<longleftrightarrow> handles h p \<noteq> None \<and> \<not> outlived p h"

fun ptr_legal_run :: "'v ptr_op list \<Rightarrow> ('v, 'm) ptr_heap_scheme \<Rightarrow> bool" where
  "ptr_legal_run [] h \<longleftrightarrow> True"
| "ptr_legal_run (x # xs) h \<longleftrightarrow> ptr_legal x h \<and> (case ptr_exec x h of Inl _ \<Rightarrow> True | Inr h' \<Rightarrow> ptr_legal_run xs h')"

definition empty_ptrs :: "'v ptr_heap" where
  "empty_ptrs = \<lparr>cnts = Map.empty, cows = Map.empty, handles = Map.empty, brk = 0,
     m_ref = Map.empty, objects = Map.empty, obj_brk = 0\<rparr>"

text \<open>
  The invariant: every object is that of exactly one group, every pointer of a group refers to its
  object, and the pointer that its callback captured is alive and refers to the same object.
\<close>

definition ptr_shape ::
  "(oid \<rightharpoonup> addr) \<Rightarrow> (oid \<rightharpoonup> pointer_dtr) \<Rightarrow> (oid \<rightharpoonup> addr) \<Rightarrow> (addr \<rightharpoonup> 'v) \<Rightarrow> addr \<Rightarrow> bool" where
  "ptr_shape G D R M b \<longleftrightarrow>
     (\<forall>p g. G p = Some g \<longrightarrow> (\<exists>a u v d. R p = Some a \<and> M a = Some v \<and>
        D p = Some (Pointer_Dtr u) \<and> D u = Some d \<and> R u = Some a)) \<and>
     (\<forall>p g q k. G p = Some g \<longrightarrow> G q = Some k \<longrightarrow> (k = g) = (R q = R p)) \<and>
     (\<forall>a v. M a = Some v \<longrightarrow> a < b \<and> (\<exists>p g. G p = Some g \<and> R p = Some a))"

definition ptr_inv :: "('v, 'm) ptr_heap_scheme \<Rightarrow> bool" where
  "ptr_inv h \<longleftrightarrow> rc_wf h \<and> ptr_shape (group_of h) (dtr_of h) (m_ref h) (objects h) (obj_brk h)"

lemma ptr_more:
  assumes "rc_heap.more h = rc_heap.more h'"
  shows "m_ref h = m_ref h'" "objects h = objects h'" "obj_brk h = obj_brk h'"
  using assms by (cases h; cases h'; simp)+

lemma ptr_wf_simps [simp]:
  "rc_wf (h\<lparr>objects := os\<rparr>) = rc_wf h" "rc_wf (h\<lparr>obj_brk := b\<rparr>) = rc_wf h" "rc_wf (h\<lparr>m_ref := r\<rparr>) = rc_wf h"
  by (rule rc_wf_cong; simp)+

lemma ptr_simps [simp]:
  "group_of (h\<lparr>objects := os\<rparr>) = group_of h" "dtr_of (h\<lparr>objects := os\<rparr>) = dtr_of h"
  "group_of (h\<lparr>obj_brk := b\<rparr>) = group_of h" "dtr_of (h\<lparr>obj_brk := b\<rparr>) = dtr_of h"
  "group_of (h\<lparr>m_ref := r\<rparr>) = group_of h" "dtr_of (h\<lparr>m_ref := r\<rparr>) = dtr_of h"
  by (simp_all add: group_of_def dtr_of_def fun_eq_iff)

lemma set_ref_simps [simp]:
  "group_of (set_ref p a h) = group_of h" "dtr_of (set_ref p a h) = dtr_of h" "rc_wf (set_ref p a h) = rc_wf h"
  "m_ref (set_ref p a h) = (m_ref h)(p \<mapsto> a)" "objects (set_ref p a h) = objects h" "obj_brk (set_ref p a h) = obj_brk h"
  by (simp_all add: set_ref_def)

lemma dtr_handle: "dtr_of h p = None \<longleftrightarrow> handles h p = None"
  by (simp add: dtr_of_def)

lemma group_alive: "group_of h p = Some g \<Longrightarrow> dtr_of h p \<noteq> None"
  by (auto simp: group_of_def dtr_of_def split: option.splits)

lemma shapeD:
  assumes "ptr_shape G D R M b"
  shows "G p = Some g \<Longrightarrow> \<exists>a u v d. R p = Some a \<and> M a = Some v \<and> D p = Some (Pointer_Dtr u) \<and> D u = Some d \<and> R u = Some a"
    "G p = Some g \<Longrightarrow> G q = Some k \<Longrightarrow> (k = g) = (R q = R p)"
    "M a = Some v \<Longrightarrow> a < b \<and> (\<exists>p g. G p = Some g \<and> R p = Some a)"
  using assms unfolding ptr_shape_def by blast+

lemma shapeI:
  assumes "\<And>p g. G p = Some g \<Longrightarrow> \<exists>a u v d. R p = Some a \<and> M a = Some v \<and> D p = Some (Pointer_Dtr u) \<and> D u = Some d \<and> R u = Some a"
    "\<And>p g q k. G p = Some g \<Longrightarrow> G q = Some k \<Longrightarrow> (k = g) = (R q = R p)"
    "\<And>a v. M a = Some v \<Longrightarrow> a < b \<and> (\<exists>p g. G p = Some g \<and> R p = Some a)"
  shows "ptr_shape G D R M b"
  unfolding ptr_shape_def using assms by simp

lemma shape_new:
  assumes s: "ptr_shape G D R M b" and g: "\<And>q. G q \<noteq> Some g" and p: "D p = None"
  shows "ptr_shape (G(p \<mapsto> g)) (D(p \<mapsto> Pointer_Dtr p)) (R(p \<mapsto> b)) (M(b \<mapsto> v)) (Suc b)"
proof -
  have gp: "G p = None" using shapeD(1) [OF s, of p] p by (cases "G p") auto
  have below: "R q \<noteq> Some b" if "G q = Some k" for q k
    using shapeD(1) [OF s that] shapeD(3) [OF s, of b] by force
  show ?thesis
  proof (rule shapeI, goal_cases)
    case (1 q k)
    show ?case
    proof (cases "q = p")
      case False
      then obtain a u w d where a: "R q = Some a" "M a = Some w" "D q = Some (Pointer_Dtr u)" "D u = Some d" "R u = Some a"
        using 1 shapeD(1) [OF s, of q k] by auto
      then have "u \<noteq> p" "a \<noteq> b" using p below [of q k] 1 False by auto
      then show ?thesis using a False by (intro exI [of _ a] exI [of _ u] exI [of _ w] exI [of _ d]) simp
    qed auto
  next
    case (2 q k r l)
    then show ?case using g below [of q k] below [of r l] shapeD(2) [OF s, of q k r l] by (auto split: if_splits)
  next
    case (3 a w)
    show ?case
    proof (cases "a = b")
      case False
      then obtain q k where "a < b" "G q = Some k" "R q = Some a" using 3 shapeD(3) [OF s, of a w] by auto
      then show ?thesis using gp by (intro conjI exI [of _ q] exI [of _ k]) auto
    qed auto
  qed
qed

lemma shape_copy:
  assumes s: "ptr_shape G D R M b" and q: "G q = Some g" "R q = Some a" and p: "D p = None"
  shows "ptr_shape (G(p \<mapsto> g)) (D(p := D q)) (R(p \<mapsto> a)) M b"
proof -
  have gp: "G p = None" using shapeD(1) [OF s, of p] p by (cases "G p") auto
  have same: "(k = g) = (R r = Some a)" if "G r = Some k" for r k using shapeD(2) [OF s q(1) that] q(2) by simp
  show ?thesis
  proof (rule shapeI, goal_cases)
    case (1 r k)
    define r' where "r' = (if r = p then q else r)"
    have "G r' = Some (if r = p then g else k)" using 1 q by (auto simp: r'_def split: if_splits)
    then obtain c u w d where c: "R r' = Some c" "M c = Some w" "D r' = Some (Pointer_Dtr u)" "D u = Some d" "R u = Some c"
      using shapeD(1) [OF s] by blast
    then have "u \<noteq> p" using p by auto
    then show ?case using c q by (intro exI [of _ c] exI [of _ u] exI [of _ w] exI [of _ d]) (auto simp: r'_def split: if_splits)
  next
    case (2 r k t l)
    then show ?case using same [of r k] same [of t l] shapeD(2) [OF s, of r k t l] by (auto split: if_splits)
  next
    case (3 c w)
    then obtain r k where "c < b" "G r = Some k" "R r = Some c" using shapeD(3) [OF s] by blast
    then show ?case using gp by (intro conjI exI [of _ r] exI [of _ k]) auto
  qed
qed

lemma shape_move:
  assumes s: "ptr_shape G D R M b" and q: "G q = Some g" "R q = Some a" and p: "D p = None"
  shows "ptr_shape (G(p \<mapsto> g, q := None)) (D(p := D q)) (R(p \<mapsto> a)) M b"
proof -
  have c: "ptr_shape (G(p \<mapsto> g)) (D(p := D q)) (R(p \<mapsto> a)) M b" by (rule shape_copy [OF s q p])
  have qp: "q \<noteq> p" using shapeD(1) [OF s q(1)] p by auto
  show ?thesis
  proof (rule shapeI, goal_cases)
    case (1 r k)
    then show ?case using shapeD(1) [OF c, of r k] by (auto split: if_splits)
  next
    case (2 r k t l)
    then show ?case using shapeD(2) [OF c, of r k t l] by (auto split: if_splits)
  next
    case (3 d w)
    then obtain r k where r: "d < b" "(G(p \<mapsto> g)) r = Some k" "(R(p \<mapsto> a)) r = Some d" using shapeD(3) [OF c] by blast
    show ?case
    proof (cases "r = q")
      case True
      then have "d = a" using r(3) qp q(2) by simp
      then show ?thesis using r(1) qp by (intro conjI exI [of _ p] exI [of _ g]) simp_all
    next
      case False
      then show ?thesis using r by (intro conjI exI [of _ r] exI [of _ k]) simp_all
    qed
  qed
qed

lemma shape_end:
  assumes s: "ptr_shape G D R M b" and u: "\<And>q. q \<noteq> p \<Longrightarrow> G q \<noteq> None \<Longrightarrow> D q \<noteq> Some (Pointer_Dtr p)"
    and o: "M' = (if G p \<noteq> None \<and> (\<forall>q. q \<noteq> p \<longrightarrow> G q \<noteq> G p) then M(the (R p) := None) else M)"
  shows "ptr_shape (G(p := None)) (D(p := None)) (R(p := None)) M' b"
proof (rule shapeI, goal_cases)
  case (1 q k)
  then have q: "q \<noteq> p" "G q = Some k" by (auto split: if_splits)
  obtain a v w d where a: "R q = Some a" "M a = Some w" "D q = Some (Pointer_Dtr v)" "D v = Some d" "R v = Some a"
    using shapeD(1) [OF s q(2)] by blast
  have v: "v \<noteq> p" using u [OF q(1)] q(2) a(3) by auto
  have "M' a = Some w"
  proof (cases "G p")
    case (Some g)
    obtain e where e: "R p = Some e" using shapeD(1) [OF s Some] by blast
    show ?thesis
    proof (cases "k = g")
      case True
      then show ?thesis using a q Some by (auto simp: o)
    next
      case False
      then have "e \<noteq> a" using shapeD(2) [OF s Some q(2)] a(1) e by simp
      then show ?thesis using a e by (simp add: o)
    qed
  qed (simp add: o a)
  then show ?case using a v q by (intro exI [of _ a] exI [of _ v] exI [of _ w] exI [of _ d]) simp
next
  case (2 q k r l)
  then show ?case using shapeD(2) [OF s, of q k r l] by (auto split: if_splits)
next
  case (3 a w)
  then have "M a = Some w" by (auto simp: o split: if_splits)
  then obtain q k where q: "a < b" "G q = Some k" "R q = Some a" using shapeD(3) [OF s] by blast
  show ?case
  proof (cases "q = p")
    case False
    then show ?thesis using q by (intro conjI exI [of _ q] exI [of _ k]) auto
  next
    case True
    then obtain r where r: "r \<noteq> p" "G r = G p" using 3 q by (auto simp: o split: if_splits)
    then have "R r = Some a" using shapeD(2) [OF s, of p k r k] q True by simp
    then show ?thesis using q r True by (intro conjI exI [of _ r] exI [of _ k]) auto
  qed
qed

lemma shape_write:
  assumes s: "ptr_shape G D R M b" and "M a = Some w"
  shows "ptr_shape G D R (M(a \<mapsto> v)) b"
proof (rule shapeI, goal_cases)
  case (1 p g)
  then show ?case using shapeD(1) [OF s, of p g] by fastforce
next
  case (2 p g q k)
  then show ?case by (rule shapeD(2) [OF s])
next
  case (3 c x)
  then show ?case using shapeD(3) [OF s, of c] assms(2) by (auto split: if_splits)
qed

section \<open>Each operation keeps the invariant\<close>

lemma ptr_invD:
  assumes "ptr_inv h"
  shows "rc_wf h" "ptr_shape (group_of h) (dtr_of h) (m_ref h) (objects h) (obj_brk h)"
  using assms by (simp_all add: ptr_inv_def)

lemma new_step:
  assumes inv: "ptr_inv h" and p: "p \<noteq> 0" "handles h p = None"
  shows "\<exists>h'. pointer_new p v h = Inr h' \<and> ptr_inv h'"
proof -
  from construct_client [OF ptr_invD(1) [OF inv] p, of "Pointer_Dtr p"] obtain h1 where
    h1: "shared_construct p (Pointer_Dtr p) h = Inr h1" "rc_wf h1" "group_of h1 = (group_of h)(p \<mapsto> brk h)"
      "dtr_of h1 = (dtr_of h)(p \<mapsto> Pointer_Dtr p)" and m: "rc_heap.more h1 = rc_heap.more h" by blast
  note shape_new [OF ptr_invD(2) [OF inv] group_fresh [OF ptr_invD(1) [OF inv]], of p v]
  then show ?thesis using p
    by (simp add: pointer_new_def h1 ptr_more [OF m] ptr_inv_def dtr_handle Let_def)
qed

lemma copy_step:
  assumes inv: "ptr_inv h" and p: "p \<noteq> 0" "handles h p = None" and q: "group_of h q = Some g"
  shows "\<exists>h'. pointer_copy p q h = Inr h' \<and> ptr_inv h'"
proof -
  from copy_construct_client [where call = pointer_release, OF ptr_invD(1) [OF inv] p q] obtain h1 where
    h1: "shared_copy_construct pointer_release p q h = Inr h1" "rc_wf h1" "group_of h1 = (group_of h)(p \<mapsto> g)"
      "dtr_of h1 = (dtr_of h)(p := dtr_of h q)" and m: "rc_heap.more h1 = rc_heap.more h" by blast
  obtain a where "m_ref h q = Some a" using shapeD(1) [OF ptr_invD(2) [OF inv] q] by blast
  then show ?thesis using shape_copy [OF ptr_invD(2) [OF inv] q, of a p] p
    by (simp add: pointer_copy_def h1 get_ref_def ptr_more [OF m] ptr_inv_def dtr_handle)
qed

lemma move_step:
  assumes inv: "ptr_inv h" and p: "p \<noteq> 0" "handles h p = None" and q: "group_of h q = Some g"
  shows "\<exists>h'. pointer_move p q h = Inr h' \<and> ptr_inv h'"
proof -
  from q obtain sq where "handles h q = Some sq" by (rule group_SomeE)
  from move_construct_client [where call = pointer_release, OF ptr_invD(1) [OF inv] p this] obtain h1 where
    h1: "shared_move_construct pointer_release p q h = Inr h1" "rc_wf h1" "group_of h1 = (group_of h)(p := group_of h q, q := None)"
      "dtr_of h1 = (dtr_of h)(p := dtr_of h q)" and m: "rc_heap.more h1 = rc_heap.more h" by blast
  obtain a where "m_ref h q = Some a" using shapeD(1) [OF ptr_invD(2) [OF inv] q] by blast
  then show ?thesis using shape_move [OF ptr_invD(2) [OF inv] q, of a p] p q
    by (simp add: pointer_move_def h1 get_ref_def ptr_more [OF m] ptr_inv_def dtr_handle)
qed

lemma write_step:
  assumes inv: "ptr_inv h" and p: "group_of h p = Some g"
  shows "\<exists>h'. pointer_write p v h = Inr h' \<and> ptr_inv h'"
proof -
  obtain a w where "m_ref h p = Some a" "objects h a = Some w" using shapeD(1) [OF ptr_invD(2) [OF inv] p] by blast
  then show ?thesis using inv shape_write [OF ptr_invD(2) [OF inv], of a w v]
    by (simp add: pointer_write_def get_ref_def ptr_inv_def)
qed

lemma forget_ptr [simp]:
  "m_ref (forget p h) = m_ref h" "objects (forget p h) = objects h" "obj_brk (forget p h) = obj_brk h"
  by (simp_all add: forget_def)

lemma end_step:
  assumes inv: "ptr_inv h" and p: "handles h p = Some sh" "\<not> outlived p h"
  shows "\<exists>h'. pointer_destroy p h = Inr h' \<and> ptr_inv h'"
proof -
  note wf = ptr_invD(1) [OF inv] and s = ptr_invD(2) [OF inv]
  have u: "dtr_of h q \<noteq> Some (Pointer_Dtr p)" if "q \<noteq> p" "group_of h q \<noteq> None" for q
    using that p(2) by (auto simp: outlived_def)
  note shape = shape_end [OF s u]
  consider "group_of h p = None" | g q where "group_of h p = Some g" "q \<noteq> p" "group_of h q = Some g"
    | g where "group_of h p = Some g" "\<And>q. q \<noteq> p \<Longrightarrow> group_of h q \<noteq> Some g" by (cases "group_of h p") auto
  then show ?thesis
  proof cases
    case 1
    then have "m_cnt sh = None" using p(1) by (simp add: group_of_def)
    from destroy_moved_client(1) [where call = pointer_release, OF wf p(1) this] destroy_moved_client(2) [OF wf p(1) this]
      shape [of "objects h"] 1
    show ?thesis by (simp add: pointer_destroy_def ptr_inv_def)
  next
    case (2 g q)
    then have "objects h = (if group_of h p \<noteq> None \<and> (\<forall>q. q \<noteq> p \<longrightarrow> group_of h q \<noteq> group_of h p)
        then (objects h)(the (m_ref h p) := None) else objects h)" by auto
    note sh = shape [OF _ _ this]
    from destroy_shared_client [where call = pointer_release, OF wf 2] obtain h1 where
      h1: "shared_destroy pointer_release p h = Inr h1" "rc_wf h1" "group_of h1 = (group_of h)(p := None)"
        "dtr_of h1 = (dtr_of h)(p := None)" and m: "rc_heap.more h1 = rc_heap.more h" by blast
    show ?thesis using sh by (simp add: pointer_destroy_def ptr_inv_def h1 ptr_more [OF m])
  next
    case (3 g)
    obtain a v w d where a: "m_ref h p = Some a" "objects h a = Some w" "dtr_of h p = Some (Pointer_Dtr v)" "m_ref h v = Some a"
      using shapeD(1) [OF s 3(1)] by blast
    from destroy_alone_client [where call = pointer_release, OF wf 3 a(3)] obtain h0 where
      h0: "shared_destroy pointer_release p h = bind_res (pointer_release (Pointer_Dtr v) h0) (\<lambda>h'. Inr (forget p h'))"
        "rc_wf (forget p h0)" "group_of (forget p h0) = (group_of h)(p := None)" "dtr_of (forget p h0) = (dtr_of h)(p := None)"
      and m: "rc_heap.more h0 = rc_heap.more h" by blast
    have f: "forget p (h0\<lparr>objects := os\<rparr>) = (forget p h0)\<lparr>objects := os\<rparr>" for os by (simp add: forget_def)
    have "pointer_destroy p h = Inr ((forget p h0)\<lparr>objects := (objects h)(a := None), m_ref := (m_ref h)(p := None)\<rparr>)"
      using a by (simp add: pointer_destroy_def h0(1) get_ref_def ptr_more [OF m] f)
    moreover have "(objects h)(a := None) = (if group_of h p \<noteq> None \<and> (\<forall>q. q \<noteq> p \<longrightarrow> group_of h q \<noteq> group_of h p)
        then (objects h)(the (m_ref h p) := None) else objects h)" using 3 a(1) by simp
    note sh = shape [OF _ _ this]
    have "ptr_inv ((forget p h0)\<lparr>objects := (objects h)(a := None), m_ref := (m_ref h)(p := None)\<rparr>)"
      using sh h0(2-4) by (simp add: ptr_inv_def ptr_more [OF m])
    ultimately show ?thesis by blast
  qed
qed

lemma ptr_step:
  assumes "ptr_inv h" "ptr_legal x h"
  shows "\<exists>h'. ptr_exec x h = Inr h' \<and> ptr_inv h'"
  using assms by (cases x) (auto intro: new_step copy_step move_step write_step end_step)

lemma ptr_run_inv:
  "ptr_inv h \<Longrightarrow> ptr_legal_run xs h \<Longrightarrow> \<exists>h'. ptr_run xs h = Inr h' \<and> ptr_inv h'"
proof (induction xs arbitrary: h)
  case (Cons x xs)
  then obtain h1 where "ptr_exec x h = Inr h1" "ptr_inv h1" using ptr_step [of h x] by auto
  then show ?case using Cons by simp
qed simp

lemma empty_ptrs_inv: "ptr_inv empty_ptrs"
  by (simp add: ptr_inv_def ptr_shape_def rc_wf_def empty_ptrs_def group_of_def)

lemmas ptr_defs = pointer_new_def pointer_copy_def pointer_move_def pointer_write_def pointer_destroy_def shared_construct_def
  shared_create_def shared_copy_construct_def shared_copy_assign_def shared_move_construct_def shared_move_assign_def
  shared_destroy_def shared_unref_def shared_last_def shared_ref_def get_handle_def put_handle_def get_ref_def set_ref_def
  empty_ptrs_def Let_def

lemma original_first:
  assumes "p \<noteq> 0" "q \<noteq> 0" "p \<noteq> q"
  shows "ptr_run [New p v, Copy q p, End p, End q] empty_ptrs = Inl Use_After_Free"
    "ptr_run [New p v, Move q p, End p, End q] empty_ptrs = Inl Use_After_Free"
  using assms by (simp_all add: ptr_defs)

section \<open>Properties\<close>

text \<open>
  C11: Runs of owning pointers. A run that respects the rules never faults; every pointer in use can be
  read, two pointers refer to the same object exactly when one is a copy of the other, and the
  objects allocated are exactly those that a pointer in use refers to: each is deleted once, when
  its last pointer ends. The rule about the original is needed: when it ends before a copy, or
  after it was moved from, the end of the other one reads a dead object.
\<close>

theorem pointer_runs_safe:
  assumes "ptr_legal_run xs empty_ptrs"
  shows "(\<exists>h. ptr_run xs empty_ptrs = Inr h \<and>
      (\<forall>p. group_of h p \<noteq> None \<longrightarrow> (\<exists>v. pointer_read p h = Inr v)) \<and>
      (\<forall>p q. group_of h p \<noteq> None \<and> group_of h q \<noteq> None \<longrightarrow> (group_of h p = group_of h q) = (m_ref h p = m_ref h q)) \<and>
      dom (objects h) = {a. \<exists>p. group_of h p \<noteq> None \<and> m_ref h p = Some a}) \<and>
    (p \<noteq> 0 \<and> q \<noteq> 0 \<and> p \<noteq> q \<longrightarrow>
      ptr_run [New p v, Copy q p, End p, End q] empty_ptrs = Inl Use_After_Free \<and>
      ptr_run [New p v, Move q p, End p, End q] empty_ptrs = Inl Use_After_Free)"
proof -
  obtain h where h: "ptr_run xs empty_ptrs = Inr h" "ptr_inv h" using ptr_run_inv [OF empty_ptrs_inv assms] by blast
  note s = shapeD [OF ptr_invD(2) [OF h(2)]]
  have "\<exists>v. pointer_read p h = Inr v" if "group_of h p \<noteq> None" for p
    using that s(1) [of p] by (fastforce simp: pointer_read_def get_ref_def)
  moreover have "(group_of h p = group_of h q) = (m_ref h p = m_ref h q)" if "group_of h p \<noteq> None" "group_of h q \<noteq> None" for p q
    using that s(2) [of q _ p] by auto
  moreover have "dom (objects h) = {a. \<exists>p. group_of h p \<noteq> None \<and> m_ref h p = Some a}"
    using s(1,3) by fastforce
  ultimately show ?thesis using h(1) original_first [of p q v] by blast
qed

lemma pointer_runs_safe_witness:
  "\<exists>h. ptr_run [New 5 (7 :: nat), Copy 2 5, Move 3 2, Assign 3 9, End 2, End 3] empty_ptrs = Inr h \<and>
    (\<exists>v. pointer_read 5 h = Inr v) \<and> dom (objects h) = {0}"
proof -
  let ?xs = "[New 5 (7 :: nat), Copy 2 5, Move 3 2, Assign 3 9, End 2, End 3]"
  have "ptr_legal_run ?xs empty_ptrs"
    by (simp add: ptr_defs group_of_def outlived_def dtr_of_def)
  from pointer_runs_safe [OF this, THEN conjunct1] obtain h where h: "ptr_run ?xs empty_ptrs = Inr h"
      "group_of h 5 \<noteq> None \<Longrightarrow> \<exists>v. pointer_read 5 h = Inr v"
      "dom (objects h) = {a. \<exists>p. group_of h p \<noteq> None \<and> m_ref h p = Some a}" by (elim exE conjE) blast
  have "group_of h = [5 \<mapsto> 0]" "m_ref h = [5 \<mapsto> 0]" using h(1)
    by (auto simp: ptr_defs group_of_def fun_eq_iff)
  then show ?thesis using h by auto
qed

end
