(* ===== verification/Shared_Race.thy ===== *)
theory Shared_Race
  imports Prelude
begin

text \<open>
  The reference count of \<^verbatim>\<open>src/Shared.h\<close> under concurrency. \<open>m_cnt\<close> and \<open>m_cow\<close> point to atomic
  variables, so the handles of one group may live in different threads; \<open>Shared_Ref\<close> has the
  member functions as they are for one thread, this theory splits them at each atomic access.

  The state is one group: the count and the flag (\<open>None\<close> once deleted), where each handle is in the
  member function that runs on it, and how often \<open>m_dtr\<close> was called. The pointers inside a handle
  are plain members, so a handle runs one function at a time, and it is not written while
  another one is copied from it; with these rules of the class the interleaving is arbitrary. A
  handle without the group (not constructed, ended, or with a group of its own since a write) is
  \<open>Away\<close>. Moving a handle gives it another name and touches neither the count nor the flag.
\<close>

section \<open>State\<close>

datatype point =
    Away
  | Held             \<comment> \<open>a member of the group, no function runs on it\<close>
  | Marking nat      \<comment> \<open>a copy of the handle, with its count, before \<open>*m_cow = true\<close>\<close>
  | Unref_Assert     \<comment> \<open>\<open>unref()\<close>, before the assertion of \<open>last()\<close>\<close>
  | Unref_Test       \<comment> \<open>before the comparison of \<open>last()\<close>\<close>
  | Delete_Cnt
  | Delete_Cow
  | Call_Dtr
  | Decrement
  | Write_Assert     \<comment> \<open>\<open>write()\<close>, before the assertion of \<open>last()\<close>\<close>
  | Write_Test
  | Write_Clear      \<comment> \<open>before \<open>*m_cow = false\<close>\<close>
  | Write_Copy       \<comment> \<open>in the client's \<open>copy()\<close>\<close>
  | Write_Check      \<comment> \<open>before \<open>if (*m_cow)\<close>\<close>

record race =
  hands :: nat
  at :: "nat \<Rightarrow> point"
  shared_cnt :: "size_t option"
  shared_cow :: "bool option"
  dtr_calls :: nat

definition sharing :: "nat \<Rightarrow> nat \<Rightarrow> bool \<Rightarrow> race" where
  "sharing n k b = \<lparr>hands = n, at = (\<lambda>t. if t < k then Held else Away),
     shared_cnt = Some (of_nat k), shared_cow = Some b, dtr_calls = 0\<rparr>"

definition move_to :: "nat \<Rightarrow> point \<Rightarrow> race \<Rightarrow> race" where
  "move_to t p s = s\<lparr>at := (at s)(t := p)\<rparr>"

section \<open>The atomic accesses\<close>

definition load_cnt :: "race \<Rightarrow> fault + size_t" where
  "load_cnt s = (case shared_cnt s of None \<Rightarrow> Inl Use_After_Free | Some c \<Rightarrow> Inr c)"

definition load_cow :: "race \<Rightarrow> fault + bool" where
  "load_cow s = (case shared_cow s of None \<Rightarrow> Inl Use_After_Free | Some b \<Rightarrow> Inr b)"

definition store_cow :: "bool \<Rightarrow> race \<Rightarrow> fault + race" where
  "store_cow b s = (case shared_cow s of None \<Rightarrow> Inl Use_After_Free | Some _ \<Rightarrow> Inr (s\<lparr>shared_cow := Some b\<rparr>))"

definition add_cnt :: "size_t \<Rightarrow> race \<Rightarrow> fault + race" where
  "add_cnt d s = bind_res (load_cnt s) (\<lambda>c. Inr (s\<lparr>shared_cnt := Some (c + d)\<rparr>))"

text \<open>\<open>last()\<close> reads the count twice: for its assertion and for its result.\<close>

definition last_assert :: "race \<Rightarrow> fault + unit" where
  "last_assert s = bind_res (load_cnt s) (\<lambda>c. if 1 \<le> c then Inr () else Inl Assert_Failed)"

definition last_test :: "race \<Rightarrow> fault + bool" where
  "last_test s = bind_res (load_cnt s) (\<lambda>c. Inr (c = 1))"

section \<open>Steps\<close>

text \<open>The next access of the function that runs on the handle \<open>t\<close>, if one runs.\<close>

definition race_step :: "nat \<Rightarrow> race \<Rightarrow> fault + race" where
  "race_step t s = (case at s t of
      Away \<Rightarrow> Inr s
    | Held \<Rightarrow> Inr s
    | Marking _ \<Rightarrow> bind_res (store_cow True s) (\<lambda>s. Inr (move_to t Held s))
    | Unref_Assert \<Rightarrow> bind_res (last_assert s) (\<lambda>_. Inr (move_to t Unref_Test s))
    | Unref_Test \<Rightarrow> bind_res (last_test s) (\<lambda>l. Inr (move_to t (if l then Delete_Cnt else Decrement) s))
    | Delete_Cnt \<Rightarrow> (case shared_cnt s of None \<Rightarrow> Inl Double_Free
        | Some _ \<Rightarrow> Inr (move_to t Delete_Cow (s\<lparr>shared_cnt := None\<rparr>)))
    | Delete_Cow \<Rightarrow> (case shared_cow s of None \<Rightarrow> Inl Double_Free
        | Some _ \<Rightarrow> Inr (move_to t Call_Dtr (s\<lparr>shared_cow := None\<rparr>)))
    | Call_Dtr \<Rightarrow> Inr (move_to t Away (s\<lparr>dtr_calls := dtr_calls s + 1\<rparr>))
    | Decrement \<Rightarrow> bind_res (add_cnt (- 1) s) (\<lambda>s. Inr (move_to t Away s))
    | Write_Assert \<Rightarrow> bind_res (last_assert s) (\<lambda>_. Inr (move_to t Write_Test s))
    | Write_Test \<Rightarrow> bind_res (last_test s) (\<lambda>l. Inr (move_to t (if l then Write_Clear else Write_Copy) s))
    | Write_Clear \<Rightarrow> bind_res (store_cow False s) (\<lambda>s. Inr (move_to t Write_Copy s))
    | Write_Copy \<Rightarrow> Inr (move_to t Write_Check s)
    | Write_Check \<Rightarrow> bind_res (load_cow s) (\<lambda>b. Inr (move_to t (if b then Unref_Assert else Held) s)))"

text \<open>
  What a schedule asks for: the next access, or that a function begins. \<open>End\<close> is the destructor (or an
  assignment over the handle), \<open>Write\<close> a \<open>write()\<close>, \<open>Copy t u\<close> constructs or assigns \<open>u\<close> from \<open>t\<close>, with
  the increment of \<open>ref()\<close>. A demand that the rules do not allow in the state is skipped.
\<close>

datatype action = Advance nat | End nat | Write nat | Copy nat nat

definition lent :: "nat \<Rightarrow> race \<Rightarrow> bool" where
  "lent t s \<longleftrightarrow> list_ex (\<lambda>u. at s u = Marking t) [0..<hands s]"

fun race_act :: "action \<Rightarrow> race \<Rightarrow> fault + race" where
  "race_act (Advance t) s = (if t < hands s then race_step t s else Inr s)"
| "race_act (End t) s = (if t < hands s \<and> at s t = Held \<and> \<not> lent t s then Inr (move_to t Unref_Assert s) else Inr s)"
| "race_act (Write t) s = (if t < hands s \<and> at s t = Held \<and> \<not> lent t s then Inr (move_to t Write_Assert s) else Inr s)"
| "race_act (Copy t u) s = (if t < hands s \<and> u < hands s \<and> at s t = Held \<and> at s u = Away
     then bind_res (add_cnt 1 s) (\<lambda>s. Inr (move_to u (Marking t) s)) else Inr s)"

fun race_run :: "action list \<Rightarrow> race \<Rightarrow> fault + race" where
  "race_run [] s = Inr s"
| "race_run (a # as) s = bind_res (race_act a s) (race_run as)"

text \<open>The handles that hold a count, and those in \<open>unref()\<close> up to its decision or decrement.\<close>

definition holding :: "point set" where
  "holding = - {Away, Delete_Cow, Call_Dtr}"

definition in_unref :: "point \<Rightarrow> bool" where
  "in_unref p \<longleftrightarrow> p \<in> {Unref_Assert, Unref_Test, Decrement}"

text \<open>A schedule in which \<open>unref()\<close> never runs on two handles at once, as if it held a lock.\<close>

definition one_unref :: "race \<Rightarrow> bool" where
  "one_unref s \<longleftrightarrow> length (filter (\<lambda>t. in_unref (at s t)) [0..<hands s]) \<le> 1"

fun locked :: "action list \<Rightarrow> race \<Rightarrow> bool" where
  "locked [] s \<longleftrightarrow> one_unref s"
| "locked (a # as) s \<longleftrightarrow> one_unref s \<and> (case race_act a s of Inl _ \<Rightarrow> True | Inr s' \<Rightarrow> locked as s')"

section \<open>The invariant\<close>

definition num :: "race \<Rightarrow> point set \<Rightarrow> nat" where
  "num s L = card (points (hands s) (at s) L)"

definition alone_before :: "race \<Rightarrow> bool" where
  "alone_before s \<longleftrightarrow> (\<forall>t < hands s. at s t = Delete_Cnt \<or> at s t = Write_Clear \<longrightarrow> num s holding = 1)"

definition lenders_held :: "race \<Rightarrow> bool" where
  "lenders_held s \<longleftrightarrow> (\<forall>u < hands s. \<forall>t. at s u = Marking t \<longrightarrow> t < hands s \<and> at s t = Held)"

definition race_inv :: "race \<Rightarrow> bool" where
  "race_inv s \<longleftrightarrow> hands s < 2 ^ 64 \<and>
     (case shared_cnt s of
        Some c \<Rightarrow> unat c = num s holding \<and> shared_cow s \<noteq> None \<and>
          num s {Delete_Cow} = 0 \<and> num s {Call_Dtr} = 0 \<and> dtr_calls s = 0
      | None \<Rightarrow> num s holding = 0 \<and> num s {Delete_Cow} + num s {Call_Dtr} + dtr_calls s = 1 \<and>
          (shared_cow s \<noteq> None \<longleftrightarrow> num s {Delete_Cow} = 1)) \<and>
     alone_before s \<and> lenders_held s \<and>
     (shared_cnt s \<noteq> None \<and> shared_cow s = Some False \<longrightarrow> num s holding \<le> 1 + num s (range Marking))"

lemma move_to_simps [simp]:
  "hands (move_to t p s) = hands s" "at (move_to t p s) = (at s)(t := p)" "shared_cnt (move_to t p s) = shared_cnt s"
  "shared_cow (move_to t p s) = shared_cow s" "dtr_calls (move_to t p s) = dtr_calls s"
  by (simp_all add: move_to_def)

lemma num_cong: "hands s' = hands s \<Longrightarrow> at s' = at s \<Longrightarrow> num s' L = num s L"
  by (simp add: num_def)

lemma num_update_simps [simp]:
  "num (s\<lparr>shared_cnt := c\<rparr>) L = num s L" "num (s\<lparr>shared_cow := b\<rparr>) L = num s L" "num (s\<lparr>dtr_calls := d\<rparr>) L = num s L"
  by (simp_all add: num_def)

lemma num_move_to:
  "t < hands s \<Longrightarrow> num (move_to t p s) L + (if at s t \<in> L then 1 else 0) = num s L + (if p \<in> L then 1 else 0)"
  unfolding num_def by (simp add: card_points_update)

lemma num_positive: "t < hands s \<Longrightarrow> at s t \<in> L \<Longrightarrow> 1 \<le> num s L"
  unfolding num_def by (metis card_points_eq_0 less_one not_le)

lemma num_eq_0: "num s L = 0 \<longleftrightarrow> (\<forall>t < hands s. at s t \<notin> L)"
  by (simp add: num_def card_points_eq_0)

lemma num_two:
  assumes "t < hands s" "u < hands s" "t \<noteq> u" "at s t \<in> L" "at s u \<in> L"
  shows "2 \<le> num s L"
proof -
  have "{t, u} \<subseteq> points (hands s) (at s) L" using assms by (auto simp: points_def)
  then have "card {t, u} \<le> num s L" unfolding num_def by (intro card_mono) auto
  then show ?thesis using assms(3) by simp
qed

lemma num_le_hands: "num s L \<le> hands s"
proof -
  have "points (hands s) (at s) L \<subseteq> {..<hands s}" by (auto simp: points_def)
  then have "card (points (hands s) (at s) L) \<le> card {..<hands s}" by (intro card_mono) auto
  then show ?thesis by (simp add: num_def)
qed

text \<open>What the invariant says, in the form the steps use it.\<close>

lemma race_inv_cnt:
  assumes "race_inv s" "shared_cnt s = Some c"
  shows "unat c = num s holding" "shared_cow s \<noteq> None" "num s {Delete_Cow} = 0" "num s {Call_Dtr} = 0" "dtr_calls s = 0"
  using assms by (auto simp: race_inv_def)

lemma race_inv_gone:
  assumes "race_inv s" "shared_cnt s = None"
  shows "num s holding = 0" "num s {Delete_Cow} + num s {Call_Dtr} + dtr_calls s = 1"
    "shared_cow s \<noteq> None \<longleftrightarrow> num s {Delete_Cow} = 1"
  using assms by (auto simp: race_inv_def)

lemma race_inv_parts:
  assumes "race_inv s"
  shows "hands s < 2 ^ 64" "alone_before s" "lenders_held s"
  using assms by (simp_all add: race_inv_def)

lemma alone_beforeD:
  assumes "alone_before s" "t < hands s" "at s t = Delete_Cnt \<or> at s t = Write_Clear"
  shows "num s holding = 1"
  using assms unfolding alone_before_def by blast

lemma lenders_heldD:
  assumes "lenders_held s" "u < hands s" "at s u = Marking t"
  shows "t < hands s \<and> at s t = Held"
  using assms unfolding lenders_held_def by blast

lemma race_inv_unshared:
  assumes "race_inv s" "shared_cnt s \<noteq> None" "shared_cow s = Some False"
  shows "num s holding \<le> 1 + num s (range Marking)"
  using assms unfolding race_inv_def by blast

lemma race_inv_heldI:
  assumes "hands s < 2 ^ 64" "shared_cnt s = Some c" "shared_cow s = Some b" "unat c = num s holding"
    "num s {Delete_Cow} = 0" "num s {Call_Dtr} = 0" "dtr_calls s = 0"
    and "alone_before s" "lenders_held s" "b \<or> num s holding \<le> 1 + num s (range Marking)"
  shows "race_inv s"
  using assms by (auto simp: race_inv_def)

lemma nobody_holding:
  assumes "num s holding = 0"
  shows "alone_before s" "lenders_held s"
proof -
  have "at s t \<notin> holding" if "t < hands s" for t using assms that by (simp add: num_eq_0)
  then show "alone_before s" "lenders_held s"
    unfolding holding_def alone_before_def lenders_held_def by fastforce+
qed

lemma race_inv_goneI:
  assumes "hands s < 2 ^ 64" "shared_cnt s = None" "num s holding = 0"
    "num s {Delete_Cow} + num s {Call_Dtr} + dtr_calls s = 1" "shared_cow s \<noteq> None \<longleftrightarrow> num s {Delete_Cow} = 1"
  shows "race_inv s"
  using assms nobody_holding [OF assms(3)] by (simp add: race_inv_def)

lemma holding_has_cnt:
  assumes "race_inv s" "t < hands s" "at s t \<in> holding"
  obtains c b where "shared_cnt s = Some c" "shared_cow s = Some b" "c \<noteq> 0" "unat c = num s holding"
proof -
  have n: "1 \<le> num s holding" using assms(2,3) by (rule num_positive)
  then obtain c where c: "shared_cnt s = Some c" using race_inv_gone(1) [OF assms(1)] by (cases "shared_cnt s") auto
  obtain b where "shared_cow s = Some b" using race_inv_cnt(2) [OF assms(1) c] by auto
  moreover have "c \<noteq> 0" using n race_inv_cnt(1) [OF assms(1) c] by (metis not_one_le_zero unsigned_0)
  ultimately show thesis using that c race_inv_cnt(1) [OF assms(1) c] by blast
qed

lemma alone_others:
  assumes "num s holding = 1" "t < hands s" "at s t \<in> holding" "u < hands s" "u \<noteq> t"
  shows "at s u \<notin> holding"
  using num_two [of u s t holding] assms by fastforce

lemma holding_points [simp]:
  "Away \<notin> holding" "Delete_Cow \<notin> holding" "Call_Dtr \<notin> holding" "Held \<in> holding" "Marking t \<in> holding"
  "Unref_Assert \<in> holding" "Unref_Test \<in> holding" "Delete_Cnt \<in> holding" "Decrement \<in> holding" "Write_Assert \<in> holding"
  "Write_Test \<in> holding" "Write_Clear \<in> holding" "Write_Copy \<in> holding" "Write_Check \<in> holding"
  by (simp_all add: holding_def)

section \<open>The steps keep the invariant\<close>

lemma not_lent:
  assumes "lenders_held s" "at s t \<noteq> Held"
  shows "\<forall>u < hands s. at s u \<noteq> Marking t"
  using lenders_heldD [OF assms(1)] assms(2) by blast

lemma lenders_held_move_to:
  assumes "lenders_held s" "t < hands s" "\<forall>u < hands s. at s u \<noteq> Marking t \<or> q = Held" "q \<notin> range Marking"
  shows "lenders_held (move_to t q s)"
  unfolding lenders_held_def
proof (intro allI impI)
  fix u v assume u: "u < hands (move_to t q s)" "at (move_to t q s) u = Marking v"
  then have "u \<noteq> t" using assms(4) by auto
  then have "at s u = Marking v" "u < hands s" using u by simp_all
  then have v: "v < hands s \<and> at s v = Held" by (intro lenders_heldD [OF assms(1)])
  show "v < hands (move_to t q s) \<and> at (move_to t q s) v = Held"
  proof (cases "v = t")
    case True
    then have "q = Held" using assms(3) \<open>at s u = Marking v\<close> \<open>u < hands s\<close> by blast
    then show ?thesis using v by simp
  qed (use v in simp)
qed

text \<open>A handle that goes from one place in a function to another and changes nothing.\<close>

lemma race_inv_move_to:
  assumes inv: "race_inv s" and t: "t < hands s" "at s t \<in> holding" "at s t \<notin> range Marking"
    and free: "\<forall>u < hands s. at s u \<noteq> Marking t"
    and q: "q \<in> holding" "q \<notin> range Marking" "q = Delete_Cnt \<or> q = Write_Clear \<Longrightarrow> shared_cnt s = Some 1"
  shows "race_inv (move_to t q s)"
proof -
  obtain c b where c: "shared_cnt s = Some c" "shared_cow s = Some b" "unat c = num s holding"
    using holding_has_cnt [OF inv t(1,2)] by blast
  have n: "num (move_to t q s) L = num s L" if "at s t \<in> L \<longleftrightarrow> q \<in> L" for L
    using num_move_to [of t s q L] t(1) that by (simp split: if_splits)
  have cn: "num (move_to t q s) holding = num s holding" "num (move_to t q s) (range Marking) = num s (range Marking)"
    "num (move_to t q s) {Delete_Cow} = num s {Delete_Cow}" "num (move_to t q s) {Call_Dtr} = num s {Call_Dtr}"
    using t q by (auto intro!: n)
  have "q = Delete_Cnt \<or> q = Write_Clear \<Longrightarrow> num s holding = 1" using q(3) c by auto
  then have "alone_before (move_to t q s)"
    using alone_beforeD [OF race_inv_parts(2) [OF inv]] by (auto simp: alone_before_def cn)
  moreover have "lenders_held (move_to t q s)"
    using race_inv_parts(3) [OF inv] t(1) free q(2) by (intro lenders_held_move_to) auto
  moreover have "b \<or> num s holding \<le> 1 + num s (range Marking)"
    using race_inv_unshared [OF inv] c(1,2) by auto
  ultimately show ?thesis
    using c race_inv_cnt [OF inv c(1)] race_inv_parts(1) [OF inv]
    by (intro race_inv_heldI [of _ c b]) (simp_all add: cn)
qed

text \<open>The store of a copy, which makes the flag true, and that of a write, by a handle that is alone.\<close>

lemma cow_fields [simp]:
  "alone_before (s\<lparr>shared_cow := b\<rparr>) = alone_before s" "lenders_held (s\<lparr>shared_cow := b\<rparr>) = lenders_held s"
  "lenders_held (s\<lparr>shared_cnt := c\<rparr>) = lenders_held s"
  by (simp_all add: alone_before_def lenders_held_def)

lemma race_inv_mark:
  assumes inv: "race_inv s" and t: "t < hands s" "at s t = Marking v"
  shows "race_inv (move_to t Held (s\<lparr>shared_cow := Some True\<rparr>))" (is "race_inv ?s")
proof -
  have "at s t \<in> holding" using t(2) by simp
  then obtain c b where c: "shared_cnt s = Some c" "shared_cow s = Some b" "unat c = num s holding"
    using holding_has_cnt [OF inv t(1)] by blast
  have "num ?s L = num s L" if "Marking v \<in> L \<longleftrightarrow> Held \<in> L" for L
    using num_move_to [of t "s\<lparr>shared_cow := Some True\<rparr>" Held L] t that by (simp split: if_splits)
  then have n: "num ?s holding = num s holding" "num ?s {Delete_Cow} = num s {Delete_Cow}" "num ?s {Call_Dtr} = num s {Call_Dtr}"
    by simp_all
  have "alone_before ?s"
    using alone_beforeD [OF race_inv_parts(2) [OF inv]] by (auto simp: alone_before_def n)
  moreover have "lenders_held ?s"
    using race_inv_parts(3) [OF inv] t(1) by (intro lenders_held_move_to) auto
  ultimately show ?thesis
    using c race_inv_cnt [OF inv c(1)] race_inv_parts(1) [OF inv]
    by (intro race_inv_heldI [of _ c True]) (simp_all add: n)
qed

lemma race_inv_clear:
  assumes inv: "race_inv s" and t: "t < hands s" "at s t = Write_Clear"
  shows "race_inv (s\<lparr>shared_cow := Some False\<rparr>)"
proof -
  have "at s t \<in> holding" using t(2) by simp
  then obtain c where c: "shared_cnt s = Some c" using holding_has_cnt [OF inv t(1)] by blast
  have "num s holding = 1" using alone_beforeD [OF race_inv_parts(2) [OF inv] t(1)] t(2) by simp
  then show ?thesis
    using c race_inv_cnt [OF inv c] race_inv_parts [OF inv]
    by (intro race_inv_heldI [of _ c False]) simp_all
qed

text \<open>The increment of a copy and the decrement of an end.\<close>

lemma race_inv_copy:
  assumes inv: "race_inv s" and t: "t < hands s" "u < hands s" "at s t = Held" "at s u = Away"
    and c: "shared_cnt s = Some c"
  shows "race_inv (move_to u (Marking t) (s\<lparr>shared_cnt := Some (c + 1)\<rparr>))" (is "race_inv ?s")
proof -
  have n: "num ?s L = num s L + (if Marking t \<in> L then 1 else 0)" if "Away \<notin> L" for L
    using num_move_to [of u "s\<lparr>shared_cnt := Some (c + 1)\<rparr>" "Marking t" L] t that by (simp split: if_splits)
  have n: "num ?s holding = num s holding + 1" "num ?s (range Marking) = num s (range Marking) + 1"
    "num ?s {Delete_Cow} = num s {Delete_Cow}" "num ?s {Call_Dtr} = num s {Call_Dtr}"
    by (subst n; force)+
  have "num ?s holding < 2 ^ 64"
    using num_le_hands [of ?s holding] race_inv_parts(1) [OF inv] by simp
  then have cnt: "unat (c + 1) = num s holding + 1"
    using race_inv_cnt(1) [OF inv c] n(1) unat_inc [of c] by simp
  have "False" if "v < hands s" "at s v = Delete_Cnt \<or> at s v = Write_Clear" for v
  proof -
    have "num s holding = 1" by (rule alone_beforeD [OF race_inv_parts(2) [OF inv] that])
    moreover have "v \<noteq> t" "at s v \<in> holding" using that(2) t(3) by auto
    ultimately show False using num_two [OF that(1) t(1), of holding] t(3) by simp
  qed
  then have "alone_before ?s" by (auto simp: alone_before_def)
  moreover have "lenders_held ?s" unfolding lenders_held_def
  proof (intro allI impI)
    fix v w assume v: "v < hands ?s" "at ?s v = Marking w"
    show "w < hands ?s \<and> at ?s w = Held"
    proof (cases "v = u")
      case False
      then show ?thesis using lenders_heldD [OF race_inv_parts(3) [OF inv], of v w] v t by auto
    qed (use v t in auto)
  qed
  moreover obtain b where b: "shared_cow s = Some b" using race_inv_cnt(2) [OF inv c] by auto
  moreover have "b \<or> num s holding \<le> 1 + num s (range Marking)"
    using race_inv_unshared [OF inv] c b by auto
  ultimately show ?thesis
    using race_inv_cnt [OF inv c] race_inv_parts(1) [OF inv] cnt
    by (intro race_inv_heldI [of _ "c + 1" b]) (simp_all add: n)
qed

lemma race_inv_decrement:
  assumes inv: "race_inv s" and t: "t < hands s" "at s t = Decrement" and c: "shared_cnt s = Some c"
  shows "race_inv (move_to t Away (s\<lparr>shared_cnt := Some (c - 1)\<rparr>))" (is "race_inv ?s")
proof -
  have n: "num ?s L = num s L" if "Decrement \<notin> L" "Away \<notin> L" for L
    using num_move_to [of t "s\<lparr>shared_cnt := Some (c - 1)\<rparr>" Away L] t that by simp
  have n: "num ?s holding = num s holding - 1" "num ?s (range Marking) = num s (range Marking)"
    "num ?s {Delete_Cow} = num s {Delete_Cow}" "num ?s {Call_Dtr} = num s {Call_Dtr}"
    using num_move_to [of t "s\<lparr>shared_cnt := Some (c - 1)\<rparr>" Away holding] t by (auto intro!: n)
  have "1 \<le> num s holding" using num_positive [OF t(1), of holding] t(2) by simp
  then have "c \<noteq> 0" using race_inv_cnt(1) [OF inv c] by auto
  then have cnt: "unat (c - 1) = num s holding - 1" using race_inv_cnt(1) [OF inv c] by (simp add: unat_dec)
  have "False" if "v < hands s" "at s v = Delete_Cnt \<or> at s v = Write_Clear" for v
  proof -
    have "num s holding = 1" by (rule alone_beforeD [OF race_inv_parts(2) [OF inv] that])
    moreover have "v \<noteq> t" "at s v \<in> holding" using that(2) t(2) by auto
    ultimately show False using num_two [OF that(1) t(1), of holding] t(2) by simp
  qed
  then have "alone_before ?s" by (auto simp: alone_before_def)
  moreover have "lenders_held ?s"
    using race_inv_parts(3) [OF inv] not_lent [OF race_inv_parts(3) [OF inv], of t] t
    by (intro lenders_held_move_to) auto
  moreover obtain b where b: "shared_cow s = Some b" using race_inv_cnt(2) [OF inv c] by auto
  moreover have "b \<or> num s holding \<le> 1 + num s (range Marking)"
    using race_inv_unshared [OF inv] c b by auto
  ultimately show ?thesis
    using race_inv_cnt [OF inv c] race_inv_parts(1) [OF inv] cnt
    by (intro race_inv_heldI [of _ "c - 1" b]) (auto simp: n)
qed

text \<open>The three steps of the last handle.\<close>

lemma race_inv_delete_cnt:
  assumes inv: "race_inv s" and t: "t < hands s" "at s t = Delete_Cnt"
  shows "race_inv (move_to t Delete_Cow (s\<lparr>shared_cnt := None\<rparr>))" (is "race_inv ?s")
proof -
  have "at s t \<in> holding" using t(2) by simp
  then obtain c b where c: "shared_cnt s = Some c" "shared_cow s = Some b"
    using holding_has_cnt [OF inv t(1)] by blast
  have "num s holding = 1" using alone_beforeD [OF race_inv_parts(2) [OF inv] t(1)] t(2) by simp
  then have "num ?s holding = 0" "num ?s {Delete_Cow} = 1" "num ?s {Call_Dtr} = 0"
    using num_move_to [of t "s\<lparr>shared_cnt := None\<rparr>" Delete_Cow] t race_inv_cnt [OF inv c(1)]
    by (auto dest: meta_spec [of _ holding] meta_spec [of _ "{Delete_Cow}"] meta_spec [of _ "{Call_Dtr}"])
  then show ?thesis
    using c race_inv_cnt [OF inv c(1)] race_inv_parts(1) [OF inv] by (intro race_inv_goneI) simp_all
qed

lemma last_points:
  assumes "race_inv s" "t < hands s" "at s t \<in> {Delete_Cow, Call_Dtr}"
  shows "shared_cnt s = None" "num s holding = 0"
proof -
  have "1 \<le> num s {Delete_Cow} \<or> 1 \<le> num s {Call_Dtr}"
    using assms(3) num_positive [OF assms(2), of "{Delete_Cow}"] num_positive [OF assms(2), of "{Call_Dtr}"] by auto
  then show "shared_cnt s = None" using race_inv_cnt(3,4) [OF assms(1)] by (cases "shared_cnt s") force+
  then show "num s holding = 0" by (rule race_inv_gone(1) [OF assms(1)])
qed

lemma race_inv_delete_cow:
  assumes inv: "race_inv s" and t: "t < hands s" "at s t = Delete_Cow"
  shows "shared_cow s \<noteq> None" "race_inv (move_to t Call_Dtr (s\<lparr>shared_cow := None\<rparr>))" (is "race_inv ?s")
proof -
  have c: "shared_cnt s = None" "num s holding = 0" using last_points [OF inv t(1)] t(2) by simp_all
  have "1 \<le> num s {Delete_Cow}" using num_positive [OF t(1), of "{Delete_Cow}"] t(2) by simp
  then have g: "num s {Delete_Cow} = 1" "num s {Call_Dtr} = 0" "dtr_calls s = 0" "shared_cow s \<noteq> None"
    using race_inv_gone [OF inv c(1)] by auto
  then show "shared_cow s \<noteq> None" by simp
  have "num ?s holding = 0" "num ?s {Delete_Cow} = 0" "num ?s {Call_Dtr} = 1"
    using num_move_to [of t "s\<lparr>shared_cow := None\<rparr>" Call_Dtr holding]
      num_move_to [of t "s\<lparr>shared_cow := None\<rparr>" Call_Dtr "{Delete_Cow}"]
      num_move_to [of t "s\<lparr>shared_cow := None\<rparr>" Call_Dtr "{Call_Dtr}"] t g c by simp_all
  then show "race_inv ?s"
    using c g race_inv_parts(1) [OF inv] by (intro race_inv_goneI) simp_all
qed

lemma race_inv_call_dtr:
  assumes inv: "race_inv s" and t: "t < hands s" "at s t = Call_Dtr"
  shows "race_inv (move_to t Away (s\<lparr>dtr_calls := dtr_calls s + 1\<rparr>))" (is "race_inv ?s")
proof -
  have c: "shared_cnt s = None" "num s holding = 0" using last_points [OF inv t(1)] t(2) by simp_all
  have "1 \<le> num s {Call_Dtr}" using num_positive [OF t(1), of "{Call_Dtr}"] t(2) by simp
  then have g: "num s {Delete_Cow} = 0" "num s {Call_Dtr} = 1" "dtr_calls s = 0" "shared_cow s = None"
    using race_inv_gone [OF inv c(1)] by auto
  have "num ?s holding = 0" "num ?s {Delete_Cow} = 0" "num ?s {Call_Dtr} = 0"
    using num_move_to [of t "s\<lparr>dtr_calls := dtr_calls s + 1\<rparr>" Away holding]
      num_move_to [of t "s\<lparr>dtr_calls := dtr_calls s + 1\<rparr>" Away "{Delete_Cow}"]
      num_move_to [of t "s\<lparr>dtr_calls := dtr_calls s + 1\<rparr>" Away "{Call_Dtr}"] t g c by simp_all
  then show "race_inv ?s"
    using c g race_inv_parts(1) [OF inv] by (intro race_inv_goneI) simp_all
qed

text \<open>Every access of a handle finds what it accesses, and keeps the invariant.\<close>

lemma race_step_inv:
  assumes inv: "race_inv s" and t: "t < hands s"
  shows "\<exists>s'. race_step t s = Inr s' \<and> race_inv s' \<and> hands s' = hands s"
proof -
  note free = not_lent [OF race_inv_parts(3) [OF inv], of t]
  note move = race_inv_move_to [OF inv t]
  have mem: "\<exists>c b. shared_cnt s = Some c \<and> shared_cow s = Some b \<and> c \<noteq> 0" if "at s t \<in> holding"
    using holding_has_cnt [OF inv t that] by metis
  note acc = load_cnt_def load_cow_def store_cow_def add_cnt_def last_assert_def last_test_def word_ge_1_iff
  show ?thesis
  proof (cases "at s t")
    case (Marking v)
    then show ?thesis using mem race_inv_mark [OF inv t Marking] by (auto simp: race_step_def acc)
  next
    case Delete_Cnt
    then show ?thesis using mem race_inv_delete_cnt [OF inv t Delete_Cnt] by (auto simp: race_step_def)
  next
    case Delete_Cow
    then show ?thesis using race_inv_delete_cow [OF inv t Delete_Cow] by (auto simp: race_step_def)
  next
    case Call_Dtr
    then show ?thesis using race_inv_call_dtr [OF inv t Call_Dtr] by (auto simp: race_step_def)
  next
    case Decrement
    then obtain c where "shared_cnt s = Some c" using mem by auto
    then show ?thesis using Decrement race_inv_decrement [OF inv t Decrement] by (auto simp: race_step_def acc)
  next
    case Write_Clear
    then have inv': "race_inv (s\<lparr>shared_cow := Some False\<rparr>)" by (rule race_inv_clear [OF inv t])
    have "race_inv (move_to t Write_Copy (s\<lparr>shared_cow := Some False\<rparr>))"
      using free t Write_Clear by (intro race_inv_move_to [OF inv']) auto
    then show ?thesis using Write_Clear mem by (auto simp: race_step_def acc)
  qed (use mem free move inv in \<open>auto simp: race_step_def acc intro!: move\<close>)
qed

lemma race_act_inv:
  assumes inv: "race_inv s"
  shows "\<exists>s'. race_act a s = Inr s' \<and> race_inv s' \<and> hands s' = hands s"
proof (cases a)
  case (Advance t)
  then show ?thesis using race_step_inv [OF inv] inv by simp
next
  case (End t)
  then show ?thesis using inv race_inv_move_to [OF inv, of t Unref_Assert]
    by (auto simp: lent_def list_ex_iff image_iff)
next
  case (Write t)
  then show ?thesis using inv race_inv_move_to [OF inv, of t Write_Assert]
    by (auto simp: lent_def list_ex_iff image_iff)
next
  case (Copy t u)
  show ?thesis
  proof (cases "t < hands s \<and> u < hands s \<and> at s t = Held \<and> at s u = Away")
    case True
    then obtain c where "shared_cnt s = Some c" using holding_has_cnt [OF inv, of t] by auto
    then show ?thesis using Copy True race_inv_copy [OF inv, of t u] by (auto simp: add_cnt_def load_cnt_def)
  qed (use Copy inv in auto)
qed

section \<open>Runs\<close>

lemma race_inv_sharing:
  assumes "1 \<le> k" "k \<le> n" "n < 2 ^ 64" "b \<or> k = 1"
  shows "race_inv (sharing n k b)"
proof -
  have "points n (\<lambda>t. if t < k then Held else Away) holding = {..<k}"
    using assms(2) by (auto simp: points_def split: if_splits)
  then have n: "num (sharing n k b) holding = k" by (simp add: num_def sharing_def)
  have z: "num (sharing n k b) L = 0" if "L \<inter> {Held, Away} = {}" for L
    using that by (auto simp: num_eq_0 sharing_def)
  have "alone_before (sharing n k b)" "lenders_held (sharing n k b)"
    by (auto simp: alone_before_def lenders_held_def sharing_def split: if_splits)
  then show ?thesis
    using assms n z [of "{Delete_Cow}"] z [of "{Call_Dtr}"]
    by (intro race_inv_heldI [of _ "of_nat k" b]) (auto simp: sharing_def unat_of_nat_64)
qed

lemma race_run_inv:
  assumes "race_inv s"
  shows "\<exists>s'. race_run as s = Inr s' \<and> race_inv s' \<and> hands s' = hands s"
  using assms
proof (induction as arbitrary: s)
  case (Cons a as)
  obtain s1 where 1: "race_act a s = Inr s1" "race_inv s1" "hands s1 = hands s"
    using race_act_inv [OF Cons.prems] by blast
  obtain s2 where "race_run as s1 = Inr s2 \<and> race_inv s2 \<and> hands s2 = hands s1"
    using Cons.IH [OF 1(2)] by blast
  then show ?case using 1 by simp
qed simp

lemma num_disjoint:
  assumes "L \<inter> M = {}"
  shows "num s (L \<union> M) = num s L + num s M"
proof -
  have "points (hands s) (at s) (L \<union> M) = points (hands s) (at s) L \<union> points (hands s) (at s) M"
    by (auto simp: points_def)
  moreover have "points (hands s) (at s) L \<inter> points (hands s) (at s) M = {}"
    using assms by (auto simp: points_def)
  ultimately show ?thesis by (simp add: num_def card_Un_disjoint)
qed

text \<open>While the flag is false, a handle inside \<open>write()\<close> is the only one.\<close>

lemma unshared_alone:
  assumes inv: "race_inv s" and t: "t < hands s" "at s t \<in> {Write_Copy, Write_Check}" and f: "shared_cow s = Some False"
  shows "num s holding = 1"
proof -
  have tc: "at s t \<in> holding" using t(2) by auto
  have "holding = range Marking \<union> (holding - range Marking)" by auto
  then have sum: "num s holding = num s (range Marking) + num s (holding - range Marking)"
    using num_disjoint [of "range Marking" "holding - range Marking" s] by auto
  have le: "num s holding \<le> 1 + num s (range Marking)"
    using holding_has_cnt [OF inv t(1) tc] f by (intro race_inv_unshared [OF inv]) auto
  have "num s (range Marking) = 0"
  proof (rule ccontr)
    assume "num s (range Marking) \<noteq> 0"
    then obtain u v where u: "u < hands s" "at s u = Marking v" by (auto simp: num_eq_0)
    then have v: "v < hands s" "at s v = Held" using lenders_heldD [OF race_inv_parts(3) [OF inv]] by blast+
    then have "2 \<le> num s (holding - range Marking)" using t by (intro num_two [of t s v]) auto
    then show False using le sum by simp
  qed
  then show ?thesis using le num_positive [OF t(1) tc] by simp
qed

lemma only_holding:
  assumes inv: "race_inv s" and t: "t < hands s" "at s t \<in> holding" and one: "num s holding = 1"
    and u: "u < hands s" "u \<noteq> t"
  shows "at s u = Away"
proof -
  obtain c where c: "shared_cnt s = Some c" using holding_has_cnt [OF inv t] by blast
  have "at s u \<notin> holding" by (rule alone_others [OF one t u])
  moreover have "at s u \<noteq> Delete_Cow" "at s u \<noteq> Call_Dtr"
    using race_inv_cnt(3,4) [OF inv c] u(1) by (auto simp: num_eq_0)
  ultimately show ?thesis by (simp add: holding_def)
qed

lemma nobody_left:
  assumes inv: "race_inv s" and "dtr_calls s = 1" "t < hands s"
  shows "at s t = Away"
proof -
  have "shared_cnt s = None" using race_inv_cnt(5) [OF inv] assms(2) by (cases "shared_cnt s") auto
  then have "num s holding = 0" "num s {Delete_Cow} = 0" "num s {Call_Dtr} = 0"
    using race_inv_gone [OF inv] assms(2) by auto
  then show ?thesis using assms(3) by (auto simp: num_eq_0 holding_def)
qed

lemma all_away:
  assumes inv: "race_inv s" and away: "\<forall>t < hands s. at s t = Away"
  shows "shared_cnt s = None \<and> shared_cow s = None \<and> dtr_calls s = 1 \<or> shared_cnt s = Some 0 \<and> dtr_calls s = 0"
proof -
  have n: "num s L = 0" if "Away \<notin> L" for L using away that by (simp add: num_eq_0)
  show ?thesis
  proof (cases "shared_cnt s")
    case None
    then show ?thesis using race_inv_gone [OF inv None] n by simp
  next
    case (Some c)
    then show ?thesis using race_inv_cnt [OF inv Some] n [of holding] by (simp add: unat_eq_0)
  qed
qed

lemma dtr_calls_le_1: "race_inv s \<Longrightarrow> dtr_calls s \<le> 1"
  by (cases "shared_cnt s") (auto dest: race_inv_cnt race_inv_gone)

text \<open>
  C3: threads that share a copy-on-write object, whatever the interleaving of their copies, writes
  and ends at the atomic accesses: no access finds the count or the flag deleted, no assertion of \<open>last()\<close> fails,
  nothing is deleted twice, \<open>m_dtr\<close> is called at most once and only when no handle is left, and while the flag is
  false in \<open>write()\<close> (so that the data is changed in place) every other handle is gone. When
  all handles are gone, either everything was released, or the count is 0 and nothing ever will be.
\<close>

theorem shared_race_safe:
  assumes "1 \<le> k" "k \<le> n" "n < 2 ^ 64" "b \<or> k = 1"
  shows "\<exists>s. race_run as (sharing n k b) = Inr s \<and> dtr_calls s \<le> 1 \<and>
    (dtr_calls s = 1 \<longrightarrow> (\<forall>t < n. at s t = Away)) \<and>
    (\<forall>t u. t < n \<and> u < n \<and> u \<noteq> t \<and> at s t \<in> {Write_Copy, Write_Check} \<and> shared_cow s = Some False \<longrightarrow> at s u = Away) \<and>
    ((\<forall>t < n. at s t = Away) \<longrightarrow> shared_cnt s = None \<and> shared_cow s = None \<and> dtr_calls s = 1 \<or>
       shared_cnt s = Some 0 \<and> dtr_calls s = 0)"
proof -
  obtain s where s: "race_run as (sharing n k b) = Inr s" "race_inv s" "hands s = n"
    using race_run_inv [OF race_inv_sharing [OF assms], of as] by (auto simp: sharing_def)
  have "at s u = Away" if "t < n" "u < n" "u \<noteq> t" "at s t \<in> {Write_Copy, Write_Check}" "shared_cow s = Some False" for t u
    using only_holding [OF s(2), of t u] unshared_alone [OF s(2), of t] that s(3) by auto
  then show ?thesis
    using s nobody_left [OF s(2)] all_away [OF s(2)] dtr_calls_le_1 [OF s(2)] by (intro exI [of _ s]) blast
qed

theorem shared_race_safe_witness:
  "\<exists>s. race_run [Copy 0 1, End 0, Advance 1, Write 1, Advance 1, End 0, Advance 0] (sharing 2 1 False) = Inr s \<and> dtr_calls s \<le> 1"
proof -
  have "(1 :: nat) \<le> 1" "(1 :: nat) \<le> 2" "(2 :: nat) < 2 ^ 64" "False \<or> (1 :: nat) = 1" by simp_all
  note safe = shared_race_safe [OF this, of "[Copy 0 1, End 0, Advance 1, Write 1, Advance 1, End 0, Advance 0]"]
  show ?thesis using safe by blast
qed

section \<open>Who releases\<close>

text \<open>
  The invariant of schedules in which \<open>unref()\<close> runs on one handle at a time: the count does not
  reach 0, and a handle that is going to decrement is not the last.
\<close>

definition locked_inv :: "race \<Rightarrow> bool" where
  "locked_inv s \<longleftrightarrow> (shared_cnt s \<noteq> None \<longrightarrow> 1 \<le> num s holding) \<and>
     (\<forall>t < hands s. at s t = Decrement \<longrightarrow> 2 \<le> num s holding)"

lemma one_unrefD:
  assumes "one_unref s" "t < hands s" "u < hands s" "in_unref (at s t)" "in_unref (at s u)"
  shows "t = u"
proof (rule ccontr)
  assume "t \<noteq> u"
  have "{t, u} \<subseteq> set (filter (\<lambda>t. in_unref (at s t)) [0..<hands s])" using assms by auto
  then have "card {t, u} \<le> card (set (filter (\<lambda>t. in_unref (at s t)) [0..<hands s]))" by (intro card_mono) auto
  also have "\<dots> \<le> length (filter (\<lambda>t. in_unref (at s t)) [0..<hands s])" by (rule card_length)
  finally show False using assms(1) \<open>t \<noteq> u\<close> by (simp add: one_unref_def)
qed

lemma locked_inv_same:
  assumes "locked_inv s" "hands s' = hands s" "num s' holding = num s holding" "shared_cnt s' = shared_cnt s"
    and "\<And>t. t < hands s \<Longrightarrow> at s' t = Decrement \<Longrightarrow> at s t = Decrement \<or> 2 \<le> num s holding"
  shows "locked_inv s'"
  using assms unfolding locked_inv_def by metis

lemma locked_inv_move:
  assumes "locked_inv s" "t < hands s" "at s t \<in> holding" "q \<in> holding" "q = Decrement \<Longrightarrow> 2 \<le> num s holding"
  shows "locked_inv (move_to t q s)"
proof (rule locked_inv_same [OF assms(1)])
  show "num (move_to t q s) holding = num s holding" using num_move_to [of t s q holding] assms(2-4) by simp
qed (use assms(5) in \<open>auto split: if_splits\<close>)

lemma locked_inv_mem [simp]:
  "locked_inv (s\<lparr>shared_cow := b\<rparr>) = locked_inv s"
  by (simp add: locked_inv_def)

lemma locked_inv_none:
  assumes "shared_cnt s = None" "num s holding = 0"
  shows "locked_inv s"
  using assms by (auto simp: locked_inv_def num_eq_0)

lemma locked_inv_decrement:
  assumes inv: "race_inv s" "locked_inv s" "one_unref s" and t: "t < hands s" "at s t = Decrement"
  shows "locked_inv (move_to t Away (s\<lparr>shared_cnt := Some c\<rparr>))" (is "locked_inv ?s")
proof -
  have "2 \<le> num s holding" using inv(2) t unfolding locked_inv_def by blast
  moreover have "num ?s holding = num s holding - 1"
    using num_move_to [of t "s\<lparr>shared_cnt := Some c\<rparr>" Away holding] t by simp
  moreover have "at ?s u \<noteq> Decrement" if "u < hands s" for u
  proof
    assume "at ?s u = Decrement"
    then have "at s u = Decrement" "u \<noteq> t" by (auto split: if_splits)
    then show False using one_unrefD [OF inv(3) t(1) that] t(2) by (simp add: in_unref_def)
  qed
  ultimately show ?thesis by (simp add: locked_inv_def)
qed

lemma locked_inv_step:
  assumes inv: "race_inv s" "locked_inv s" "one_unref s" and t: "t < hands s" and r: "race_step t s = Inr s'"
  shows "locked_inv s'"
proof -
  note move = locked_inv_move [OF inv(2) t]
  note acc = load_cnt_def load_cow_def store_cow_def add_cnt_def last_assert_def last_test_def
  show ?thesis
  proof (cases "at s t")
    case (Marking v)
    then show ?thesis using r inv(2) t locked_inv_move [of "s\<lparr>shared_cow := Some True\<rparr>" t Held]
      by (auto simp: race_step_def acc split: option.splits)
  next
    case Delete_Cnt
    have "num s holding = 1" using alone_beforeD [OF race_inv_parts(2) [OF inv(1)] t] Delete_Cnt by simp
    then have "num (move_to t Delete_Cow (s\<lparr>shared_cnt := None\<rparr>)) holding = 0"
      using num_move_to [of t "s\<lparr>shared_cnt := None\<rparr>" Delete_Cow holding] t Delete_Cnt by simp
    then show ?thesis using r Delete_Cnt
      by (auto simp: race_step_def intro!: locked_inv_none split: option.splits)
  next
    case Delete_Cow
    obtain u where u: "race_inv s'" using race_step_inv [OF inv(1) t] r by auto
    have "shared_cnt s = None" using last_points(1) [OF inv(1) t] Delete_Cow by simp
    then have "shared_cnt s' = None" using r Delete_Cow by (auto simp: race_step_def split: option.splits)
    then show ?thesis using race_inv_gone(1) [OF u] by (intro locked_inv_none)
  next
    case Call_Dtr
    obtain u where u: "race_inv s'" using race_step_inv [OF inv(1) t] r by auto
    have "shared_cnt s = None" using last_points(1) [OF inv(1) t] Call_Dtr by simp
    then have "shared_cnt s' = None" using r Call_Dtr by (auto simp: race_step_def)
    then show ?thesis using race_inv_gone(1) [OF u] by (intro locked_inv_none)
  next
    case Decrement
    then show ?thesis using r locked_inv_decrement [OF inv t Decrement]
      by (auto simp: race_step_def acc bind_res_Inr_iff split: option.splits)
  next
    case Unref_Test
    then have "at s t \<in> holding" by simp
    then obtain c where c: "shared_cnt s = Some c" "c \<noteq> 0" "unat c = num s holding"
      using holding_has_cnt [OF inv(1) t] by metis
    have "c \<noteq> 1 \<Longrightarrow> 2 \<le> num s holding" using c(2,3) unat_eq_one_iff [of c] unat_eq_0 [of c] by linarith
    then show ?thesis using r Unref_Test c(1) move [of Decrement] move [of Delete_Cnt]
      by (cases "c = 1") (auto simp: race_step_def acc)
  next
    case Write_Clear
    then show ?thesis using r inv(2) t locked_inv_move [of "s\<lparr>shared_cow := Some False\<rparr>" t Write_Copy]
      by (auto simp: race_step_def acc split: option.splits)
  qed (use r inv(2) in \<open>auto simp: race_step_def acc bind_res_Inr_iff intro!: move split: option.splits if_splits\<close>)
qed

lemma locked_inv_act:
  assumes inv: "race_inv s" "locked_inv s" "one_unref s" and r: "race_act a s = Inr s'"
  shows "locked_inv s'"
proof (cases a)
  case (Copy t u)
  show ?thesis
  proof (cases "t < hands s \<and> u < hands s \<and> at s t = Held \<and> at s u = Away")
    case True
    then obtain c where c: "shared_cnt s = Some c" "s' = move_to u (Marking t) (s\<lparr>shared_cnt := Some (c + 1)\<rparr>)"
      using r Copy by (auto simp: add_cnt_def load_cnt_def bind_res_Inr_iff split: option.splits)
    have "num s' holding = num s holding + 1"
      using num_move_to [of u "s\<lparr>shared_cnt := Some (c + 1)\<rparr>" "Marking t" holding] True c(2) by simp
    then show ?thesis using inv(2) c True unfolding locked_inv_def by (auto split: if_splits)
  qed (use r Copy inv(2) in auto)
next
  case (Advance t)
  then show ?thesis using r inv(2) locked_inv_step [OF inv, of t] by (auto split: if_splits)
next
  case (End t)
  then show ?thesis using r inv(2) locked_inv_move [OF inv(2), of t Unref_Assert] by (auto split: if_splits)
next
  case (Write t)
  then show ?thesis using r inv(2) locked_inv_move [OF inv(2), of t Write_Assert] by (auto split: if_splits)
qed

lemma locked_run_inv:
  assumes "race_inv s" "locked_inv s" "locked as s" "race_run as s = Inr s'"
  shows "locked_inv s'"
  using assms
proof (induction as arbitrary: s)
  case (Cons a as)
  obtain s1 where 1: "race_act a s = Inr s1" "race_inv s1"
    using race_act_inv [OF Cons.prems(1)] by blast
  have "locked_inv s1" using locked_inv_act [OF Cons.prems(1,2) _ 1(1)] Cons.prems(3) by simp
  then show ?case using Cons.IH [OF 1(2)] Cons.prems(3,4) 1(1) by simp
qed simp

text \<open>The schedule in which all handles end at once: each makes its test before any of them decrements.\<close>

definition all_test_first :: "nat \<Rightarrow> action list" where
  "all_test_first k = map End [0..<k] @ map Advance [0..<k] @ map Advance [0..<k] @ map Advance [0..<k]"

definition phase :: "nat \<Rightarrow> point \<Rightarrow> point \<Rightarrow> (nat \<Rightarrow> size_t) \<Rightarrow> nat \<Rightarrow> race" where
  "phase k p q c j = \<lparr>hands = k, at = (\<lambda>t. if t < j then q else if t < k then p else Away),
     shared_cnt = Some (c j), shared_cow = Some True, dtr_calls = 0\<rparr>"

lemma race_run_append: "race_run (as @ bs) s = bind_res (race_run as s) (race_run bs)"
proof (induction as arbitrary: s)
  case (Cons a as)
  then show ?case by (cases "race_act a s") simp_all
qed simp

lemma race_run_phase:
  assumes "\<And>j. j < k \<Longrightarrow> race_act (f j) (S j) = Inr (S (Suc j))"
  shows "j \<le> k \<Longrightarrow> race_run (map f [0..<j]) (S 0) = Inr (S j)"
  by (induction j) (simp_all add: race_run_append assms)

lemma phase_ends: "c k = c' 0 \<Longrightarrow> phase k p q c k = phase k q q' c' 0"
  by (auto simp: phase_def)

lemma phase_move_to:
  assumes "j < k"
  shows "move_to j q (phase k p q c j) = phase k p q (\<lambda>_. c j) (Suc j)"
  using assms by (auto simp: move_to_def phase_def)

lemma all_test_first_run:
  assumes "2 \<le> k" "k < 2 ^ 64"
  shows "race_run (all_test_first k) (sharing k k True) = Inr (phase k Decrement Away (\<lambda>j. of_nat (k - j)) k)"
proof -
  let ?n = "of_nat k :: size_t"
  have k: "?n \<noteq> 0" "?n \<noteq> 1" using assms unat_of_nat_64 [of k] by auto
  note acc = load_cnt_def add_cnt_def last_assert_def last_test_def word_ge_1_iff
  have at: "at (phase k p q c j) j = p" "hands (phase k p q c j) = k" "shared_cnt (phase k p q c j) = Some (c j)"
    if "j < k" for p q c j using that by (simp_all add: phase_def)
  have "race_run (map End [0..<k]) (phase k Held Unref_Assert (\<lambda>_. ?n) 0) = Inr (phase k Held Unref_Assert (\<lambda>_. ?n) k)"
  proof (rule race_run_phase)
    fix j assume j: "j < k"
    have "\<not> lent j (phase k Held Unref_Assert (\<lambda>_. ?n) j)" by (auto simp: lent_def list_ex_iff phase_def)
    then show "race_act (End j) (phase k Held Unref_Assert (\<lambda>_. ?n) j) = Inr (phase k Held Unref_Assert (\<lambda>_. ?n) (Suc j))"
      using j at [OF j] by (simp add: phase_move_to)
  qed simp
  moreover have "race_run (map Advance [0..<k]) (phase k Unref_Assert Unref_Test (\<lambda>_. ?n) 0) =
      Inr (phase k Unref_Assert Unref_Test (\<lambda>_. ?n) k)"
    by (rule race_run_phase [where k = k]) (simp_all add: race_step_def at acc k phase_move_to)
  moreover have "race_run (map Advance [0..<k]) (phase k Unref_Test Decrement (\<lambda>_. ?n) 0) =
      Inr (phase k Unref_Test Decrement (\<lambda>_. ?n) k)"
    by (rule race_run_phase [where k = k]) (simp_all add: race_step_def at acc k phase_move_to)
  moreover have "race_run (map Advance [0..<k]) (phase k Decrement Away (\<lambda>j. of_nat (k - j)) 0) =
      Inr (phase k Decrement Away (\<lambda>j. of_nat (k - j)) k)"
  proof (rule race_run_phase)
    fix j assume j: "j < k"
    have "of_nat (k - j) - 1 = (of_nat (k - Suc j) :: size_t)" using j by (simp add: of_nat_diff)
    then show "race_act (Advance j) (phase k Decrement Away (\<lambda>j. of_nat (k - j)) j) =
        Inr (phase k Decrement Away (\<lambda>j. of_nat (k - j)) (Suc j))"
      using j at [OF j] by (auto simp: race_step_def acc move_to_def phase_def)
  qed simp
  moreover have "sharing k k True = phase k Held Unref_Assert (\<lambda>_. ?n) 0"
    by (simp add: sharing_def phase_def)
  moreover have "phase k Held Unref_Assert (\<lambda>_. ?n) k = phase k Unref_Assert Unref_Test (\<lambda>_. ?n) 0"
    "phase k Unref_Assert Unref_Test (\<lambda>_. ?n) k = phase k Unref_Test Decrement (\<lambda>_. ?n) 0"
    "phase k Unref_Test Decrement (\<lambda>_. ?n) k = phase k Decrement Away (\<lambda>j. of_nat (k - j)) 0"
    by (simp_all add: phase_ends)
  ultimately show ?thesis
    by (simp only: all_test_first_def race_run_append bind_res.simps)
qed

lemma locked_releases:
  assumes k: "1 \<le> k" "k < 2 ^ 64"
    and run: "locked as (sharing k k True)" "race_run as (sharing k k True) = Inr s"
    and away: "\<forall>t < k. at s t = Away"
  shows "shared_cnt s = None \<and> shared_cow s = None \<and> dtr_calls s = 1"
proof -
  have i: "race_inv (sharing k k True)" using k by (intro race_inv_sharing) auto
  have "num (sharing k k True) holding = k"
    using race_inv_cnt(1) [OF i] k by (simp add: sharing_def unat_of_nat_64)
  then have "locked_inv (sharing k k True)" using k by (simp add: locked_inv_def) (simp add: sharing_def)
  then have "locked_inv s" by (rule locked_run_inv [OF i _ run])
  moreover have s: "race_inv s" "hands s = k" using race_run_inv [OF i, of as] run(2) by (auto simp: sharing_def)
  moreover have "num s holding = 0" using away s(2) by (simp add: num_eq_0)
  ultimately show ?thesis using all_away [OF s(1)] away by (simp add: locked_inv_def)
qed

text \<open>
  C6: \<open>last()\<close> and the decrement are separate accesses, so a group of any size can leak: when all \<open>k\<close> handles
  make their test before the first decrement, everybody decrements, the count goes to 0 and nobody
  deletes it or calls \<open>m_dtr\<close>. Schedules in which \<open>unref()\<close> runs on one handle at a time release everything exactly once.
\<close>

theorem shared_race_release:
  assumes "2 \<le> k" "k < 2 ^ 64"
  shows "(\<exists>s. race_run (all_test_first k) (sharing k k True) = Inr s \<and>
      (\<forall>t < k. at s t = Away) \<and> shared_cnt s = Some 0 \<and> shared_cow s = Some True \<and> dtr_calls s = 0) \<and>
    (\<forall>as s. locked as (sharing k k True) \<and> race_run as (sharing k k True) = Inr s \<and> (\<forall>t < k. at s t = Away) \<longrightarrow>
      shared_cnt s = None \<and> shared_cow s = None \<and> dtr_calls s = 1)"
proof
  show "\<exists>s. race_run (all_test_first k) (sharing k k True) = Inr s \<and>
      (\<forall>t < k. at s t = Away) \<and> shared_cnt s = Some 0 \<and> shared_cow s = Some True \<and> dtr_calls s = 0"
    by (rule exI [of _ "phase k Decrement Away (\<lambda>j. of_nat (k - j)) k"])
      (simp add: all_test_first_run [OF assms], simp add: phase_def)
  show "\<forall>as s. locked as (sharing k k True) \<and> race_run as (sharing k k True) = Inr s \<and> (\<forall>t < k. at s t = Away) \<longrightarrow>
      shared_cnt s = None \<and> shared_cow s = None \<and> dtr_calls s = 1"
  proof (intro allI impI)
    have "1 \<le> k" using assms(1) by simp
    then show "shared_cnt s = None \<and> shared_cow s = None \<and> dtr_calls s = 1"
      if "locked as (sharing k k True) \<and> race_run as (sharing k k True) = Inr s \<and> (\<forall>t < k. at s t = Away)" for as s
      using that assms(2) by (elim conjE) (rule locked_releases)
  qed
qed

theorem shared_race_release_witness:
  "\<exists>s. race_run (all_test_first 2) (sharing 2 2 True) = Inr s \<and> shared_cnt s = Some 0 \<and> dtr_calls s = 0"
proof -
  have "(2 :: nat) \<le> 2" "(2 :: nat) < 2 ^ 64" by simp_all
  from shared_race_release [OF this] show ?thesis by blast
qed

text \<open>A schedule of the second kind: the two handles end one after the other.\<close>

lemma one_after_the_other:
  defines "as \<equiv> End 0 # replicate 3 (Advance 0) @ End 1 # replicate 5 (Advance 1)"
  shows "locked as (sharing 2 2 True) \<and>
    (\<exists>s. race_run as (sharing 2 2 True) = Inr s \<and> at s 0 = Away \<and> at s 1 = Away \<and> dtr_calls s = 1)"
  by (simp add: as_def sharing_def race_step_def load_cnt_def add_cnt_def last_assert_def last_test_def move_to_def
      lent_def one_unref_def in_unref_def upt_rec numeral_eq_Suc)

end
