(* ===== verification/Output_Dump.thy ===== *)
theory Output_Dump
  imports Prelude
begin

text \<open>
  The output streams of \<^verbatim>\<open>src/output.h\<close> and \<^verbatim>\<open>src/output.cpp\<close>: the channels, class
  \<^verbatim>\<open>logging::Dump\<close>, and the indentation.

  The build is the default one (\<^verbatim>\<open>VERBOSE\<close> and \<^verbatim>\<open>DEBUG\<close> defined). What a \<open>Dump\<close> prints is a list of
  lines for its stream; the width of the terminal, the environment variables \<^verbatim>\<open>NVERBOSE\<close> and
  \<^verbatim>\<open>NDEBUG\<close>, and what the user types are arguments. The standard library's
  \<^verbatim>\<open>istream::get(buffer, n, delim)\<close> stores up to \<open>n - 1\<close> characters before the delimiter or the end
  and counts none when the first one is the delimiter; \<^verbatim>\<open>ignore()\<close> drops one character.
\<close>

section \<open>Channels\<close>

datatype channel = OUT | ERR | FTL | BRK | DBG | DMY | BUF

datatype ostream = Cout | Cerr | Cnul | Cftl | Given_Stream

definition esc :: char where "esc = CHR 0x1B"
definition nul :: char where "nul = CHR 0x00"
definition newline :: char where "newline = CHR 0x0A"

definition channel_map :: "(channel \<times> ostream \<times> string) list" where
  "channel_map =
    [(OUT, Cout, esc # ''[1;35m''), (ERR, Cerr, esc # ''[1;31m''), (FTL, Cerr, esc # ''[1;31m''),
     (BRK, Cerr, esc # ''[1;31m''), (DBG, Cerr, esc # ''[1;35m''), (DMY, Cnul, esc # ''[0;35m''),
     (BUF, Cftl, esc # ''[0;34m'')]"

text \<open>\<open>channelMetadata\<close> walks the table without an end test: beyond it there is no value.\<close>

fun channel_metadata :: "channel \<Rightarrow> (channel \<times> ostream \<times> string) list \<Rightarrow> (ostream \<times> string) option" where
  "channel_metadata c [] = None"
| "channel_metadata c ((c', os, col) # m) = (if c = c' then Some (os, col) else channel_metadata c m)"

definition channel_stream :: "channel \<Rightarrow> ostream" where
  "channel_stream c = fst (the (channel_metadata c channel_map))"

definition channel_color :: "channel \<Rightarrow> string" where
  "channel_color c = snd (the (channel_metadata c channel_map))"

section \<open>Dump\<close>

text \<open>
  A \<open>stringstream\<close> has contents and a position at which it writes. \<open>line\<close> is an \<open>int\<close>; the source
  only passes \<^verbatim>\<open>__LINE__\<close>.
\<close>

record stringstream =
  ss_str :: string
  ss_put :: nat

definition ss_write :: "string \<Rightarrow> stringstream \<Rightarrow> stringstream" where
  "ss_write t ss = \<lparr>ss_str = take (ss_put ss) (ss_str ss) @ t @ drop (ss_put ss + length t) (ss_str ss),
     ss_put = ss_put ss + length t\<rparr>"

record dump =
  channel_of :: channel
  file_of :: string
  line_of :: nat
  color_of :: string
  ss :: stringstream
  os_of :: ostream

definition dump_channel :: "channel \<Rightarrow> string \<Rightarrow> nat \<Rightarrow> fault + dump" where
  "dump_channel c file line = (if c \<noteq> BUF
     then Inr \<lparr>channel_of = c, file_of = file, line_of = line, color_of = channel_color c,
       ss = \<lparr>ss_str = [], ss_put = 0\<rparr>, os_of = channel_stream c\<rparr>
     else Inl Assert_Failed)"

definition dump_stream :: "ostream \<Rightarrow> string \<Rightarrow> nat \<Rightarrow> dump" where
  "dump_stream os file line = \<lparr>channel_of = BUF, file_of = file, line_of = line, color_of = channel_color BUF,
     ss = \<lparr>ss_str = [], ss_put = 0\<rparr>, os_of = os\<rparr>"

text \<open>The copy constructor makes the stream from \<open>str()\<close>: its write position is the beginning.\<close>

definition dump_copy :: "dump \<Rightarrow> dump" where
  "dump_copy d = d\<lparr>ss := \<lparr>ss_str = ss_str (ss d), ss_put = 0\<rparr>\<rparr>"

definition dump_append :: "string \<Rightarrow> dump \<Rightarrow> dump" where
  "dump_append t d = d\<lparr>ss := ss_write t (ss d)\<rparr>"

definition dump_expect :: "string \<Rightarrow> dump \<Rightarrow> bool" where
  "dump_expect s d \<longleftrightarrow> s = ss_str (ss d)"

definition indent :: "int \<Rightarrow> int" where "indent i = i + 1"
definition unindent :: "int \<Rightarrow> int" where "unindent i = (if i \<noteq> 0 then i - 1 else i)"

section \<open>The file name\<close>

definition filename_length :: nat where "filename_length = 40"

definition bold :: string where "bold = esc # ''[1;36m''"
definition colon :: string where "colon = esc # ''[0;35m:''"

text \<open>The decimal digits of a number, and \<open>%*s\<close>: padding on the left.\<close>

fun digits :: "nat \<Rightarrow> string" where
  "digits n = (if n < 10 then [char_of (48 + n)] else digits (n div 10) @ [char_of (48 + n mod 10)])"

declare digits.simps [simp del]

definition pad_left :: "nat \<Rightarrow> string \<Rightarrow> string" where
  "pad_left n s = replicate (n - length s) CHR '' '' @ s"

text \<open>The last component of the path: what follows the last slash.\<close>

definition basename :: "string \<Rightarrow> string" where
  "basename file = rev (takeWhile (\<lambda>c. c \<noteq> CHR ''/'') (rev file))"

definition filename :: "string \<Rightarrow> nat \<Rightarrow> fault + string" where
  "filename file line =
    (let len = filename_length + 1; line_len = 4;
         file_len = len - line_len - length colon - 2 * length bold - 1;
         base = basename file; i = length base;
         f = (if i > file_len then drop (i - file_len) base else base);
         buffer = bold @ pad_left file_len f @ colon @ bold @ pad_left line_len (digits line)
     in if length buffer = len - 1
        then Inr (if i > file_len then replicate 3 CHR ''.'' @ drop 3 buffer else buffer)
        else Inl Assert_Failed)"

section \<open>Printing\<close>

record env =
  max_total :: int
  nverbose :: bool
  ndebug :: bool
  indentation :: int
  stdin :: string

definition max_buffer :: nat where "max_buffer = 1024"

text \<open>The prompt, and the width of it that the code computes.\<close>

definition prompt :: "string \<Rightarrow> env \<Rightarrow> dump \<Rightarrow> fault + string \<times> int" where
  "prompt prefix e d = bind_res (filename (file_of d) (line_of d)) (\<lambda>name.
     let p = color_of d @ prefix @ '' ('' @ pad_left filename_length (take filename_length name) @ color_of d @ '')''
           @ (esc # ''[0m'') @ replicate (nat (indentation e * 2)) CHR '' '';
         written = length p
     in if written < max_buffer then Inr (p, int written - int (length (color_of d)) * 5 - 4)
        else Inl Assert_Failed)"

definition carat :: string where "carat = esc # ''[1;32m>'' @ esc # ''[0m ''"

text \<open>
  One round of the loop of \<open>Print\<close>: \<open>get\<close> of at most \<open>n\<close> characters of a line, the C string in
  the buffer, the wrap test on its length, and what is left to read. The buffer has
  \<open>max_buffer + 1\<close> bytes.
\<close>

definition get_chunk :: "nat \<Rightarrow> string \<Rightarrow> string" where
  "get_chunk n s = take n (takeWhile (\<lambda>c. c \<noteq> newline) s)"

definition c_string :: "string \<Rightarrow> string" where
  "c_string b = takeWhile (\<lambda>c. c \<noteq> nul) b"

definition wraps :: "nat \<Rightarrow> string \<Rightarrow> bool" where
  "wraps n s \<longleftrightarrow> length (c_string (get_chunk n s)) = n"

definition left_after :: "nat \<Rightarrow> string \<Rightarrow> string" where
  "left_after n s = drop (length (get_chunk n s) + (if wraps n s then 0 else 1)) s"

lemma left_after_less: "get_chunk n s \<noteq> [] \<Longrightarrow> length (left_after n s) < length s"
  by (cases s) (auto simp: left_after_def get_chunk_def)

text \<open>
  The loop, over the text still to be read; the prompt is blanked after the first line, and
  \<open>nl\<close> is the local \<open>newline\<close>.
\<close>

function print_loop :: "nat \<Rightarrow> string \<Rightarrow> string \<Rightarrow> bool \<Rightarrow> string \<Rightarrow> fault + string list" where
  "print_loop n pr blank nl s =
    (if get_chunk n s = [] then Inr []
     else if max_buffer < length (get_chunk n s) then Inl Out_Of_Bounds
     else bind_res (print_loop n blank blank (\<not> wraps n s) (left_after n s)) (\<lambda>ls.
       Inr ((pr @ (if nl then carat else ''  '') @ c_string (get_chunk n s)) # ls)))"
  by pat_completeness auto

termination
  by (relation "measure (\<lambda>(n, pr, blank, nl, s). length s)") (auto simp: left_after_less)

declare print_loop.simps [simp del]

text \<open>
  \<open>Print\<close>: after the first line the prompt is \<open>prefix\<close> blanks at the end of the same buffer; a
  \<open>prefix\<close> that is negative or longer than the prompt would be an access outside of it.
\<close>

definition print_text :: "env \<Rightarrow> int \<Rightarrow> string \<Rightarrow> string \<Rightarrow> fault + string list" where
  "print_text e prefix pr s =
    (if 0 \<le> prefix \<and> prefix \<le> int (length pr)
     then print_loop (nat (max_total e - prefix - 2)) pr (replicate (nat prefix) CHR '' '') True s
     else Inl Out_Of_Bounds)"

definition dump_output :: "string \<Rightarrow> env \<Rightarrow> dump \<Rightarrow> fault + string list" where
  "dump_output prefix e d =
    (if \<not> nverbose e
     then bind_res (prompt prefix e d) (\<lambda>(pr, len). print_text e len pr (ss_str (ss d)))
     else print_text e 0 [] (ss_str (ss d)))"

section \<open>Flushing\<close>

text \<open>
  \<open>Choice::operator>>\<close> reads characters until one of the options comes; at the end of the input
  it never returns (\<open>None\<close>).
\<close>

fun choice_read :: "char list \<Rightarrow> string \<Rightarrow> (char \<times> string) option" where
  "choice_read options [] = None"
| "choice_read options (c # cs) =
     (if c \<in> {CHR '' '', CHR 0x09, newline, CHR 0x0B, CHR 0x0C, CHR 0x0D} then choice_read options cs
      else if c \<in> set options then Some (c, cs) else choice_read options cs)"

text \<open>What a flush does: lines for a stream, and then it returns, aborts, or waits for ever.\<close>

datatype flushed = Returns dump string | Aborts | Hangs

definition clear_dump :: "dump \<Rightarrow> dump" where
  "clear_dump d = d\<lparr>ss := \<lparr>ss_str = [], ss_put = 0\<rparr>\<rparr>"

definition flush :: "env \<Rightarrow> dump \<Rightarrow> fault + (string list \<times> flushed)" where
  "flush e d = (let done = (\<lambda>ls. Inr (ls, Returns (clear_dump d) (stdin e))) in
     case channel_of d of
       OUT \<Rightarrow> bind_res (dump_output ''OUT'' e d) done
     | ERR \<Rightarrow> bind_res (dump_output ''ERR'' e d) done
     | FTL \<Rightarrow> bind_res (dump_output ''FTL'' e d) (\<lambda>ls. Inr (ls, Aborts))
     | BRK \<Rightarrow> bind_res (dump_output ''BRK'' e d) (\<lambda>ls. Inr (ls, case choice_read ''yn'' (stdin e) of
           None \<Rightarrow> Hangs
         | Some (c, rest) \<Rightarrow> if c = CHR ''n'' then Aborts else Returns (clear_dump d) rest))
     | BUF \<Rightarrow> bind_res (dump_output ''BUF'' e d) done
     | DBG \<Rightarrow> if \<not> ndebug e then bind_res (dump_output ''DBG'' e d) done else done []
     | DMY \<Rightarrow> done [])"

section \<open>What is printed, line by line\<close>

text \<open>
  The printed lines without the prompt: a flag, whether a line of the text begins here, and the
  characters. \<open>segs\<close> is the loop; \<open>seg_lines\<close> says what it does with the lines of a text.
\<close>

function segs :: "nat \<Rightarrow> bool \<Rightarrow> string \<Rightarrow> (bool \<times> string) list" where
  "segs n nl s = (if get_chunk n s = [] then []
     else (nl, c_string (get_chunk n s)) # segs n (\<not> wraps n s) (left_after n s))"
  by pat_completeness auto
termination by (relation "measure (\<lambda>(n, nl, s). length s)") (auto simp: left_after_less)

declare segs.simps [simp del]

definition mark :: "bool \<times> string \<Rightarrow> string" where
  "mark x = (if fst x then carat else ''  '') @ snd x"

definition render :: "string \<Rightarrow> string \<Rightarrow> (bool \<times> string) list \<Rightarrow> string list" where
  "render pr blank xs = (case xs of [] \<Rightarrow> [] | x # xs \<Rightarrow> (pr @ mark x) # map (\<lambda>x. blank @ mark x) xs)"

lemma render_blank: "render blank blank xs = map (\<lambda>x. blank @ mark x) xs"
  by (cases xs) (simp_all add: render_def)

lemma print_loop_segs:
  "n \<le> max_buffer \<Longrightarrow> print_loop n pr blank nl s = Inr (render pr blank (segs n nl s))"
proof (induction n pr blank nl s rule: print_loop.induct)
  case (1 n pr blank nl s)
  have "length (get_chunk n s) \<le> max_buffer" using 1(2) by (simp add: get_chunk_def)
  then show ?case using 1
    by (simp add: print_loop.simps [of n pr] segs.simps [of n nl] render_blank)
      (simp add: render_def mark_def)
qed

function lines_of :: "string \<Rightarrow> string list" where
  "lines_of s = (if s = [] then []
     else takeWhile (\<lambda>c. c \<noteq> newline) s # lines_of (drop 1 (dropWhile (\<lambda>c. c \<noteq> newline) s)))"
  by pat_completeness auto
termination
proof (relation "measure length")
  fix s :: string
  assume "s \<noteq> []"
  then have "length (drop 1 (dropWhile (\<lambda>c. c \<noteq> newline) s)) < length s"
    using length_dropWhile_le [of "\<lambda>c. c \<noteq> newline" s] by (cases s) (simp, fastforce simp: le_diff_conv)
  then show "(drop 1 (dropWhile (\<lambda>c. c \<noteq> newline) s), s) \<in> measure length" by simp
qed simp

declare lines_of.simps [simp del]

lemma lines_of_simps: "lines_of [] = []" "lines_of (newline # r) = [] # lines_of r"
  by (simp_all add: lines_of.simps [of "[]"] lines_of.simps [of "newline # r"])

fun line_segs :: "nat \<Rightarrow> bool \<Rightarrow> string \<Rightarrow> (bool \<times> string) list" where
  "line_segs n nl l = (nl, take n l) #
     (if length l \<le> n \<or> n = 0 then [] else line_segs n False (drop n l))"

declare line_segs.simps [simp del]

fun seg_lines :: "nat \<Rightarrow> bool \<Rightarrow> string list \<Rightarrow> (bool \<times> string) list" where
  "seg_lines n nl [] = []"
| "seg_lines n nl (l # ls) = (if l = [] then []
     else line_segs n nl l @ (if n dvd length l then [] else seg_lines n True ls))"

lemma c_string_id: "nul \<notin> set b \<Longrightarrow> c_string b = b"
  unfolding c_string_def by (rule takeWhile_eq_all_conv [THEN iffD2]) metis

lemma get_chunk_sub: "set (get_chunk n s) \<subseteq> set s"
  unfolding get_chunk_def by (auto dest!: in_set_takeD set_takeWhileD)

lemma left_after_sub: "set (left_after n s) \<subseteq> set s"
  unfolding left_after_def by (rule set_drop_subset)

lemma segs_lines:
  assumes n: "0 < n"
  shows "nul \<notin> set s \<Longrightarrow> segs n nl s = seg_lines n nl (lines_of s)"
proof (induction s arbitrary: nl rule: measure_induct_rule [of length])
  case (less s)
  define l where "l = takeWhile (\<lambda>c. c \<noteq> newline) s"
  define r where "r = dropWhile (\<lambda>c. c \<noteq> newline) s"
  have s: "s = l @ r" by (simp add: l_def r_def)
  have r: "r = [] \<or> (\<exists>r'. r = newline # r')"
    unfolding r_def by (cases "dropWhile (\<lambda>c. c \<noteq> newline) s") (auto dest: hd_dropWhile [rotated] simp: dropWhile_eq_Cons_conv)
  have lnl: "\<forall>c \<in> set l. c \<noteq> newline" unfolding l_def by (auto dest: set_takeWhileD)
  have chunk: "get_chunk n s = take n l" by (simp add: get_chunk_def l_def)
  have "nul \<notin> set (take n l)" using less.prems get_chunk_sub [of n s] chunk by auto
  then have cs: "c_string (take n l) = take n l" by (rule c_string_id)
  have w: "wraps n s \<longleftrightarrow> n \<le> length l" by (auto simp: wraps_def chunk cs)
  have sub: "nul \<notin> set (left_after n s)" using less.prems left_after_sub [of n s] by blast
  show ?case
  proof (cases "l = []")
    case True
    then show ?thesis using chunk by (cases "s = []") (simp_all add: segs.simps [of n nl s] lines_of.simps [of s] l_def,
        simp add: segs.simps [of n nl "[]"] lines_of.simps [of "[]"])
  next
    case False
    then have s0: "s \<noteq> []" "get_chunk n s \<noteq> []" using s n chunk by auto
    have lines: "lines_of s = l # lines_of (drop 1 r)" using s0(1) by (simp add: lines_of.simps [of s] l_def r_def)
    note IH = less.IH [OF left_after_less [OF s0(2)] sub]
    have unfold: "segs n nl s = (nl, take n l) # seg_lines n (\<not> wraps n s) (lines_of (left_after n s))"
      using s0(2) by (simp add: segs.simps [of n nl s] chunk cs IH)
    consider "length l < n" | "length l = n" | "n < length l" by linarith
    then show ?thesis
    proof cases
      case 1
      then have "left_after n s = drop (Suc (length l)) s" using w by (simp add: left_after_def chunk)
      then have "left_after n s = drop 1 r" by (simp add: s)
      moreover have "\<not> n dvd length l" using 1 False by (auto dest: dvd_imp_le)
      ultimately show ?thesis using 1 False w unfold lines by (simp add: line_segs.simps [of n nl l])
    next
      case 2
      then have "left_after n s = drop (length l) s" using w by (simp add: left_after_def chunk)
      then have "left_after n s = r" by (simp add: s)
      moreover have "seg_lines n False (lines_of r) = []"
        using r by (auto simp: lines_of_simps)
      ultimately show ?thesis using 2 False w unfold lines by (simp add: line_segs.simps [of n nl l])
    next
      case 3
      then have "left_after n s = drop n s" using w by (simp add: left_after_def chunk)
      then have "left_after n s = drop n l @ r" using 3 by (simp add: s)
      moreover have "takeWhile (\<lambda>c. c \<noteq> newline) (drop n l @ r) = drop n l"
        "dropWhile (\<lambda>c. c \<noteq> newline) (drop n l @ r) = r"
        using r lnl by (auto simp: takeWhile_append dropWhile_append in_set_dropD)
      ultimately have "lines_of (left_after n s) = drop n l # lines_of (drop 1 r)"
        using 3 by (simp add: lines_of.simps [of "drop n l @ r"])
      moreover have "n dvd length l - n \<longleftrightarrow> n dvd length l" using 3 by (simp add: dvd_minus_self)
      ultimately show ?thesis using 3 False w unfold lines n by (simp add: line_segs.simps [of n nl l])
    qed
  qed
qed

text \<open>Reading printed lines back: a line of the text is a marked line and the unmarked ones after it.\<close>

function glue :: "(bool \<times> string) list \<Rightarrow> string list" where
  "glue xs = (case xs of [] \<Rightarrow> []
     | x # xs \<Rightarrow> (snd x @ concat (map snd (takeWhile (\<lambda>y. \<not> fst y) xs))) # glue (dropWhile (\<lambda>y. \<not> fst y) xs))"
  by pat_completeness auto
termination
  by (relation "measure length") (auto simp: less_Suc_eq_le length_dropWhile_le)

declare glue.simps [simp del]

lemma glue_simps:
  "glue [] = []"
  "glue (x # xs) = (snd x @ concat (map snd (takeWhile (\<lambda>y. \<not> fst y) xs))) # glue (dropWhile (\<lambda>y. \<not> fst y) xs)"
  by (simp_all add: glue.simps [of "[]"] glue.simps [of "x # xs"])

lemma line_segs_Cons: "line_segs n nl l = (nl, take n l) # (if length l \<le> n \<or> n = 0 then [] else line_segs n False (drop n l))"
  by (rule line_segs.simps)

lemma line_segs_tail:
  "0 < n \<Longrightarrow> \<forall>y \<in> set (line_segs n False l). \<not> fst y \<and> length (snd y) \<le> n"
  "0 < n \<Longrightarrow> concat (map snd (line_segs n nl l)) = l"
proof -
  show "0 < n \<Longrightarrow> \<forall>y \<in> set (line_segs n False l). \<not> fst y \<and> length (snd y) \<le> n"
  proof (induction l rule: measure_induct_rule [of length])
    case (less l)
    show ?case
    proof (cases "length l \<le> n")
      case False
      then show ?thesis using less.IH [of "drop n l"] less.prems by (subst line_segs_Cons) simp
    qed (use less.prems in \<open>simp add: line_segs_Cons [of n False l]\<close>)
  qed
  show "0 < n \<Longrightarrow> concat (map snd (line_segs n nl l)) = l"
  proof (induction l arbitrary: nl rule: measure_induct_rule [of length])
    case (less l)
    then show ?case by (subst line_segs_Cons) (auto simp: not_le)
  qed
qed

lemma glue_line:
  assumes n: "0 < n" and r: "rest = [] \<or> fst (hd rest)"
  shows "glue (line_segs n True l @ rest) = l # glue rest"
proof -
  obtain t where t: "line_segs n True l = (True, take n l) # t" "\<forall>y \<in> set t. \<not> fst y"
    using line_segs_tail(1) [OF n, of "drop n l"] line_segs_Cons [of n True l] by (cases "length l \<le> n") (use n in auto)
  have "takeWhile (\<lambda>y. \<not> fst y) (t @ rest) = t" "dropWhile (\<lambda>y. \<not> fst y) (t @ rest) = rest"
    using t(2) r by (cases rest; auto simp: takeWhile_append dropWhile_append)+
  then show ?thesis using line_segs_tail(2) [OF n, of True l] by (simp add: t(1) glue_simps)
qed

lemma seg_lines_hd: "seg_lines n True ls = [] \<or> fst (hd (seg_lines n True ls))"
  by (cases ls) (auto simp: line_segs_Cons)

lemma glue_seg_lines:
  assumes n: "0 < n"
  shows "\<forall>l \<in> set ls. l \<noteq> [] \<Longrightarrow> \<forall>l \<in> set (butlast ls). \<not> n dvd length l \<Longrightarrow> glue (seg_lines n True ls) = ls"
proof (induction ls)
  case (Cons l ls)
  show ?case
  proof (cases "ls = []")
    case True
    then show ?thesis using Cons.prems(1) glue_line [OF n, of "[]" l] by (simp add: glue_simps)
  next
    case False
    then show ?thesis using Cons glue_line [OF n seg_lines_hd, of l] by simp
  qed
qed (simp add: glue_simps)

lemma seg_lines_width: "0 < n \<Longrightarrow> x \<in> set (seg_lines n nl ls) \<Longrightarrow> length (snd x) \<le> n"
proof (induction n nl ls rule: seg_lines.induct)
  case (2 n nl l ls)
  have "x \<in> set (line_segs n nl l) \<Longrightarrow> length (snd x) \<le> n"
    using line_segs_tail(1) [OF 2(2), of "drop n l"] line_segs_Cons [of n nl l]
    by (auto split: if_splits)
  then show ?case using 2 by (auto split: if_splits)
qed simp

lemma lines_of_append:
  "s = [] \<or> last s = newline \<Longrightarrow> lines_of (s @ t) = lines_of s @ lines_of t"
proof (induction s rule: measure_induct_rule [of length])
  case (less s)
  show ?case
  proof (cases "s = []")
    case False
    then have l: "last s = newline" using less.prems by simp
    then have in_s: "newline \<in> set s" using False by (metis last_in_set)
    let ?d = "drop 1 (dropWhile (\<lambda>c. c \<noteq> newline) s)"
    have tw: "takeWhile (\<lambda>c. c \<noteq> newline) (s @ t) = takeWhile (\<lambda>c. c \<noteq> newline) s"
      "dropWhile (\<lambda>c. c \<noteq> newline) (s @ t) = dropWhile (\<lambda>c. c \<noteq> newline) s @ t"
      using in_s by (auto simp: takeWhile_append dropWhile_append)
    have ne: "dropWhile (\<lambda>c. c \<noteq> newline) s \<noteq> []" using in_s by (auto simp: dropWhile_eq_Nil_conv)
    have "length ?d < length s"
      using ne length_dropWhile_le [of "\<lambda>c. c \<noteq> newline" s] False by (cases "dropWhile (\<lambda>c. c \<noteq> newline) s") auto
    moreover have "last (dropWhile (\<lambda>c. c \<noteq> newline) s) = last s"
      using ne by (metis takeWhile_dropWhile_id last_appendR)
    then have "last (dropWhile (\<lambda>c. c \<noteq> newline) s) = newline" using l by (rule trans)
    then have "?d = [] \<or> last ?d = newline" by (cases "length (dropWhile (\<lambda>c. c \<noteq> newline) s) \<le> 1") (auto simp: last_drop)
    ultimately have "lines_of (?d @ t) = lines_of ?d @ lines_of t" by (rule less.IH)
    moreover have "Suc 0 - length (dropWhile (\<lambda>c. c \<noteq> newline) s) = 0" using ne by (simp add: Suc_le_eq)
    ultimately show ?thesis using False tw
      by (simp add: lines_of.simps [of "s @ t"] lines_of.simps [of s])
  qed (simp add: lines_of.simps [of "[]"])
qed

section \<open>The width of the prompt\<close>

text \<open>What a terminal shows: an escape sequence begins with ESC and ends with the letter m.\<close>

fun visible :: "bool \<Rightarrow> string \<Rightarrow> string" where
  "visible esc_seq [] = []"
| "visible False (c # cs) = (if c = esc then visible True cs else c # visible False cs)"
| "visible True (c # cs) = visible (c \<noteq> CHR ''m'') cs"

lemma visible_plain: "esc \<notin> set xs \<Longrightarrow> visible False (xs @ ys) = xs @ visible False ys"
  by (induction xs) auto

lemma visible_escape: "CHR ''m'' \<notin> set xs \<Longrightarrow> visible False (esc # xs @ CHR ''m'' # ys) = visible False ys"
proof -
  have "CHR ''m'' \<notin> set xs \<Longrightarrow> visible True (xs @ CHR ''m'' # ys) = visible False ys"
    by (induction xs) auto
  then show "CHR ''m'' \<notin> set xs \<Longrightarrow> visible False (esc # xs @ CHR ''m'' # ys) = visible False ys" by simp
qed

lemma digit_char: "(n :: nat) < 10 \<Longrightarrow> char_of (48 + n) \<in> set ''0123456789''"
proof -
  assume "n < 10"
  then have "n \<in> {0, 1, 2, 3, 4, 5, 6, 7, 8, 9}" by auto
  then show ?thesis by (elim insertE) (simp_all add: char_of_def bit_simps)
qed

lemma digits_set: "set (digits n) \<subseteq> set ''0123456789''"
proof (induction n rule: digits.induct)
  case (1 n)
  show ?case
  proof (cases "n < 10")
    case True
    then show ?thesis using digit_char [of n] by (simp add: digits.simps [of n])
  next
    case False
    then show ?thesis using 1 digit_char [of "n mod 10"] by (simp add: digits.simps [of n])
  qed
qed

lemma digits_length: "0 < k \<Longrightarrow> length (digits n) \<le> k \<longleftrightarrow> n < 10 ^ k"
proof (induction n arbitrary: k rule: digits.induct)
  case (1 n)
  show ?case
  proof (cases "n < 10")
    case True
    moreover have "(10 :: nat) \<le> 10 ^ k" using 1(2) by (cases k) simp_all
    ultimately show ?thesis using 1(2) by (simp add: digits.simps [of n])
  next
    case False
    obtain m where m: "k = Suc m" using 1(2) by (cases k) auto
    have "n div 10 < 10 ^ m \<longleftrightarrow> n < 10 ^ Suc m" by (simp add: div_less_iff_less_mult mult.commute)
    moreover have "length (digits (n div 10)) \<noteq> 0" by (simp add: digits.simps [of "n div 10"])
    ultimately show ?thesis using False 1(1) [of m] m
      by (cases "m = 0") (auto simp: digits.simps [of n])
  qed
qed

lemma length_pad: "length (pad_left n s) = max n (length s)"
  by (simp add: pad_left_def)

lemma esc_pad: "esc \<in> set (pad_left n s) \<longleftrightarrow> esc \<in> set s"
  by (auto simp: pad_left_def esc_def)

text \<open>The end of the base name that is shown: 14 characters at most.\<close>

definition shown_name :: "string \<Rightarrow> string" where
  "shown_name file = drop (length (basename file) - 14) (basename file)"

lemma filename_exec:
  "filename file line = (if line < 10000
     then Inr ((if 14 < length (basename file) then ''...;36m'' else bold)
       @ pad_left 14 (shown_name file) @ colon @ bold @ pad_left 4 (digits line))
     else Inl Assert_Failed)"
proof -
  have lens: "length bold = 7" "length colon = 8" by (simp_all add: bold_def colon_def)
  have "length (digits line) \<le> 4 \<longleftrightarrow> line < 10000" using digits_length [of 4 line] by simp
  moreover have "length (shown_name file) \<le> 14" by (simp add: shown_name_def)
  moreover have "drop 3 (bold @ z) = '';36m'' @ z" for z by (simp add: bold_def numeral_3_eq_3)
  ultimately show ?thesis
    by (auto simp: filename_def Let_def filename_length_def lens length_pad shown_name_def max_def numeral_3_eq_3)
qed

lemma channel_color_form:
  obtains a b where "channel_color c = esc # [CHR ''['', a, CHR '';'', CHR ''3'', b, CHR ''m'']"
    "a \<noteq> CHR ''m''" "b \<noteq> CHR ''m''"
  by (cases c) (auto simp: channel_color_def channel_map_def)

lemma visible_color: "visible False (channel_color c @ ys) = visible False ys" "length (channel_color c) = 7"
proof -
  obtain a b where c: "channel_color c = esc # [CHR ''['', a, CHR '';'', CHR ''3'', b, CHR ''m'']"
    and ab: "a \<noteq> CHR ''m''" "b \<noteq> CHR ''m''" by (rule channel_color_form)
  show "visible False (channel_color c @ ys) = visible False ys"
    using visible_escape [of "[CHR ''['', a, CHR '';'', CHR ''3'', b]" ys] ab by (simp add: c)
  show "length (channel_color c) = 7" by (simp add: c)
qed

lemma visible_codes:
  "visible False (bold @ ys) = visible False ys"
  "visible False (colon @ ys) = CHR '':'' # visible False ys"
  "visible False (esc # CHR ''['' # CHR ''0'' # CHR ''m'' # ys) = visible False ys"
  by (simp_all add: bold_def colon_def) (simp_all add: esc_def)

definition shown_file :: "string \<Rightarrow> nat \<Rightarrow> string" where
  "shown_file file line = (if 14 < length (basename file) then ''...;36m'' else [])
     @ pad_left 14 (shown_name file) @ '':'' @ pad_left 4 (digits line)"

lemma visible_filename:
  assumes "esc \<notin> set (basename file)"
  shows "visible False (((if 14 < length (basename file) then ''...;36m'' else bold)
       @ pad_left 14 (shown_name file) @ colon @ bold @ pad_left 4 (digits line)) @ ys)
    = shown_file file line @ visible False ys"
proof -
  have "esc \<notin> set (shown_name file)" using assms by (auto simp: shown_name_def dest: in_set_dropD)
  then have a: "visible False (pad_left 14 (shown_name file) @ zs) = pad_left 14 (shown_name file) @ visible False zs" for zs
    by (intro visible_plain) (simp add: esc_pad)
  have "esc \<notin> set (digits line)" using digits_set [of line] by (auto simp: esc_def)
  then have b: "visible False (pad_left 4 (digits line) @ zs) = pad_left 4 (digits line) @ visible False zs" for zs
    by (intro visible_plain) (simp add: esc_pad)
  have c: "visible False (''...;36m'' @ zs) = ''...;36m'' @ visible False zs" for zs
    by (rule visible_plain) (simp add: esc_def)
  show ?thesis by (simp add: shown_file_def visible_codes a b c del: append_Cons)
qed

lemma length_filename:
  "line < 10000 \<Longrightarrow> filename file line = Inr name \<Longrightarrow> length name = 40"
  using digits_length [of 4 line]
  by (auto simp: filename_exec length_pad shown_name_def bold_def colon_def max_def split: if_splits)

lemma prompt_exec:
  assumes "color_of d = channel_color c" "line_of d < 10000" "0 \<le> indentation e" "indentation e < 400" "length prefix = 3"
    "filename (file_of d) (line_of d) = Inr name"
  shows "prompt prefix e d = Inr (channel_color c @ prefix @ '' ('' @ name @ channel_color c @ '')''
      @ (esc # ''[0m'') @ replicate (nat (indentation e * 2)) CHR '' '', 25 + 2 * indentation e)"
proof -
  have len: "length name = 40" using length_filename assms(2,6) by blast
  have p: "pad_left filename_length (take filename_length name) = name"
    by (simp add: filename_length_def pad_left_def len)
  have "64 + nat (indentation e * 2) < max_buffer" using assms(3,4) by (simp add: max_buffer_def)
  then show ?thesis using assms
    by (simp add: prompt_def p visible_color(2) len Let_def)
qed

section \<open>Properties\<close>

text \<open>
  C30: What is printed. For text without NUL and a terminal that leaves \<open>n\<close> columns to the text
  (\<open>0 < n \<le> 1024\<close>), the printed lines are exactly those of \<open>seg_lines\<close>: each line of the text is
  cut into pieces of \<open>n\<close> characters, the first marked with a carat; the prompt stands before the
  first piece and blanks of the same width before the others; no piece is wider than \<open>n\<close>. A
  blank line, or a line whose length is a multiple of \<open>n\<close>, is the end: what follows is not printed.
\<close>

theorem print_text_lines:
  assumes "nul \<notin> set s" "0 \<le> prefix" "prefix \<le> int (length pr)"
    and "n = nat (max_total e - prefix - 2)" "0 < n" "n \<le> max_buffer"
  shows "print_text e prefix pr s = Inr (render pr (replicate (nat prefix) CHR '' '') (seg_lines n True (lines_of s))) \<and>
    (\<forall>x \<in> set (seg_lines n True (lines_of s)). length (snd x) \<le> n)"
  using assms segs_lines [OF assms(5,1), of True] seg_lines_width [OF assms(5)]
  by (simp add: print_text_def print_loop_segs)

lemma print_text_lines_witness:
  "print_text \<lparr>max_total = 9, nverbose = False, ndebug = False, indentation = 0, stdin = []\<rparr> 2 ''>>''
     ''abcde'' = Inr [''>>'' @ carat @ ''abcde''] \<and>
   print_text \<lparr>max_total = 7, nverbose = False, ndebug = False, indentation = 0, stdin = []\<rparr> 2 ''>>''
     ''abcde'' = Inr [''>>'' @ carat @ ''abc'', ''  '' @ ''  '' @ ''de'']"
proof -
  have l: "lines_of ''abcde'' = [''abcde'']"
    by (simp add: lines_of.simps [of "''abcde''"] newline_def lines_of_simps)
  have n: "nul \<notin> set ''abcde''" by (simp add: nul_def)
  show ?thesis
    using print_text_lines [OF n, of 2 "''>>''" 5 "\<lparr>max_total = 9, nverbose = False, ndebug = False, indentation = 0, stdin = []\<rparr>"]
      print_text_lines [OF n, of 2 "''>>''" 3 "\<lparr>max_total = 7, nverbose = False, ndebug = False, indentation = 0, stdin = []\<rparr>"]
    by (simp add: l max_buffer_def line_segs.simps render_def mark_def numeral_2_eq_2)
qed

text \<open>
  Nothing is lost where the text has no blank line and no line but the last has a length
  that is a multiple of the room: reading the printed pieces back, a marked piece with the
  unmarked ones after it, gives the lines of the text.
\<close>

theorem print_reads_back:
  assumes "0 < n" "nul \<notin> set s" "\<forall>l \<in> set (lines_of s). l \<noteq> []"
    and "\<forall>l \<in> set (butlast (lines_of s)). \<not> n dvd length l"
  shows "glue (segs n True s) = lines_of s"
  using segs_lines [OF assms(1,2), of True] glue_seg_lines [OF assms(1,3,4)] by simp

lemma print_reads_back_witness: "glue (segs 2 True ''abcde'') = [''abcde'']"
proof -
  have "lines_of ''abcde'' = [''abcde'']"
    by (simp add: lines_of.simps [of "''abcde''"] newline_def lines_of_simps)
  then show ?thesis using print_reads_back [of 2 "''abcde''"] by (simp add: nul_def)
qed

text \<open>
  The text after a blank line is dropped, and so is the text after a line that fills the
  room exactly: whatever \<open>b\<close> is, it is not printed.
\<close>

theorem print_drops:
  assumes "0 < n" "nul \<notin> set (a @ l @ b)" "a = [] \<or> last a = newline" "newline \<notin> set l" "n dvd length l"
  shows "segs n True (a @ l @ newline # b) = segs n True (a @ l)"
proof -
  have takes: "takeWhile (\<lambda>c. c \<noteq> newline) (l @ newline # b) = l" "dropWhile (\<lambda>c. c \<noteq> newline) (l @ newline # b) = newline # b"
    using assms(4) by (auto simp: takeWhile_append dropWhile_append)
  have ends: "takeWhile (\<lambda>c. c \<noteq> newline) l = l" "dropWhile (\<lambda>c. c \<noteq> newline) l = []"
    using assms(4) by (auto simp: takeWhile_eq_all_conv)
  have "lines_of (l @ newline # b) = l # lines_of b" by (simp add: lines_of.simps [of "l @ newline # b"] takes)
  moreover have "lines_of l = (if l = [] then [] else [l])" by (simp add: lines_of.simps [of l] ends lines_of_simps)
  moreover have "seg_lines n True (ls @ l # ms) = seg_lines n True (ls @ (if l = [] then [] else [l]))" for ls ms
    using assms(5) by (induction ls) simp_all
  ultimately have "seg_lines n True (lines_of (a @ l @ newline # b)) = seg_lines n True (lines_of (a @ l))"
    using assms(3) by (simp add: lines_of_append)
  moreover have "nul \<notin> set (a @ l @ newline # b)" "nul \<notin> set (a @ l)"
    using assms(2) by (auto simp: nul_def newline_def)
  ultimately show ?thesis using segs_lines [OF assms(1)] by simp
qed

lemma print_drops_witness:
  "segs 4 True (''one'' @ newline # newline # ''two'') = segs 4 True (''one'' @ [newline]) \<and>
   segs 3 True (''one'' @ newline # ''two'') = segs 3 True ''one''"
  using print_drops [of 4 "''one'' @ [newline]" "[]" "''two''"] print_drops [of 3 "[]" "''one''" "''two''"]
  by (simp add: nul_def newline_def numeral_3_eq_3)

text \<open>
  The width of the prompt. For a source line below 10000 and a base name without escape
  characters, the prompt is built, its computed width is 25 plus the indentation, and that is the
  number of characters a terminal shows, unless the base name is longer than 14 characters: then
  the dots that should mark the truncation overwrite an escape sequence and 7 more are shown.
  From line 10000 on the assertion on the file name fails.
\<close>

theorem prompt_width:
  assumes "color_of d = channel_color c" "0 \<le> indentation e" "indentation e < 400"
    and "length prefix = 3" "esc \<notin> set prefix" "esc \<notin> set (basename (file_of d))"
  shows "if line_of d < 10000
    then \<exists>p w. prompt prefix e d = Inr (p, w) \<and> w = 25 + 2 * indentation e \<and>
      int (length (visible False p)) = w + (if 14 < length (basename (file_of d)) then 7 else 0)
    else prompt prefix e d = Inl Assert_Failed"
proof (cases "line_of d < 10000")
  case True
  define name where "name = (if 14 < length (basename (file_of d)) then ''...;36m'' else bold)
       @ pad_left 14 (shown_name (file_of d)) @ colon @ bold @ pad_left 4 (digits (line_of d))"
  have f: "filename (file_of d) (line_of d) = Inr name" using True by (simp add: filename_exec name_def)
  have vf: "visible False (name @ ys) = shown_file (file_of d) (line_of d) @ visible False ys" for ys
    unfolding name_def by (rule visible_filename [OF assms(6)])
  define p where "p = channel_color c @ prefix @ '' ('' @ name @ channel_color c @ '')''
      @ (esc # ''[0m'') @ replicate (nat (indentation e * 2)) CHR '' ''"
  have pr: "prompt prefix e d = Inr (p, 25 + 2 * indentation e)"
    unfolding p_def by (rule prompt_exec [OF assms(1) True assms(2,3,4) f])
  have blank: "visible False (replicate m CHR '' '') = replicate m CHR '' ''" for m
    using visible_plain [of "replicate m CHR '' ''" "[]"] by (simp add: esc_def)
  have "CHR '' '' \<noteq> esc" "CHR ''('' \<noteq> esc" "CHR '')'' \<noteq> esc" by (simp_all add: esc_def)
  then have "visible False p = prefix @ '' ('' @ shown_file (file_of d) (line_of d) @ '')''
      @ replicate (nat (indentation e * 2)) CHR '' ''"
    unfolding p_def
    by (simp add: visible_color(1) visible_plain [OF assms(5)] vf blank)
  moreover have "length (shown_file (file_of d) (line_of d)) = 19 + (if 14 < length (basename (file_of d)) then 7 else 0)"
    using digits_length [of 4 "line_of d"] True by (simp add: shown_file_def length_pad shown_name_def)
  ultimately show ?thesis using True pr assms(2,4) by simp
next
  case False
  then show ?thesis by (simp add: prompt_def filename_exec)
qed

lemma prompt_width_witness:
  "prompt ''OUT'' \<lparr>max_total = 80, nverbose = False, ndebug = False, indentation = 2, stdin = []\<rparr>
     \<lparr>channel_of = OUT, file_of = ''src/test.cpp'', line_of = 12345, color_of = channel_color OUT,
      ss = \<lparr>ss_str = [], ss_put = 0\<rparr>, os_of = Cout\<rparr> = Inl Assert_Failed \<and>
   (\<exists>p. prompt ''OUT'' \<lparr>max_total = 80, nverbose = False, ndebug = False, indentation = 2, stdin = []\<rparr>
     \<lparr>channel_of = OUT, file_of = ''src/test.cpp'', line_of = 17, color_of = channel_color OUT,
      ss = \<lparr>ss_str = [], ss_put = 0\<rparr>, os_of = Cout\<rparr> = Inr (p, 29) \<and> length (visible False p) = 29)"
proof -
  let ?e = "\<lparr>max_total = 80, nverbose = False, ndebug = False, indentation = 2, stdin = []\<rparr>"
  let ?d = "\<lambda>n. \<lparr>channel_of = OUT, file_of = ''src/test.cpp'', line_of = n, color_of = channel_color OUT,
      ss = \<lparr>ss_str = [], ss_put = 0\<rparr>, os_of = Cout\<rparr>"
  have b: "basename ''src/test.cpp'' = ''test.cpp''" by (simp add: basename_def)
  show ?thesis
    using prompt_width [of "?d 17" OUT ?e "''OUT''"] prompt_width [of "?d 12345" OUT ?e "''OUT''"]
    by (auto simp: b esc_def)
qed

text \<open>
  What a flush does. \<open>FTL\<close> always aborts; \<open>BRK\<close> asks and aborts when the first answer among
  y and n is n, goes on when it is y, and waits for ever when the input ends without one; every
  other channel returns with the stream emptied, so that a second flush prints nothing; \<open>DMY\<close>
  prints nothing, and \<open>DBG\<close> prints nothing when \<^verbatim>\<open>NDEBUG\<close> is set.
\<close>

theorem flush_outcome:
  assumes "flush e d = Inr (ls, r)"
  shows "(channel_of d = FTL \<longrightarrow> r = Aborts) \<and>
    (channel_of d = BRK \<longrightarrow> r = (case choice_read ''yn'' (stdin e) of None \<Rightarrow> Hangs
       | Some (c, rest) \<Rightarrow> if c = CHR ''n'' then Aborts else Returns (clear_dump d) rest)) \<and>
    (channel_of d \<notin> {FTL, BRK} \<longrightarrow> r = Returns (clear_dump d) (stdin e)) \<and>
    (channel_of d = DMY \<or> channel_of d = DBG \<and> ndebug e \<or> channel_of d \<noteq> BRK \<and> channel_of d \<noteq> FTL \<and> ss_str (ss d) = [] \<longrightarrow> ls = [])"
proof -
  have none: "dump_output prefix e d = Inr ks \<Longrightarrow> ss_str (ss d) = [] \<Longrightarrow> ks = []" for prefix ks
    by (auto simp: dump_output_def bind_res_Inr_iff print_text_def print_loop.simps get_chunk_def split: if_splits)
  show ?thesis using assms none by (cases "channel_of d") (auto simp: flush_def Let_def bind_res_Inr_iff split: if_splits)
qed

lemma flush_outcome_witness:
  "flush \<lparr>max_total = 80, nverbose = True, ndebug = False, indentation = 0, stdin = ''xn''\<rparr>
     \<lparr>channel_of = BRK, file_of = [], line_of = 2, color_of = [], ss = \<lparr>ss_str = [], ss_put = 0\<rparr>, os_of = Cerr\<rparr>
   = Inr ([], Aborts)"
proof -
  let ?e = "\<lparr>max_total = 80, nverbose = True, ndebug = False, indentation = 0, stdin = ''xn''\<rparr>"
  let ?d = "\<lparr>channel_of = BRK, file_of = [], line_of = 2, color_of = [], ss = \<lparr>ss_str = [], ss_put = 0\<rparr>, os_of = Cerr\<rparr>"
  have o: "dump_output ''BRK'' ?e ?d = Inr []"
    by (simp add: dump_output_def print_text_def print_loop.simps get_chunk_def)
  obtain r where r: "flush ?e ?d = Inr ([], r)" by (simp add: flush_def o)
  then show ?thesis using flush_outcome [OF r] by (simp add: newline_def)
qed

text \<open>
  Writing accumulates: after any writes into a new \<open>Dump\<close> its text is their concatenation.
  A copy has the text but writes over its beginning.
\<close>

theorem dump_appends:
  assumes "dump_channel c file line = Inr d"
  shows "ss_str (ss (fold dump_append ts d)) = concat ts \<and>
    ss_str (ss (dump_append t (dump_copy (fold dump_append ts d)))) = t @ drop (length t) (concat ts)"
proof -
  have "ss_str (ss (fold dump_append ts d)) = ss_str (ss d) @ concat ts \<and> ss_put (ss (fold dump_append ts d)) = length (ss_str (ss d) @ concat ts)"
    if "ss_put (ss d) = length (ss_str (ss d))" for d
    using that
  proof (induction ts arbitrary: d)
    case (Cons t ts)
    have "ss_str (ss (dump_append t d)) = ss_str (ss d) @ t" "ss_put (ss (dump_append t d)) = length (ss_str (ss d) @ t)"
      using Cons.prems by (simp_all add: dump_append_def ss_write_def)
    then show ?case using Cons.IH [of "dump_append t d"] by simp
  qed simp
  then have "ss_str (ss (fold dump_append ts d)) = concat ts"
    using assms by (auto simp: dump_channel_def split: if_splits)
  then show ?thesis by (simp add: dump_append_def dump_copy_def ss_write_def)
qed

lemma dump_appends_witness:
  "\<exists>d. dump_channel OUT ''f'' 1 = Inr d \<and>
    ss_str (ss (dump_append ''xy'' (dump_copy (fold dump_append [''one'', ''two''] d)))) = ''xyetwo''"
proof -
  obtain d where d: "dump_channel OUT ''f'' 1 = Inr d" by (simp add: dump_channel_def)
  then show ?thesis using dump_appends [OF d, of "[''one'', ''two'']" "''xy''"] by simp
qed

end
