(* ===== verification/Process.thy ===== *)
theory Process
  imports Output_Dump
begin

text \<open>
  A process of the library: what its messages do to the world. The world is the environment of
  \<open>Output_Dump\<close> with all lines printed so far and the clock; an operation returns a value or a
  fault, with the world it leaves (so that what was printed before an abort is kept), or it
  waits for ever (\<open>None\<close>). \<open>say\<close> is the expression \<^verbatim>\<open>P(channel) << text\<close> of the sources: a \<open>Dump\<close>
  that is written to and flushed by its destructor at the end of the statement.
\<close>

section \<open>The world\<close>

lemma truncate_fields [simp]:
  "max_total (env.truncate w) = max_total w" "nverbose (env.truncate w) = nverbose w" "ndebug (env.truncate w) = ndebug w"
  "indentation (env.truncate w) = indentation w" "stdin (env.truncate w) = stdin w"
  by (simp_all add: env.defs)

record world = env +
  printed :: "(ostream \<times> string) list"
  clock :: "64 word"              \<comment> \<open>of the monotonic clock, in microseconds\<close>

type_synonym ('a, 'm) run = "'m world_scheme \<Rightarrow> ((fault + 'a) \<times> 'm world_scheme) option"

definition return_run :: "'a \<Rightarrow> ('a, 'm) run" where
  "return_run x w = Some (Inr x, w)"

definition fail_run :: "fault \<Rightarrow> ('a, 'm) run" where
  "fail_run e w = Some (Inl e, w)"

definition bind_run :: "('a, 'm) run \<Rightarrow> ('a \<Rightarrow> ('b, 'm) run) \<Rightarrow> ('b, 'm) run" where
  "bind_run m f w = (case m w of None \<Rightarrow> None
     | Some (Inl e, w) \<Rightarrow> Some (Inl e, w)
     | Some (Inr x, w) \<Rightarrow> f x w)"

definition lift_res :: "fault + 'a \<Rightarrow> ('a, 'm) run" where
  "lift_res r w = Some (r, w)"

named_theorems run_simps "how sequences of runs compute"

lemma run_simps_basic [run_simps]:
  "return_run x w = Some (Inr x, w)"
  "fail_run e w = Some (Inl e, w)"
  "lift_res r w = Some (r, w)"
  by (simp_all add: return_run_def fail_run_def lift_res_def)

lemma bind_run_simps [run_simps]:
  "m w = None \<Longrightarrow> bind_run m f w = None"
  "m w = Some (Inl e, w') \<Longrightarrow> bind_run m f w = Some (Inl e, w')"
  "m w = Some (Inr x, w') \<Longrightarrow> bind_run m f w = f x w'"
  by (simp_all add: bind_run_def)

lemma bind_run_Inr_iff:
  "bind_run m f w = Some (Inr y, v) \<longleftrightarrow> (\<exists>x u. m w = Some (Inr x, u) \<and> f x u = Some (Inr y, v))"
  by (auto simp: bind_run_def split: option.splits sum.splits)

lemma bind_run_cong [fundef_cong]:
  assumes "m w = m' w'" "\<And>x u. m' w' = Some (Inr x, u) \<Longrightarrow> f x u = f' x u"
  shows "bind_run m f w = bind_run m' f' w'"
  using assms by (auto simp: bind_run_def split: option.splits sum.splits)

section \<open>Messages\<close>

text \<open>
  The constructor of \<open>Choice\<close> prints the prompt with the options; \<open>BRK\<close> asks with it whether to go on.
\<close>

fun options_text :: "string list \<Rightarrow> string" where
  "options_text [] = []"
| "options_text [x] = x"
| "options_text (x # y # xs) = x @ ''/'' @ options_text (y # xs)"

definition choice_prompt :: "string \<Rightarrow> string list \<Rightarrow> string" where
  "choice_prompt p xs = p @ '' ('' @ options_text xs @ '') ''"

definition asked :: "channel \<Rightarrow> (ostream \<times> string) list" where
  "asked c = (if c = BRK then [(Cout, choice_prompt ''Continue?'' [''y'', ''n''])] else [])"

definition print_lines :: "dump \<Rightarrow> string list \<Rightarrow> 'm world_scheme \<Rightarrow> 'm world_scheme" where
  "print_lines d ls w = w\<lparr>printed := printed w @ map (Pair (os_of d)) ls @ asked (channel_of d)\<rparr>"

text \<open>The end of life of a \<open>Dump\<close>, and a whole message.\<close>

definition end_dump :: "dump \<Rightarrow> (unit, 'm) run" where
  "end_dump d w = (case flush (env.truncate w) d of
       Inl e \<Rightarrow> Some (Inl e, w)
     | Inr (ls, Returns d' rest) \<Rightarrow> Some (Inr (), print_lines d ls w\<lparr>stdin := rest\<rparr>)
     | Inr (ls, Aborts) \<Rightarrow> Some (Inl Aborted, print_lines d ls w)
     | Inr (ls, Hangs) \<Rightarrow> None)"

definition say :: "channel \<Rightarrow> string \<Rightarrow> nat \<Rightarrow> string \<Rightarrow> (unit, 'm) run" where
  "say c file line t w = (case dump_channel c file line of
       Inl e \<Rightarrow> Some (Inl e, w)
     | Inr d \<Rightarrow> end_dump (dump_append t d) w)"

text \<open>What the comparing assertions (\<open>ASSERT_EQ\<close> and the others) add to the message.\<close>

definition versus :: "string \<Rightarrow> string \<Rightarrow> string \<Rightarrow> string" where
  "versus x y extra = x @ '' vs. '' @ y @ [newline] @ extra"

text \<open>
  \<open>EXPECT\<close> (and \<open>ASSERT\<close> of \<^verbatim>\<open>output.h\<close>, in the default build): the text of the condition is part of the
  message, what follows the macro is appended.
\<close>

definition failed_assertion :: "string \<Rightarrow> string \<Rightarrow> string" where
  "failed_assertion condition extra = ''Failed assertion: '' @ condition @ [newline] @ extra"

definition expect_that :: "bool \<Rightarrow> string \<Rightarrow> string \<Rightarrow> string \<Rightarrow> nat \<Rightarrow> (unit, 'm) run" where
  "expect_that b condition extra file line =
    (if b then return_run () else say BRK file line (failed_assertion condition extra))"

section \<open>When messages are printed\<close>

text \<open>
  A message of a source line below 10000, on a terminal of at most 1026 columns and with less than
  400 levels of indentation, is printed; \<open>said\<close> is what it prints.
\<close>

definition printable :: "nat \<Rightarrow> 'm env_scheme \<Rightarrow> bool" where
  "printable line w \<longleftrightarrow> line < 10000 \<and> 0 \<le> indentation w \<and> indentation w < 400 \<and> max_total w \<le> 1026"

definition channel_name :: "channel \<Rightarrow> string" where
  "channel_name c = (case c of OUT \<Rightarrow> ''OUT'' | ERR \<Rightarrow> ''ERR'' | FTL \<Rightarrow> ''FTL'' | BRK \<Rightarrow> ''BRK''
     | DBG \<Rightarrow> ''DBG'' | DMY \<Rightarrow> ''DMY'' | BUF \<Rightarrow> ''BUF'')"

definition said :: "channel \<Rightarrow> string \<Rightarrow> nat \<Rightarrow> string \<Rightarrow> env \<Rightarrow> (ostream \<times> string) list" where
  "said c file line t e = (case dump_channel c file line of Inl _ \<Rightarrow> []
     | Inr d \<Rightarrow> if c = DMY \<or> c = DBG \<and> ndebug e then []
         else (case dump_output (channel_name c) e (dump_append t d) of Inl _ \<Rightarrow> []
           | Inr ls \<Rightarrow> map (Pair (channel_stream c)) ls @ asked c))"

lemma print_text_printed:
  "0 \<le> p \<Longrightarrow> p \<le> int (length pr) \<Longrightarrow> max_total e \<le> 1026 \<Longrightarrow> \<exists>ls. print_text e p pr s = Inr ls"
  using print_loop_segs [of "nat (max_total e - p - 2)" pr] by (simp add: print_text_def max_buffer_def)

lemma dump_output_printed:
  assumes "printable (line_of d) e" "color_of d = channel_color c" "length prefix = 3"
  shows "\<exists>ls. dump_output prefix e d = Inr ls"
proof (cases "nverbose e")
  case True
  then show ?thesis using assms(1) print_text_printed [of 0 "[]" e] by (simp add: dump_output_def printable_def)
next
  case False
  have *: "line_of d < 10000" "0 \<le> indentation e" "indentation e < 400" "max_total e \<le> 1026"
    using assms(1) by (simp_all add: printable_def)
  obtain name where name: "filename (file_of d) (line_of d) = Inr name" using *(1) by (simp add: filename_exec)
  have "length name = 40" using length_filename *(1) name by blast
  then have "\<exists>ls. print_text e (25 + 2 * indentation e) (channel_color c @ prefix @ '' ('' @ name @ channel_color c @ '')''
      @ (esc # ''[0m'') @ replicate (nat (indentation e * 2)) CHR '' '') (ss_str (ss d)) = Inr ls"
    using * assms(3) by (intro print_text_printed) (simp_all add: visible_color(2))
  then show ?thesis using False prompt_exec [OF assms(2) *(1,2,3) assms(3) name] by (simp add: dump_output_def)
qed

lemma say_dump:
  assumes "printable line w" "c \<noteq> BUF"
  obtains ls where "dump_output (channel_name c) (env.truncate w)
      (dump_append t \<lparr>channel_of = c, file_of = file, line_of = line, color_of = channel_color c,
        ss = \<lparr>ss_str = [], ss_put = 0\<rparr>, os_of = channel_stream c\<rparr>) = Inr ls"
proof -
  have "printable line (env.truncate w)" using assms(1) by (simp add: printable_def)
  then show ?thesis
    using that dump_output_printed [where e = "env.truncate w" and c = c and prefix = "channel_name c"]
    by (fastforce simp: dump_append_def channel_name_def split: channel.splits)
qed

lemma say_printed:
  assumes "printable line w" "c \<notin> {FTL, BRK, BUF}"
  shows "say c file line t w = Some (Inr (), w\<lparr>printed := printed w @ said c file line t (env.truncate w)\<rparr>)"
proof -
  have "c \<noteq> BUF" using assms(2) by simp
  then obtain ls where "dump_output (channel_name c) (env.truncate w)
      (dump_append t \<lparr>channel_of = c, file_of = file, line_of = line, color_of = channel_color c,
        ss = \<lparr>ss_str = [], ss_put = 0\<rparr>, os_of = channel_stream c\<rparr>) = Inr ls"
    by (rule say_dump [OF assms(1)])
  then show ?thesis using assms(2)
    by (cases c) (simp_all add: say_def said_def end_dump_def print_lines_def asked_def dump_channel_def flush_def channel_name_def
        dump_append_def)
qed

lemma say_aborts:
  assumes "printable line w"
  shows "say FTL file line t w = Some (Inl Aborted, w\<lparr>printed := printed w @ said FTL file line t (env.truncate w)\<rparr>)"
proof -
  obtain ls where "dump_output (channel_name FTL) (env.truncate w)
      (dump_append t \<lparr>channel_of = FTL, file_of = file, line_of = line, color_of = channel_color FTL,
        ss = \<lparr>ss_str = [], ss_put = 0\<rparr>, os_of = channel_stream FTL\<rparr>) = Inr ls"
    by (rule say_dump [OF assms, of FTL t]) simp
  then show ?thesis
    by (simp add: say_def said_def end_dump_def print_lines_def asked_def dump_channel_def flush_def channel_name_def dump_append_def)
qed

text \<open>\<open>BRK\<close> asks, and goes on with the rest of the input when the answer is y.\<close>

lemma say_asks:
  assumes "printable line w"
  shows "say BRK file line t w = (let v = w\<lparr>printed := printed w @ said BRK file line t (env.truncate w)\<rparr> in
    case choice_read ''yn'' (stdin w) of None \<Rightarrow> None
    | Some (c, rest) \<Rightarrow> if c = CHR ''n'' then Some (Inl Aborted, v) else Some (Inr (), v\<lparr>stdin := rest\<rparr>))"
proof -
  obtain ls where "dump_output (channel_name BRK) (env.truncate w)
      (dump_append t \<lparr>channel_of = BRK, file_of = file, line_of = line, color_of = channel_color BRK,
        ss = \<lparr>ss_str = [], ss_put = 0\<rparr>, os_of = channel_stream BRK\<rparr>) = Inr ls"
    by (rule say_dump [OF assms, of BRK t]) simp
  then show ?thesis
    by (simp add: say_def said_def end_dump_def print_lines_def asked_def dump_channel_def flush_def channel_name_def dump_append_def
        Let_def split: option.splits)
qed

lemma say_goes_on:
  assumes "printable line w" "stdin w = CHR ''y'' # rest"
  shows "say BRK file line t w = Some (Inr (), w\<lparr>printed := printed w @ said BRK file line t (env.truncate w), stdin := rest\<rparr>)"
  using assms(2) by (simp add: say_asks [OF assms(1)] Let_def newline_def)

lemma say_gives_up:
  assumes "printable line w" "stdin w = CHR ''n'' # rest"
  shows "say BRK file line t w = Some (Inl Aborted, w\<lparr>printed := printed w @ said BRK file line t (env.truncate w)\<rparr>)"
  using assms(2) by (simp add: say_asks [OF assms(1)] Let_def newline_def)

text \<open>Whatever a message does, it never returns on \<open>FTL\<close>, and only the output and the input change.\<close>

lemma flush_returns: "flush e d = Inr (ls, Returns d' rest) \<Longrightarrow> channel_of d \<noteq> FTL"
  by (auto simp: flush_def bind_res_Inr_iff)

lemma end_dump_frame:
  assumes "end_dump d w = Some (Inr u, v)"
  shows "channel_of d \<noteq> FTL \<and> (\<exists>ls rest. v = w\<lparr>printed := printed w @ ls, stdin := rest\<rparr>)"
proof -
  obtain ls d' rest where f: "flush (env.truncate w) d = Inr (ls, Returns d' rest)"
    and v: "v = print_lines d ls w\<lparr>stdin := rest\<rparr>"
    using assms by (auto simp: end_dump_def split: sum.splits flushed.splits)
  have "v = w\<lparr>printed := printed w @ (map (Pair (os_of d)) ls @ asked (channel_of d)), stdin := rest\<rparr>"
    unfolding v print_lines_def by simp
  then show ?thesis using flush_returns [OF f] by blast
qed

lemma say_frame:
  assumes "say c file line t w = Some (Inr u, v)"
  shows "c \<noteq> FTL \<and> (\<exists>ls rest. v = w\<lparr>printed := printed w @ ls, stdin := rest\<rparr>)"
proof -
  obtain d where "dump_channel c file line = Inr d" "end_dump (dump_append t d) w = Some (Inr u, v)"
    using assms by (auto simp: say_def split: sum.splits)
  moreover from this(1) have "channel_of (dump_append t d) = c"
    by (auto simp: dump_channel_def dump_append_def split: if_splits)
  ultimately show ?thesis using end_dump_frame by fastforce
qed

lemma said_frame [simp]:
  "env.truncate (w\<lparr>printed := ls\<rparr>) = env.truncate w" "env.truncate (w\<lparr>clock := t\<rparr>) = env.truncate w"
  by (simp_all add: env.defs)

lemma printable_frame [simp]:
  "printable n (w\<lparr>printed := ls\<rparr>) = printable n w" "printable n (w\<lparr>clock := t\<rparr>) = printable n w"
  "printable n (w\<lparr>stdin := s\<rparr>) = printable n w"
  by (simp_all add: printable_def)

lemma printable_line: "printable n w \<Longrightarrow> m < 10000 \<Longrightarrow> printable m w"
  by (simp add: printable_def)

text \<open>A terminal of 80 columns, nothing typed: the world in which the examples run.\<close>

definition quiet_world :: world where
  "quiet_world = \<lparr>max_total = 80, nverbose = False, ndebug = False, indentation = 0, stdin = [], printed = [], clock = 0\<rparr>"

lemma quiet_world_simps [simp]:
  "max_total quiet_world = 80" "\<not> nverbose quiet_world" "\<not> ndebug quiet_world" "indentation quiet_world = 0"
  "stdin quiet_world = []" "printed quiet_world = []" "clock quiet_world = 0"
  by (simp_all add: quiet_world_def)

lemma quiet_world_printable: "n < 10000 \<Longrightarrow> printable n quiet_world"
  by (simp add: printable_def)

end
