(* ===== verification/Output_Lock.thy ===== *)
theory Output_Lock
  imports Process
begin

text \<open>
  Threads that print: the critical sections of \<^verbatim>\<open>src/output.h\<close> under \<open>logging::lock\<close>. A message is
  compiled to the code its flush runs: \<open>Output\<close> takes the lock, writes its lines to the stream and
  releases the lock; after it \<open>FTL\<close> aborts the process, and \<open>BRK\<close> takes the lock again to write its question (the
  constructor of \<open>Choice\<close>) and reads the answer without it. Threads run in any interleaving and share the
  terminal and the keyboard; an abort ends all of them.

  The environment (terminal width, indentation, variables) is fixed while they run: \<open>Indentation()\<close> is a
  plain \<^verbatim>\<open>int\<close>, so a program in which one thread indents while another prints has a data race.
\<close>

section \<open>The code of a message\<close>

datatype code =
    Lock
  | Put ostream string
  | Unlock
  | Ask "char list"     \<comment> \<open>\<open>Choice::operator>>\<close>\<close>
  | Abort

type_synonym line = "ostream \<times> string"

definition guarded :: "line list \<Rightarrow> code list" where
  "guarded ls = Lock # map (\<lambda>(os, l). Put os l) ls @ [Unlock]"

text \<open>The critical sections of a message, and what it does after them.\<close>

definition message_sections :: "env \<Rightarrow> dump \<Rightarrow> fault + line list list" where
  "message_sections e d =
    (if channel_of d = DMY \<or> channel_of d = DBG \<and> ndebug e then Inr []
     else bind_res (dump_output (channel_name (channel_of d)) e d) (\<lambda>ls. Inr (map (Pair (os_of d)) ls #
       (if channel_of d = BRK then [[(Cout, choice_prompt ''Continue?'' [''y'', ''n''])]] else []))))"

definition after_sections :: "dump \<Rightarrow> code list" where
  "after_sections d = (case channel_of d of FTL \<Rightarrow> [Abort] | BRK \<Rightarrow> [Ask ''yn''] | _ \<Rightarrow> [])"

definition message_code :: "env \<Rightarrow> dump \<Rightarrow> fault + code list" where
  "message_code e d = bind_res (message_sections e d) (\<lambda>xs. Inr (concat (map guarded xs) @ after_sections d))"

text \<open>A thread prints one message after the other.\<close>

fun thread_code :: "env \<Rightarrow> dump list \<Rightarrow> fault + code list" where
  "thread_code e [] = Inr []"
| "thread_code e (d # ds) = bind_res (message_code e d) (\<lambda>c. bind_res (thread_code e ds) (\<lambda>cs. Inr (c @ cs)))"

fun thread_sections :: "env \<Rightarrow> dump list \<Rightarrow> line list list" where
  "thread_sections e [] = []"
| "thread_sections e (d # ds) = (case message_sections e d of Inl _ \<Rightarrow> [] | Inr xs \<Rightarrow> xs) @ thread_sections e ds"

section \<open>Interleavings\<close>

text \<open>\<open>turns\<close> is the history: who took the lock, the latest first.\<close>

record tty =
  writer :: "nat option"
  code_of :: "nat \<Rightarrow> code list"
  screen :: "line list"
  typed :: string
  dead :: bool
  turns :: "nat list"

definition opened :: "(nat \<Rightarrow> code list) \<Rightarrow> string \<Rightarrow> tty" where
  "opened cs input = \<lparr>writer = None, code_of = cs, screen = [], typed = input, dead = False, turns = []\<rparr>"

text \<open>One step of the thread \<open>t\<close>; \<open>None\<close> when it cannot move.\<close>

definition thread_step :: "nat \<Rightarrow> tty \<Rightarrow> tty option" where
  "thread_step t s = (if dead s then None else
     case code_of s t of [] \<Rightarrow> None
     | c # cs \<Rightarrow> (let s' = s\<lparr>code_of := (code_of s)(t := cs)\<rparr> in
        case c of
          Lock \<Rightarrow> if writer s = None then Some (s'\<lparr>writer := Some t, turns := t # turns s\<rparr>) else None
        | Put os l \<Rightarrow> Some (s'\<lparr>screen := screen s @ [(os, l)]\<rparr>)
        | Unlock \<Rightarrow> Some (s'\<lparr>writer := None\<rparr>)
        | Ask xs \<Rightarrow> (case choice_read xs (typed s) of None \<Rightarrow> None
            | Some (x, rest) \<Rightarrow> Some (if x = CHR ''n'' then s'\<lparr>typed := rest, dead := True\<rparr> else s'\<lparr>typed := rest\<rparr>))
        | Abort \<Rightarrow> Some (s'\<lparr>dead := True\<rparr>)))"

fun threads_run :: "nat list \<Rightarrow> tty \<Rightarrow> tty" where
  "threads_run [] s = s"
| "threads_run (t # ts) s = threads_run ts (case thread_step t s of None \<Rightarrow> s | Some s' \<Rightarrow> s')"

fun moves :: "nat list \<Rightarrow> tty \<Rightarrow> nat" where
  "moves [] s = 0"
| "moves (t # ts) s = (case thread_step t s of None \<Rightarrow> moves ts s | Some s' \<Rightarrow> Suc (moves ts s'))"

text \<open>
  The specification: the sections of the threads one after the other, in the order in which they took the lock.
\<close>

fun replay :: "(nat \<Rightarrow> line list list) \<Rightarrow> nat list \<Rightarrow> line list" where
  "replay p [] = []"
| "replay p (t # ts) = replay p ts @ p t ! count_list ts t"

section \<open>The shape of the code\<close>

text \<open>What the code still writes in the section it is in, the sections it has not begun, and its brackets.\<close>

fun chunk :: "code list \<Rightarrow> line list" where
  "chunk (Put os l # cs) = (os, l) # chunk cs"
| "chunk _ = []"

fun sections :: "code list \<Rightarrow> line list list" where
  "sections [] = []"
| "sections (Lock # cs) = chunk cs # sections cs"
| "sections (_ # cs) = sections cs"

fun bracketed :: "bool \<Rightarrow> code list \<Rightarrow> bool" where
  "bracketed i [] = (\<not> i)"
| "bracketed i (Lock # cs) = (\<not> i \<and> bracketed True cs)"
| "bracketed i (Put _ _ # cs) = (i \<and> bracketed i cs)"
| "bracketed i (Unlock # cs) = (i \<and> bracketed False cs)"
| "bracketed i (Ask _ # cs) = (\<not> i \<and> bracketed i cs)"
| "bracketed i (Abort # cs) = (\<not> i \<and> bracketed i cs)"

lemma guarded_shape:
  "chunk (map (\<lambda>(os, l). Put os l) ls @ Unlock # cs) = ls"
  "sections (map (\<lambda>(os, l). Put os l) ls @ Unlock # cs) = sections cs"
  "bracketed True (map (\<lambda>(os, l). Put os l) ls @ Unlock # cs) = bracketed False cs"
  by (induction ls) auto

lemma guarded_simps [simp]:
  "sections (guarded ls @ cs) = ls # sections cs" "bracketed False (guarded ls @ cs) = bracketed False cs"
  by (simp_all add: guarded_def guarded_shape)

lemma sections_guarded [simp]: "sections (concat (map guarded xs) @ cs) = xs @ sections cs"
  by (induction xs) simp_all

lemma bracketed_guarded [simp]: "bracketed False (concat (map guarded xs) @ cs) = bracketed False cs"
  by (induction xs) simp_all

lemma after_simps [simp]:
  "sections (after_sections d @ cs) = sections cs" "bracketed False (after_sections d @ cs) = bracketed False cs"
  by (simp_all add: after_sections_def split: channel.split)

lemma thread_code_shape:
  "thread_code e ds = Inr cs \<Longrightarrow> sections cs = thread_sections e ds \<and> bracketed False cs"
  by (induction ds arbitrary: cs) (auto simp: bind_res_Inr_iff message_code_def)

section \<open>The invariant\<close>

definition pending :: "tty \<Rightarrow> line list" where
  "pending s = (case writer s of None \<Rightarrow> [] | Some t \<Rightarrow> chunk (code_of s t))"

definition tty_inv :: "(nat \<Rightarrow> line list list) \<Rightarrow> tty \<Rightarrow> bool" where
  "tty_inv p s \<longleftrightarrow> screen s @ pending s = replay p (turns s) \<and>
     (\<forall>t. bracketed (writer s = Some t) (code_of s t)) \<and>
     (\<forall>t. count_list (turns s) t \<le> length (p t) \<and> sections (code_of s t) = drop (count_list (turns s) t) (p t))"

lemma tty_inv_opened:
  assumes "\<And>t. bracketed False (cs t)" "\<And>t. sections (cs t) = p t"
  shows "tty_inv p (opened cs input)"
  using assms by (simp add: tty_inv_def opened_def pending_def)

text \<open>Only the writer writes and unlocks, and the brackets of everybody else are closed.\<close>

lemma tty_invD:
  assumes "tty_inv p s" "code_of s t = c # cs"
  shows "bracketed (writer s = Some t) (c # cs)" "sections (c # cs) = drop (count_list (turns s) t) (p t)"
    "count_list (turns s) t \<le> length (p t)"
  using assms unfolding tty_inv_def by metis+

lemma tty_inv_same:
  assumes inv: "tty_inv p s" and "code_of s t = c # cs"
    and "writer s' = writer s" "turns s' = turns s" "code_of s' = (code_of s)(t := cs)"
    and "screen s' @ pending s' = screen s @ pending s"
    and "bracketed (writer s = Some t) cs" "sections cs = sections (c # cs)"
  shows "tty_inv p s'"
  using assms tty_invD(2) [OF inv assms(2)] unfolding tty_inv_def by (auto simp del: sections.simps)

lemma thread_step_inv:
  assumes inv: "tty_inv p s" and step: "thread_step t s = Some s'"
  shows "tty_inv p s'"
proof -
  obtain c cs where c: "code_of s t = c # cs"
    using step by (auto simp: thread_step_def split: if_splits list.splits)
  note D = tty_invD [OF inv c]
  show ?thesis
  proof (cases c)
    case Lock
    then have s': "s' = s\<lparr>code_of := (code_of s)(t := cs), writer := Some t, turns := t # turns s\<rparr>" and w: "writer s = None"
      using step c by (auto simp: thread_step_def Let_def split: if_splits)
    have l: "drop (count_list (turns s) t) (p t) = chunk cs # sections cs" using D(2) Lock by simp
    then have "count_list (turns s) t < length (p t)" by (metis drop_eq_Nil2 leI list.distinct(1))
    moreover have "p t ! count_list (turns s) t = chunk cs" "drop (Suc (count_list (turns s) t)) (p t) = sections cs"
      using l by (metis nth_via_drop) (metis drop_Suc list.sel(3) l tl_drop)
    moreover have "bracketed True cs" using D(1) Lock by simp
    ultimately show ?thesis
      using inv w by (auto simp: tty_inv_def s' pending_def)
  next
    case (Put os l)
    then have s': "s' = s\<lparr>code_of := (code_of s)(t := cs), screen := screen s @ [(os, l)]\<rparr>"
      using step c by (auto simp: thread_step_def Let_def split: if_splits)
    have "writer s = Some t" "bracketed True cs" using D(1) Put by auto
    then show ?thesis
      using Put c by (intro tty_inv_same [OF inv c]) (simp_all add: s' pending_def)
  next
    case Unlock
    then have s': "s' = s\<lparr>code_of := (code_of s)(t := cs), writer := None\<rparr>"
      using step c by (auto simp: thread_step_def Let_def split: if_splits)
    have w: "writer s = Some t" "bracketed False cs" using D(1) Unlock by auto
    have "bracketed False (code_of s u)" if "u \<noteq> t" for u 
    proof -
      have "bracketed (writer s = Some u) (code_of s u)" using inv by (simp add: tty_inv_def)
      then show ?thesis using w(1) that by simp
    qed
    then show ?thesis
      using inv Unlock c D(2) w by (auto simp: tty_inv_def s' pending_def)
  next
    case (Ask xs)
    then have *: "writer s \<noteq> Some t" "bracketed False cs" using D(1) by auto
    have "pending s' = pending s" "writer s' = writer s" "turns s' = turns s" "code_of s' = (code_of s)(t := cs)" "screen s' = screen s"
      using step c Ask *(1) by (auto simp: thread_step_def Let_def pending_def split: if_splits option.splits)
    then show ?thesis using * Ask by (intro tty_inv_same [OF inv c]) simp_all
  next
    case Abort
    then have *: "writer s \<noteq> Some t" "bracketed False cs" using D(1) by auto
    have "pending s' = pending s" "writer s' = writer s" "turns s' = turns s" "code_of s' = (code_of s)(t := cs)" "screen s' = screen s"
      using step c Abort *(1) by (auto simp: thread_step_def Let_def pending_def split: if_splits option.splits)
    then show ?thesis using * Abort by (intro tty_inv_same [OF inv c]) simp_all
  qed
qed

lemma threads_run_inv: "tty_inv p s \<Longrightarrow> tty_inv p (threads_run ts s)"
  by (induction ts arbitrary: s) (auto intro: thread_step_inv split: option.splits)

section \<open>Progress\<close>

definition left :: "nat \<Rightarrow> tty \<Rightarrow> nat" where
  "left n s = (\<Sum>t < n. length (code_of s t))"

lemma thread_step_code:
  assumes "thread_step t s = Some s'"
  shows "\<exists>c cs. code_of s t = c # cs \<and> code_of s' = (code_of s)(t := cs)"
  using assms by (auto simp: thread_step_def Let_def split: if_splits list.splits code.splits option.splits)

lemma thread_step_left:
  assumes "thread_step t s = Some s'" "\<And>u. n \<le> u \<Longrightarrow> code_of s u = []"
  shows "left n s = Suc (left n s')" "\<And>u. n \<le> u \<Longrightarrow> code_of s' u = []"
proof -
  obtain c cs where c: "code_of s t = c # cs" "code_of s' = (code_of s)(t := cs)"
    using thread_step_code [OF assms(1)] by blast
  then have t: "t < n" using assms(2) [of t] by (metis leI list.distinct(1))
  have "left n s = length (code_of s t) + (\<Sum>u \<in> {..<n} - {t}. length (code_of s u))"
    unfolding left_def using t by (intro sum.remove) auto
  moreover have "left n s' = length (code_of s' t) + (\<Sum>u \<in> {..<n} - {t}. length (code_of s' u))"
    unfolding left_def using t by (intro sum.remove) auto
  moreover have "(\<Sum>u \<in> {..<n} - {t}. length (code_of s' u)) = (\<Sum>u \<in> {..<n} - {t}. length (code_of s u))"
    using c(2) by (intro sum.cong) auto
  ultimately show "left n s = Suc (left n s')" using c by simp
  show "code_of s' u = []" if "n \<le> u" for u using assms(2) [OF that] c(2) t that by simp
qed

lemma moves_left:
  assumes "\<And>u. n \<le> u \<Longrightarrow> code_of s u = []"
  shows "moves ts s + left n (threads_run ts s) = left n s"
  using assms
proof (induction ts arbitrary: s)
  case (Cons t ts)
  show ?case
  proof (cases "thread_step t s")
    case (Some s')
    have "left n s = Suc (left n s')" "\<And>u. n \<le> u \<Longrightarrow> code_of s' u = []"
      by (rule thread_step_left [OF Some Cons.prems], assumption)+
    then show ?thesis using Cons.IH [of s'] Some by simp
  qed (use Cons in simp)
qed simp

lemma stuck_waits:
  assumes inv: "tty_inv p s" and "\<not> dead s" and stuck: "\<And>t. thread_step t s = None"
  shows "writer s = None \<and> (\<forall>t. code_of s t = [] \<or> (\<exists>xs cs. code_of s t = Ask xs # cs \<and> choice_read xs (typed s) = None))"
proof -
  have b: "bracketed (writer s = Some t) (code_of s t)" for t using inv by (simp add: tty_inv_def)
  have w: "writer s = None"
  proof (rule ccontr)
    assume "writer s \<noteq> None"
    then obtain t where "writer s = Some t" by blast
    then have "bracketed True (code_of s t)" using b [of t] by simp
    then have "thread_step t s \<noteq> None" using assms(2)
      by (auto simp: thread_step_def Let_def elim: bracketed.elims split: list.split code.split)
    then show False using stuck by simp
  qed
  have "code_of s t = [] \<or> (\<exists>xs cs. code_of s t = Ask xs # cs \<and> choice_read xs (typed s) = None)" for t
    using stuck [of t] w assms(2)
    by (auto simp: thread_step_def Let_def split: list.splits code.splits option.splits)
  then show ?thesis using w by blast
qed

section \<open>Whole messages\<close>

text \<open>The sections of a message are what the theory of a single thread says it prints.\<close>

lemma said_sections:
  assumes "dump_channel c src line = Inr d"
  shows "said c src line t e = concat (thread_sections e [dump_append t d])"
proof -
  have d: "channel_of (dump_append t d) = c" "os_of (dump_append t d) = channel_stream c"
    using assms by (auto simp: dump_channel_def dump_append_def split: if_splits)
  show ?thesis
    by (simp add: said_def assms message_sections_def d asked_def split: sum.splits)
qed

text \<open>
  C9: threads that print at once do not mix their lines. Under every schedule the screen holds, but for the rest of the
  section that is being written, the critical sections of the messages one after the other, in the order in which the threads took
  \<open>logging::lock\<close>, each thread's in its own order. No schedule makes more steps than the code has; when nothing moves
  and the process has not aborted, nobody holds the lock, and every thread has ended or waits for an answer that was not typed; when all have ended,
  every message is on the screen. (A \<open>BRK\<close> message is two sections, so another message may come between it and its question.)
\<close>

theorem messages_whole:
  fixes ts :: "nat list" and input :: string
  assumes code: "\<And>t. thread_code e (ds t) = Inr (cs t)" and n: "\<And>t. n \<le> t \<Longrightarrow> ds t = []"
  defines "p \<equiv> \<lambda>t. thread_sections e (ds t)"
  defines "s \<equiv> threads_run ts (opened cs input)"
  shows "screen s @ pending s = replay p (turns s) \<and> (writer s = None \<longrightarrow> pending s = []) \<and>
    (\<forall>t. count_list (turns s) t \<le> length (p t)) \<and>
    moves ts (opened cs input) \<le> (\<Sum>t < n. length (cs t)) \<and>
    ((\<forall>t. thread_step t s = None) \<and> \<not> dead s \<longrightarrow> writer s = None \<and>
       (\<forall>t. code_of s t = [] \<or> (\<exists>xs c. code_of s t = Ask xs # c \<and> choice_read xs (typed s) = None))) \<and>
    ((\<forall>t. code_of s t = []) \<longrightarrow> (\<forall>t. count_list (turns s) t = length (p t)) \<and> screen s = replay p (turns s))"
proof -
  have "tty_inv p (opened cs input)"
    using thread_code_shape [OF code] by (intro tty_inv_opened) (auto simp: p_def)
  then have inv: "tty_inv p s" unfolding s_def by (rule threads_run_inv)
  have "cs t = []" if "n \<le> t" for t using code [of t] n [OF that] by simp
  then have "moves ts (opened cs input) \<le> left n (opened cs input)"
    using moves_left [of n "opened cs input" ts] by (simp add: opened_def)
  then have m: "moves ts (opened cs input) \<le> (\<Sum>t < n. length (cs t))" by (simp add: left_def opened_def)
  have end': "count_list (turns s) t = length (p t)" "pending s = []" if "\<forall>t. code_of s t = []" for t
  proof -
    have "drop (count_list (turns s) t) (p t) = []" "count_list (turns s) t \<le> length (p t)"
      using inv that unfolding tty_inv_def by (metis sections.simps(1))+
    then show "count_list (turns s) t = length (p t)" by simp
    show "pending s = []" using that by (simp add: pending_def split: option.split)
  qed
  have "writer s = None \<longrightarrow> pending s = []" by (simp add: pending_def)
  moreover have sc: "screen s @ pending s = replay p (turns s)" "\<forall>t. count_list (turns s) t \<le> length (p t)"
    using inv unfolding tty_inv_def by blast+
  moreover have "screen s = replay p (turns s)" if "\<forall>t. code_of s t = []"
    using sc(1) end'(2) [OF that] by simp
  ultimately show ?thesis using m stuck_waits [OF inv] end'(1) by blast
qed

text \<open>Two threads, one line each, on a terminal of 80 columns without prompts.\<close>

definition bare_env :: env where
  "bare_env = \<lparr>max_total = 80, nverbose = True, ndebug = False, indentation = 0, stdin = []\<rparr>"

definition one_line :: "string \<Rightarrow> dump" where
  "one_line t = dump_append t (dump_stream Cout ''a.cpp'' 7)"

lemma print_loop_line:
  assumes "s \<noteq> []" "length s < n" "n \<le> max_buffer" "newline \<notin> set s" "nul \<notin> set s"
  shows "print_loop n pr blank True s = Inr [pr @ carat @ s]"
proof -
  have "takeWhile (\<lambda>c. c \<noteq> newline) s = s" using assms(4) by (intro takeWhile_eq_all_conv [THEN iffD2]) auto
  then have g: "get_chunk n s = s" unfolding get_chunk_def using assms(2) by (simp only: take_all less_imp_le)
  have c: "c_string s = s" using assms(5) by (rule c_string_id)
  have "left_after n s = []" using assms(2) by (simp add: left_after_def wraps_def g c)
  moreover have "print_loop n blank blank b [] = Inr []" for b
    by (subst print_loop.simps) (simp add: get_chunk_def)
  ultimately show ?thesis using assms(1-3) by (subst print_loop.simps) (simp add: g c)
qed

lemma one_line_code:
  assumes "t \<in> {''ab'', ''cd''}"
  shows "thread_code bare_env [one_line t] = Inr [Lock, Put Cout (carat @ t), Unlock]"
    "thread_sections bare_env [one_line t] = [[(Cout, carat @ t)]]"
proof -
  have "newline \<notin> set t" "nul \<notin> set t" "length t = 2" using assms by (auto simp: newline_def nul_def)
  then have "print_loop 78 [] [] True t = Inr [[] @ carat @ t]"
    by (intro print_loop_line) (auto simp: max_buffer_def)
  moreover have "ss_str (ss (one_line t)) = t"
    by (simp add: one_line_def dump_append_def dump_stream_def ss_write_def)
  ultimately have "dump_output ''BUF'' bare_env (one_line t) = Inr [carat @ t]"
    by (simp add: dump_output_def bare_env_def print_text_def)
  moreover have "channel_of (one_line t) = BUF" "os_of (one_line t) = Cout"
    by (simp_all add: one_line_def dump_append_def dump_stream_def)
  ultimately show "thread_code bare_env [one_line t] = Inr [Lock, Put Cout (carat @ t), Unlock]"
    "thread_sections bare_env [one_line t] = [[(Cout, carat @ t)]]"
    by (simp_all add: message_code_def message_sections_def channel_name_def guarded_def after_sections_def)
qed

theorem messages_whole_witness:
  "\<exists>cs. (\<forall>t. thread_code bare_env (if t < 2 then [one_line (if t = 0 then ''ab'' else ''cd'')] else []) = Inr (cs t)) \<and>
    moves [1, 0, 1, 0, 1, 0, 0] (opened cs []) \<le> (\<Sum>t < 2. length (cs t))"
proof -
  let ?ds = "\<lambda>t :: nat. if t < 2 then [one_line (if t = 0 then ''ab'' else ''cd'')] else []"
  let ?cs = "\<lambda>t :: nat. if t < 2 then [Lock, Put Cout (carat @ (if t = 0 then ''ab'' else ''cd'')), Unlock] else []"
  have c: "thread_code bare_env (?ds t) = Inr (?cs t)" for t
    using one_line_code(1) [of "''ab''"] one_line_code(1) [of "''cd''"] by simp
  have n: "?ds t = []" if "2 \<le> t" for t using that by simp
  note whole = messages_whole [where e = bare_env and ds = ?ds and cs = ?cs and n = 2 and ts = "[1, 0, 1, 0, 1, 0, 0]" and input = "[]", OF c n]
  have "moves [1, 0, 1, 0, 1, 0, 0] (opened ?cs []) \<le> (\<Sum>t < 2. length (?cs t))"
    by (rule whole [THEN conjunct2, THEN conjunct2, THEN conjunct2, THEN conjunct1])
  then show ?thesis using c by (intro exI [of _ ?cs] conjI allI)
qed

end
