(* ===== verification/Output_Fork.thy ===== *)
theory Output_Fork
  imports Output_Lock
begin

text \<open>
  Forking a process whose threads print: \<open>Case::Fork\<close> of \<^verbatim>\<open>src/cases.hpp\<close> against \<open>logging::lock\<close> of
  \<^verbatim>\<open>src/output.h\<close>. The child of a \<^verbatim>\<open>fork()\<close> has a copy of the memory, the lock with the state it had, but only
  the thread that called \<^verbatim>\<open>fork()\<close>.
\<close>

section \<open>The child\<close>

definition forked :: "nat \<Rightarrow> tty \<Rightarrow> tty" where
  "forked t s = s\<lparr>code_of := (\<lambda>u. if u = t then code_of s t else [])\<rparr>"

text \<open>Code that neither asks nor aborts.\<close>

fun plain :: "code list \<Rightarrow> bool" where
  "plain [] = True"
| "plain (Ask _ # cs) = False"
| "plain (Abort # cs) = False"
| "plain (_ # cs) = plain cs"

text \<open>When the lock was held by a thread that the child does not have, nothing is ever printed.\<close>

definition orphaned :: "nat \<Rightarrow> nat \<Rightarrow> tty \<Rightarrow> bool" where
  "orphaned t u s \<longleftrightarrow> u \<noteq> t \<and> writer s = Some u \<and> (\<forall>v. v \<noteq> t \<longrightarrow> code_of s v = []) \<and> bracketed False (code_of s t)"

lemma orphaned_step:
  assumes "orphaned t u s" "thread_step v s = Some s'"
  shows "orphaned t u s' \<and> screen s' = screen s \<and> (Lock \<in> set (code_of s t) \<longrightarrow> Lock \<in> set (code_of s' t))"
proof -
  have v: "v = t" "\<not> dead s" using assms by (auto simp: orphaned_def thread_step_def split: if_splits)
  obtain c cs where c: "code_of s t = c # cs" using assms v by (auto simp: thread_step_def split: list.splits)
  show ?thesis
    using assms v c by (cases c) (auto simp: orphaned_def thread_step_def Let_def split: if_splits option.splits)
qed

lemma orphaned_run:
  assumes "orphaned t u s"
  shows "orphaned t u (threads_run vs s) \<and> screen (threads_run vs s) = screen s \<and>
    (Lock \<in> set (code_of s t) \<longrightarrow> Lock \<in> set (code_of (threads_run vs s) t))"
  using assms
proof (induction vs arbitrary: s)
  case (Cons v vs)
  show ?case
  proof (cases "thread_step v s")
    case (Some s')
    then show ?thesis using orphaned_step [OF Cons.prems Some] Cons.IH [of s'] by simp
  qed (use Cons in simp)
qed simp

text \<open>
  When it was free, the thread runs alone: up to its end, an abort, a question that is answered n, or one that gets no
  answer. This is the part of its code that it runs, and what it has printed at the end.
\<close>

fun audible :: "code list \<Rightarrow> string \<Rightarrow> code list" where
  "audible [] inp = []"
| "audible (Abort # cs) inp = []"
| "audible (Ask xs # cs) inp = (case choice_read xs inp of None \<Rightarrow> []
     | Some (x, rest) \<Rightarrow> if x = CHR ''n'' then [] else audible cs rest)"
| "audible (c # cs) inp = c # audible cs inp"

definition solo_text :: "nat \<Rightarrow> tty \<Rightarrow> line list" where
  "solo_text t s = screen s @ (if writer s = Some t then chunk (code_of s t) else []) @
     concat (sections (audible (code_of s t) (typed s)))"

definition solo :: "nat \<Rightarrow> line list \<Rightarrow> tty \<Rightarrow> bool" where
  "solo t x s \<longleftrightarrow> (\<forall>v. v \<noteq> t \<longrightarrow> code_of s v = []) \<and> (if dead s then screen s = x
     else writer s \<in> {None, Some t} \<and> bracketed (writer s = Some t) (code_of s t) \<and> solo_text t s = x)"

lemma chunk_audible: "bracketed True cs \<Longrightarrow> chunk (audible cs inp) = chunk cs"
  by (induction cs inp rule: audible.induct) auto

lemma audible_plain: "plain cs \<Longrightarrow> audible cs inp = cs"
  by (induction cs inp rule: audible.induct) auto

lemma solo_step:
  assumes "solo t x s" "thread_step v s = Some s'"
  shows "solo t x s' \<and> length (code_of s t) = Suc (length (code_of s' t)) \<and> (plain (code_of s t) \<longrightarrow> plain (code_of s' t) \<and> \<not> dead s')"
proof -
  have v: "v = t" "\<not> dead s" using assms by (auto simp: solo_def thread_step_def split: if_splits)
  obtain c cs where c: "code_of s t = c # cs" using assms v by (auto simp: thread_step_def split: list.splits)
  show ?thesis
    using assms v c by (cases c)
      (auto simp: solo_def solo_text_def thread_step_def Let_def chunk_audible split: if_splits option.splits)
qed

lemma solo_run: "solo t x s \<Longrightarrow> solo t x (threads_run vs s)"
proof (induction vs arbitrary: s)
  case (Cons v vs)
  then show ?case using solo_step [OF Cons.prems, of v] by (cases "thread_step v s") auto
qed simp

lemma solo_prefix: "solo t x s \<Longrightarrow> \<exists>r. x = screen s @ r"
  by (auto simp: solo_def solo_text_def split: if_splits)

text \<open>When the thread cannot move there is nothing left to print.\<close>

lemma solo_stuck:
  assumes s: "solo t x s" and stuck: "thread_step t s = None"
  shows "screen s = x" "plain (code_of s t) \<Longrightarrow> \<not> dead s \<Longrightarrow> code_of s t = []"
proof -
  have "screen s = x \<and> (plain (code_of s t) \<and> \<not> dead s \<longrightarrow> code_of s t = [])"
  proof (cases "code_of s t")
    case Nil
    then show ?thesis using s by (auto simp: solo_def solo_text_def split: if_splits)
  next
    case (Cons c cs)
    then show ?thesis using s stuck
      by (cases c) (auto simp: solo_def solo_text_def thread_step_def Let_def split: if_splits option.splits)
  qed
  then show "screen s = x" "plain (code_of s t) \<Longrightarrow> \<not> dead s \<Longrightarrow> code_of s t = []" by blast+
qed

lemma solo_ends:
  "solo t x s \<Longrightarrow> \<exists>vs. screen (threads_run vs s) = x \<and>
    (plain (code_of s t) \<and> \<not> dead s \<longrightarrow> code_of (threads_run vs s) t = [])"
proof (induction "length (code_of s t)" arbitrary: s rule: less_induct)
  case less
  show ?case
  proof (cases "thread_step t s")
    case None
    then show ?thesis using solo_stuck [OF less.prems None] by (intro exI [of _ "[]"]) simp
  next
    case (Some s')
    note step = solo_step [OF less.prems Some]
    obtain vs where "screen (threads_run vs s') = x"
        "plain (code_of s' t) \<and> \<not> dead s' \<longrightarrow> code_of (threads_run vs s') t = []"
      using less.hyps [of s'] step by auto
    then show ?thesis using Some step by (intro exI [of _ "t # vs"]) simp
  qed
qed

section \<open>Property\<close>

text \<open>
  C20: a child that is forked while another thread of its parent is printing can never print: whatever runs in it, the screen
  stays as it was, and a thread with a message to print does not end. Forked while the lock is free (and from a
  thread that is not printing itself, as \<open>Fork\<close> is), it prints its messages one after the other up to its end or to
  the first that ends or blocks it: it aborts (\<open>FTL\<close>), or its question (\<open>BRK\<close>) is answered n or not at all. It prints no more than that, and
  all of it in some run; when no message is \<open>FTL\<close> or \<open>BRK\<close>, all its messages, and the thread ends.
\<close>

theorem fork_inherits_lock:
  assumes inv: "tty_inv p s" and t: "writer s \<noteq> Some t" and alive: "\<not> dead s"
  shows "(\<forall>u vs. writer s = Some u \<longrightarrow> screen (threads_run vs (forked t s)) = screen s \<and>
      (Lock \<in> set (code_of s t) \<longrightarrow> code_of (threads_run vs (forked t s)) t \<noteq> [])) \<and>
    (writer s = None \<longrightarrow>
      (\<forall>vs. \<exists>r. screen s @ concat (sections (audible (code_of s t) (typed s))) = screen (threads_run vs (forked t s)) @ r) \<and>
      (\<exists>vs. screen (threads_run vs (forked t s)) = screen s @ concat (sections (audible (code_of s t) (typed s))))) \<and>
    (writer s = None \<and> plain (code_of s t) \<longrightarrow>
      (\<exists>vs. code_of (threads_run vs (forked t s)) t = [] \<and>
        screen (threads_run vs (forked t s)) = screen s @ concat (drop (count_list (turns s) t) (p t))))"
proof -
  have b: "bracketed False (code_of s t)" using inv t unfolding tty_inv_def by (metis (full_types))
  have sec: "sections (code_of s t) = drop (count_list (turns s) t) (p t)" using inv unfolding tty_inv_def by blast
  let ?x = "screen s @ concat (sections (audible (code_of s t) (typed s)))"
  have "screen (threads_run vs (forked t s)) = screen s \<and>
      (Lock \<in> set (code_of s t) \<longrightarrow> code_of (threads_run vs (forked t s)) t \<noteq> [])" if "writer s = Some u" for u vs
  proof -
    have "orphaned t u (forked t s)" using that t b by (auto simp: orphaned_def forked_def)
    from orphaned_run [OF this, of vs] show ?thesis by (auto simp: forked_def)
  qed
  moreover have alone: "solo t ?x (forked t s)" if "writer s = None"
    using that alive b by (simp add: solo_def solo_text_def forked_def)
  moreover have "\<exists>r. ?x = screen (threads_run vs (forked t s)) @ r" if "writer s = None" for vs
    using solo_prefix [OF solo_run [OF alone [OF that]]] .
  moreover have "\<exists>vs. screen (threads_run vs (forked t s)) = ?x \<and>
      (plain (code_of s t) \<longrightarrow> code_of (threads_run vs (forked t s)) t = [])" if "writer s = None"
    using solo_ends [OF alone [OF that]] alive by (simp add: forked_def)
  moreover have "?x = screen s @ concat (drop (count_list (turns s) t) (p t))" if "plain (code_of s t)"
    using sec that by (simp add: audible_plain)
  ultimately show ?thesis by metis
qed

text \<open>Thread 1 is in the middle of its line when thread 0 forks.\<close>

theorem fork_inherits_lock_witness:
  "\<exists>s. writer s = Some 1 \<and> (\<forall>vs. screen (threads_run vs (forked 0 s)) = [])"
proof -
  let ?ds = "\<lambda>t :: nat. if t < 2 then [one_line (if t = 0 then ''ab'' else ''cd'')] else []"
  let ?cs = "\<lambda>t :: nat. if t < 2 then [Lock, Put Cout (carat @ (if t = 0 then ''ab'' else ''cd'')), Unlock] else []"
  define s where "s = threads_run [1] (opened ?cs [])"
  have c: "thread_code bare_env (?ds t) = Inr (?cs t)" for t
    using one_line_code(1) [of "''ab''"] one_line_code(1) [of "''cd''"] by simp
  have "tty_inv (\<lambda>t. thread_sections bare_env (?ds t)) (opened ?cs [])"
    using thread_code_shape [OF c] by (intro tty_inv_opened) auto
  then have inv: "tty_inv (\<lambda>t. thread_sections bare_env (?ds t)) s" unfolding s_def by (rule threads_run_inv)
  have s: "writer s = Some 1" "\<not> dead s" "screen s = []"
    by (simp_all add: s_def opened_def thread_step_def Let_def)
  then have "writer s \<noteq> Some 0" by simp
  note f = fork_inherits_lock [OF inv this s(2), THEN conjunct1]
  have "screen (threads_run vs (forked 0 s)) = []" for vs using f s(1,3) by simp
  then show ?thesis using s(1) by blast
qed

end
