(* ===== verification/Timing.thy ===== *)
theory Timing
  imports Process
begin

text \<open>
  \<^verbatim>\<open>src/context.h\<close>, \<^verbatim>\<open>src/lock.h\<close>, \<^verbatim>\<open>src/timing.h\<close> and the \<^verbatim>\<open>Profiler\<close> of \<^verbatim>\<open>src/taskmaster.h\<close>: scopes that
  enter and exit a context, the two contexts of the library (timers and locks), callbacks at fixed
  intervals. One thread is modelled, with the mutexes it holds and its timers by number; a floating
  point number of milliseconds is printed by an argument of the model.
\<close>

section \<open>Contexts\<close>

record scope_world = world +
  held :: "nat set"                  \<comment> \<open>the mutexes this thread has locked\<close>
  m_start :: "nat \<Rightarrow> 64 word"
  m_name :: "nat \<Rightarrow> string"

type_synonym 'a scoped = "scope_world \<Rightarrow> ((fault + 'a) \<times> scope_world) option"

text \<open>\<open>with (var) body\<close>: the constructor and the destructor of \<open>ContextWrapper\<close> around the body.\<close>

definition with_context :: "unit scoped \<Rightarrow> unit scoped \<Rightarrow> 'a scoped \<Rightarrow> 'a scoped" where
  "with_context enter exit body =
     bind_run enter (\<lambda>_. bind_run body (\<lambda>x. bind_run exit (\<lambda>_. return_run x)))"

subsection \<open>Timers\<close>

text \<open>The constructor formats the name into a buffer of 1024 bytes.\<close>

definition timer_new :: "nat \<Rightarrow> string \<Rightarrow> unit scoped" where
  "timer_new t name w = Some (Inr (), w\<lparr>m_name := (m_name w)(t := take 1023 name)\<rparr>)"

definition timer_began :: "string \<Rightarrow> string" where
  "timer_began name = ''Timer '' @ name @ '' beginning''"

definition timer_took :: "string \<Rightarrow> string \<Rightarrow> string" where
  "timer_took name time = ''Timer '' @ name @ '' took '' @ time @ ''ms''"

definition timer_enter :: "string \<Rightarrow> nat \<Rightarrow> unit scoped" where
  "timer_enter file t w = bind_run (say OUT file 31 (timer_began (m_name w t)))
     (\<lambda>_ w. Some (Inr (), w\<lparr>indentation := indent (indentation w), m_start := (m_start w)(t := clock w)\<rparr>)) w"

definition timer_exit :: "(64 word \<Rightarrow> string) \<Rightarrow> string \<Rightarrow> nat \<Rightarrow> unit scoped" where
  "timer_exit ms file t w = (let duration = clock w - m_start w t
     in say OUT file 40 (timer_took (m_name w t) (ms duration))
          (w\<lparr>indentation := unindent (indentation w)\<rparr>))"

subsection \<open>Locks\<close>

definition lock_enter :: "nat \<Rightarrow> unit scoped" where
  "lock_enter m w = (if m \<in> held w then Some (Inl Bad_Lock, w) else Some (Inr (), w\<lparr>held := insert m (held w)\<rparr>))"

definition lock_exit :: "nat \<Rightarrow> unit scoped" where
  "lock_exit m w = (if m \<in> held w then Some (Inr (), w\<lparr>held := held w - {m}\<rparr>) else Some (Inl Bad_Lock, w))"

section \<open>Programs of nested scopes\<close>

datatype scope = Timer nat | Locked nat

datatype stmt =
    Spend "64 word"             \<comment> \<open>anything that takes this long\<close>
  | Note string                 \<comment> \<open>a message on \<open>OUT\<close>\<close>
  | With scope "stmt list"

fun enter :: "string \<Rightarrow> scope \<Rightarrow> unit scoped" where
  "enter file (Timer t) = timer_enter file t"
| "enter file (Locked m) = lock_enter m"

fun leave :: "(64 word \<Rightarrow> string) \<Rightarrow> string \<Rightarrow> scope \<Rightarrow> unit scoped" where
  "leave ms file (Timer t) = timer_exit ms file t"
| "leave ms file (Locked m) = lock_exit m"

fun exec :: "(64 word \<Rightarrow> string) \<Rightarrow> string \<Rightarrow> stmt \<Rightarrow> unit scoped"
  and exec_all :: "(64 word \<Rightarrow> string) \<Rightarrow> string \<Rightarrow> stmt list \<Rightarrow> unit scoped" where
  "exec ms file (Spend n) = (\<lambda>w. Some (Inr (), w\<lparr>clock := clock w + n\<rparr>))"
| "exec ms file (Note s) = say OUT file 1 s"
| "exec ms file (With c body) = with_context (enter file c) (leave ms file c) (exec_all ms file body)"
| "exec_all ms file [] = return_run ()"
| "exec_all ms file (s # rest) = bind_run (exec ms file s) (\<lambda>_. exec_all ms file rest)"

section \<open>Intervals\<close>

text \<open>
  \<open>interval_callback\<close>: each round is what the callback returned and the clock read after it; the
  result is what is slept in each round, \<^verbatim>\<open>usleep\<close> taking 32 bits. \<^verbatim>\<open>ms * 1000\<close> is a product of \<^verbatim>\<open>int\<close>.
\<close>

fun interval_loop :: "int \<Rightarrow> 64 word \<Rightarrow> (bool \<times> 64 word) list \<Rightarrow> (fault + 32 word option list) option" where
  "interval_loop ms next [] = None"
| "interval_loop ms next ((go, t) # rounds) =
    (if \<not> go then Some (Inr [])
     else if ms * 1000 < - (2 ^ 31) \<or> 2 ^ 31 \<le> ms * 1000 then Some (Inl Signed_Overflow)
     else let next = next + word_of_int (ms * 1000); wait = next - t;
              slept = (if 0 < sint wait then Some (ucast wait) else None)
          in map_option (\<lambda>r. bind_res r (\<lambda>sl. Inr (slept # sl))) (interval_loop ms next rounds))"

definition interval_callback :: "int \<Rightarrow> 64 word \<Rightarrow> (bool \<times> 64 word) list \<Rightarrow> (fault + 32 word option list) option" where
  "interval_callback ms start rounds = interval_loop ms start rounds"

text \<open>\<open>Profiler\<close>: its constructor reads the clock, its destructor adds to a sum that all threads share.\<close>

definition profiler_end :: "64 word \<Rightarrow> 64 word \<Rightarrow> 64 word \<Rightarrow> 64 word" where
  "profiler_end start now time = time + (now - start)"

section \<open>Scopes restore what they change\<close>

definition scope_view :: "scope_world \<Rightarrow> int \<times> nat set \<times> int" where
  "scope_view w = (indentation w, held w, max_total w)"

text \<open>
  The contract of a context: after a body that leaves the view of the world as it finds it, the
  exit brings back the view from before the entry.
\<close>

locale scoped_context =
  fixes enter_c leave_c :: "unit scoped"
  assumes enter_nonneg: "enter_c w = Some (Inr (), u) \<Longrightarrow> 0 \<le> indentation w \<Longrightarrow> 0 \<le> indentation u"
    and leave_restores: "enter_c w = Some (Inr (), u) \<Longrightarrow> 0 \<le> indentation w \<Longrightarrow> scope_view v = scope_view u \<Longrightarrow>
      leave_c v = Some (Inr (), z) \<Longrightarrow> scope_view z = scope_view w"
begin

lemma with_restores:
  assumes "with_context enter_c leave_c body w = Some (Inr x, z)" "0 \<le> indentation w"
    and body: "\<And>u v y. 0 \<le> indentation u \<Longrightarrow> body u = Some (Inr y, v) \<Longrightarrow> scope_view v = scope_view u"
  shows "scope_view z = scope_view w"
proof -
  obtain u v where "enter_c w = Some (Inr (), u)" "body u = Some (Inr x, v)" "leave_c v = Some (Inr (), z)"
    using assms(1) by (auto simp: with_context_def bind_run_Inr_iff run_simps)
  then show ?thesis using leave_restores body enter_nonneg assms(2) by blast
qed

end

lemma say_view: "say c file line t w = Some (Inr u, v) \<Longrightarrow> scope_view v = scope_view w"
  using say_frame by (fastforce simp: scope_view_def)

lemma timer_enter_view:
  "timer_enter file t w = Some (Inr (), u) \<Longrightarrow> scope_view u = (indentation w + 1, held w, max_total w)"
  by (auto simp: timer_enter_def bind_run_Inr_iff scope_view_def indent_def dest!: say_view)

lemma timer_exit_view:
  "timer_exit ms file t v = Some (Inr (), z) \<Longrightarrow> scope_view z = (unindent (indentation v), held v, max_total v)"
  by (auto simp: timer_exit_def Let_def scope_view_def dest!: say_view)

interpretation timed: scoped_context "timer_enter src t" "timer_exit ms src t" for src t ms
proof
  show "0 \<le> indentation u" if "timer_enter src t w = Some (Inr (), u)" "0 \<le> indentation w" for w u
    using timer_enter_view [OF that(1)] that(2) by (simp add: scope_view_def)
  show "scope_view z = scope_view w" if "timer_enter src t w = Some (Inr (), u)" "0 \<le> indentation w"
    "scope_view v = scope_view u" "timer_exit ms src t v = Some (Inr (), z)" for w u v z
    using timer_enter_view [OF that(1)] timer_exit_view [OF that(4)] that(2,3)
    by (simp add: scope_view_def unindent_def)
qed

interpretation locked: scoped_context "lock_enter m" "lock_exit m" for m
  by unfold_locales (auto simp: lock_enter_def lock_exit_def scope_view_def split: if_splits)

lemma exec_restores:
  "exec ms src s w = Some (Inr y, v) \<Longrightarrow> 0 \<le> indentation w \<Longrightarrow> scope_view v = scope_view w"
  "exec_all ms src body w = Some (Inr y, v) \<Longrightarrow> 0 \<le> indentation w \<Longrightarrow> scope_view v = scope_view w"
proof (induction ms src s and ms src body arbitrary: w y v and w y v rule: exec_exec_all.induct)
  case (3 ms src c body)
  show ?case
  proof (cases c)
    case (Timer t)
    then show ?thesis using 3 timed.with_restores [of src t ms "exec_all ms src body" w y v] by simp
  next
    case (Locked m)
    then show ?thesis using 3 locked.with_restores [of m "exec_all ms src body" w y v] by simp
  qed
next
  case (5 ms src s rest)
  obtain u where u: "exec ms src s w = Some (Inr (), u)" "exec_all ms src rest u = Some (Inr y, v)"
    using "5.prems"(1) by (auto simp: bind_run_Inr_iff)
  have "scope_view u = scope_view w" using "5.IH"(1) u(1) "5.prems"(2) by blast
  then show ?case using "5.IH"(2) [OF u(2)] "5.prems"(2) by (simp add: scope_view_def)
qed (auto simp: scope_view_def run_simps dest!: say_view)

section \<open>Which programs of scopes run\<close>

text \<open>A lock inside itself, and the greatest number of timers inside each other.\<close>

fun relocks :: "nat set \<Rightarrow> stmt \<Rightarrow> bool" and relocks_all :: "nat set \<Rightarrow> stmt list \<Rightarrow> bool" where
  "relocks H (Spend n) = False"
| "relocks H (Note s) = False"
| "relocks H (With (Timer t) body) = relocks_all H body"
| "relocks H (With (Locked m) body) = (m \<in> H \<or> relocks_all (insert m H) body)"
| "relocks_all H [] = False"
| "relocks_all H (s # rest) = (relocks H s \<or> relocks_all H rest)"

fun timers :: "stmt \<Rightarrow> nat" and timers_all :: "stmt list \<Rightarrow> nat" where
  "timers (Spend n) = 0"
| "timers (Note s) = 0"
| "timers (With (Timer t) body) = Suc (timers_all body)"
| "timers (With (Locked m) body) = timers_all body"
| "timers_all [] = 0"
| "timers_all (s # rest) = max (timers s) (timers_all rest)"

definition roomy :: "nat \<Rightarrow> scope_world \<Rightarrow> bool" where
  "roomy d w \<longleftrightarrow> 0 \<le> indentation w \<and> indentation w + int d < 400 \<and> max_total w \<le> 1026"

lemma roomy_view: "scope_view v = scope_view w \<Longrightarrow> roomy d v = roomy d w"
  by (simp add: roomy_def scope_view_def)

lemma roomy_printable: "roomy d w \<Longrightarrow> n < 10000 \<Longrightarrow> printable n w"
  by (simp add: roomy_def printable_def)

lemma say_out: "roomy d w \<Longrightarrow> n < 10000 \<Longrightarrow>
    say OUT src n t w = Some (Inr (), w\<lparr>printed := printed w @ said OUT src n t (env.truncate w)\<rparr>)"
  by (rule say_printed) (auto intro: roomy_printable)

lemma timer_enter_runs: "roomy (Suc d) w \<Longrightarrow> \<exists>u. timer_enter src t w = Some (Inr (), u) \<and> roomy d u \<and> held u = held w"
  by (simp add: timer_enter_def say_out bind_run_def) (simp add: roomy_def indent_def)

lemma timer_exit_runs: "roomy d v \<Longrightarrow> \<exists>z. timer_exit ms src t v = Some (Inr (), z)"
proof -
  assume "roomy d v"
  then have "roomy 0 (v\<lparr>indentation := unindent (indentation v)\<rparr>)" by (simp add: roomy_def unindent_def)
  then show ?thesis by (simp add: timer_exit_def Let_def say_out)
qed

lemma exec_outcome:
  "roomy (timers s) w \<Longrightarrow> \<exists>v. exec ms src s w = Some (if relocks (held w) s then Inl Bad_Lock else Inr (), v)"
  "roomy (timers_all body) w \<Longrightarrow> \<exists>v. exec_all ms src body w = Some (if relocks_all (held w) body then Inl Bad_Lock else Inr (), v)"
proof (induction ms src s and ms src body arbitrary: w and w rule: exec_exec_all.induct)
  case (3 ms src c body)
  show ?case
  proof (cases c)
    case (Timer t)
    then obtain u where u: "timer_enter src t w = Some (Inr (), u)" "roomy (timers_all body) u" "held u = held w"
      using "3.prems" timer_enter_runs by fastforce
    then obtain v where v: "exec_all ms src body u = Some (if relocks_all (held w) body then Inl Bad_Lock else Inr (), v)"
      using "3.IH" [OF u(2)] by auto
    have "\<exists>z. timer_exit ms src t v = Some (Inr (), z)" if "\<not> relocks_all (held w) body"
    proof -
      have "exec_all ms src body u = Some (Inr (), v)" using v that by simp
      then have "scope_view v = scope_view u" by (rule exec_restores(2)) (use u(2) in \<open>simp add: roomy_def\<close>)
      then show ?thesis using timer_exit_runs u(2) roomy_view by blast
    qed
    then show ?thesis using u(1) v Timer
      by (cases "relocks_all (held w) body") (auto simp: with_context_def bind_run_def run_simps)
  next
    case (Locked m)
    show ?thesis
    proof (cases "m \<in> held w")
      case True
      then show ?thesis using Locked by (simp add: with_context_def bind_run_def lock_enter_def)
    next
      case False
      let ?u = "w\<lparr>held := insert m (held w)\<rparr>"
      have "roomy (timers_all body) ?u" using "3.prems" Locked by (simp add: roomy_def)
      then obtain v where v: "exec_all ms src body ?u = Some (if relocks_all (insert m (held w)) body then Inl Bad_Lock else Inr (), v)"
        using "3.IH" [of ?u] by auto
      have "m \<in> held v" if "\<not> relocks_all (insert m (held w)) body"
      proof -
        have "exec_all ms src body ?u = Some (Inr (), v)" using v that by simp
        then have "scope_view v = scope_view ?u" by (rule exec_restores(2)) (use "3.prems" in \<open>simp add: roomy_def\<close>)
        then show ?thesis by (simp add: scope_view_def)
      qed
      then show ?thesis using v Locked False
        by (cases "relocks_all (insert m (held w)) body")
          (simp_all add: with_context_def bind_run_def lock_enter_def lock_exit_def run_simps)
    qed
  qed
next
  case (5 ms src s rest)
  have r: "roomy (timers s) w" "roomy (timers_all rest) w" using "5.prems" by (auto simp: roomy_def)
  from "5.IH"(1) [OF r(1)] obtain v where v: "exec ms src s w = Some (if relocks (held w) s then Inl Bad_Lock else Inr (), v)" by blast
  show ?case
  proof (cases "relocks (held w) s")
    case False
    then have "exec ms src s w = Some (Inr (), v)" using v by simp
    then have view: "scope_view v = scope_view w" by (rule exec_restores(1)) (use r(1) in \<open>simp add: roomy_def\<close>)
    then have h: "held v = held w" by (simp add: scope_view_def)
    have "roomy (timers_all rest) v" using r(2) roomy_view [OF view] by simp
    from "5.IH"(2) [OF this] obtain z where
      "exec_all ms src rest v = Some (if relocks_all (held w) rest then Inl Bad_Lock else Inr (), z)"
      unfolding h by blast
    then show ?thesis using v False by (simp add: bind_run_def)
  qed (use v in \<open>simp add: bind_run_def\<close>)
next
  case (1 ms src n) show ?case by simp
next
  case (2 ms src s) then show ?case by (simp add: say_out)
next
  case (4 ms src) show ?case by (simp add: run_simps)
qed

section \<open>The schedule of an interval\<close>

definition slept :: "32 word option \<Rightarrow> nat" where
  "slept s = (case s of None \<Rightarrow> 0 | Some w \<Rightarrow> unat w)"

text \<open>The clock after a round is at least the clock before it and what was slept.\<close>

definition honest :: "64 word list \<Rightarrow> 32 word option list \<Rightarrow> bool" where
  "honest ts sl \<longleftrightarrow> (\<forall>k. Suc k < length ts \<longrightarrow> unat (ts ! k) + slept (sl ! k) \<le> unat (ts ! Suc k))"

lemma honest_Cons: "honest (a # b # ts) (s # sl) \<longleftrightarrow> unat a + slept s \<le> unat b \<and> honest (b # ts) sl"
  by (auto simp: honest_def less_Suc_eq_0_disj nth_Cons split: nat.splits)

lemma sint_of_small: "- (2 ^ 63) \<le> i \<Longrightarrow> i < 2 ^ 63 \<Longrightarrow> sint (word_of_int i :: 64 word) = i"
  by (simp add: sint_sbintrunc' signed_take_bit_int_eq_self_iff)

lemma interval_round:
  fixes start a :: "64 word"
  assumes "0 \<le> q" "q < 2 ^ 31" "unat start + nat q < 2 ^ 63" "unat a < 2 ^ 63" "unat start \<le> unat a"
  shows "unat (start + word_of_int q) = unat start + nat q"
    and "slept (if 0 < sint (start + word_of_int q - a) then Some (ucast (start + word_of_int q - a)) else None)
      = unat start + nat q - unat a"
proof -
  have q: "word_of_int q = (of_nat (nat q) :: 64 word)" using assms(1) by (simp add: word_of_int_nat [symmetric])
  have nq: "unat (of_nat (nat q) :: 64 word) = nat q" using assms(2) by (intro unat_of_nat_64) (simp add: nat_less_iff)
  show u: "unat (start + word_of_int q) = unat start + nat q"
    unfolding q using assms(3) nq by (subst unat_add_no_wrap) simp_all
  let ?i = "int (unat start + nat q) - int (unat a)"
  have w: "start + word_of_int q - a = word_of_int ?i"
  proof -
    have "start + word_of_int q = of_nat (unat start + nat q)" by (simp add: q)
    moreover have "a = of_nat (unat a)" by simp
    ultimately show ?thesis by (metis of_int_diff of_int_of_nat_eq)
  qed
  have "int (unat start + nat q) < 2 ^ 63" "int (unat a) < 2 ^ 63"
    using assms(3,4) by (simp_all only: of_nat_less_numeral_power_cancel_iff)
  then have "- (2 ^ 63) \<le> ?i" "?i < 2 ^ 63" by linarith+
  then have s: "sint (start + word_of_int q - a) = ?i"
    unfolding w by (rule sint_of_small)
  show "slept (if 0 < sint (start + word_of_int q - a) then Some (ucast (start + word_of_int q - a)) else None)
      = unat start + nat q - unat a"
  proof (cases "0 < ?i")
    case True
    have "nat q < 2 ^ 31" using assms(1,2) by (simp add: nat_less_iff)
    then have lt: "unat start + nat q - unat a < 2 ^ 31" using assms(5) by linarith
    have "?i = int (unat start + nat q - unat a)" using True by linarith
    then have "start + word_of_int q - a = of_nat (unat start + nat q - unat a)" unfolding w by (simp only: of_int_of_nat_eq)
    moreover have "unat (of_nat (unat start + nat q - unat a) :: 64 word) = unat start + nat q - unat a"
      using lt by (intro unat_of_nat_64) simp
    ultimately have "unat (ucast (start + word_of_int q - a) :: 32 word) = unat start + nat q - unat a"
      using lt by (simp add: unsigned_ucast_eq take_bit_nat_eq_self)
    then show ?thesis unfolding s if_P [OF True] by (simp only: slept_def option.case)
  next
    case False
    then have "unat start + nat q - unat a = 0" by linarith
    then show ?thesis unfolding s if_not_P [OF False] by (simp only: slept_def option.case)
  qed
qed

lemma interval_schedule_from:
  assumes "0 \<le> ms" "ms * 1000 < 2 ^ 31" "unat start + length ts * nat (ms * 1000) < 2 ^ 63" "\<forall>t \<in> set ts. unat t < 2 ^ 63"
  shows "\<exists>sl. interval_loop ms start (map (Pair True) ts @ (False, t) # rest) = Some (Inr sl) \<and> length sl = length ts \<and>
    ((ts \<noteq> [] \<longrightarrow> unat start \<le> unat (hd ts)) \<and> honest ts sl \<longrightarrow>
      (\<forall>k < length ts. unat start + k * nat (ms * 1000) \<le> unat (ts ! k) \<and>
        slept (sl ! k) = unat start + Suc k * nat (ms * 1000) - unat (ts ! k)))"
  using assms(3,4)
proof (induction ts arbitrary: start)
  case (Cons a ts)
  let ?q = "ms * 1000" and ?next = "start + word_of_int (ms * 1000)"
  let ?s = "if 0 < sint (?next - a) then Some (ucast (?next - a)) else None :: 32 word option"
  note round = interval_round [of ?q start a]
  have q: "0 \<le> ?q" using assms(1) by simp
  have fits: "\<not> (?q < - (2 ^ 31) \<or> 2 ^ 31 \<le> ?q)" using q assms(2) by linarith
  have n: "unat ?next = unat start + nat ?q"
    using interval_round(1) [of ?q start start] q assms(2) Cons.prems(1) by simp
  have "unat ?next + length ts * nat ?q < 2 ^ 63" unfolding n using Cons.prems(1) by simp
  from Cons.IH [OF this] Cons.prems(2) obtain sl where
    sl: "interval_loop ms ?next (map (Pair True) ts @ (False, t) # rest) = Some (Inr sl)" "length sl = length ts"
    and IH: "(ts \<noteq> [] \<longrightarrow> unat ?next \<le> unat (hd ts)) \<and> honest ts sl \<Longrightarrow>
      \<forall>k < length ts. unat ?next + k * nat ?q \<le> unat (ts ! k) \<and> slept (sl ! k) = unat ?next + Suc k * nat ?q - unat (ts ! k)"
    by auto
  have run: "interval_loop ms start (map (Pair True) (a # ts) @ (False, t) # rest) = Some (Inr (?s # sl))"
    using fits sl(1) by (simp add: Let_def)
  have "\<forall>k < length (a # ts). unat start + k * nat ?q \<le> unat ((a # ts) ! k) \<and>
      slept ((?s # sl) ! k) = unat start + Suc k * nat ?q - unat ((a # ts) ! k)"
    if first: "unat start \<le> unat a" and honest: "honest (a # ts) (?s # sl)"
  proof -
    have s: "slept ?s = unat start + nat ?q - unat a"
      using round(2) q assms(2) Cons.prems first by simp
    have "(ts \<noteq> [] \<longrightarrow> unat ?next \<le> unat (hd ts)) \<and> honest ts sl"
    proof (cases ts)
      case Nil
      then show ?thesis by (simp add: honest_def)
    next
      case (Cons b us)
      have "unat a + slept ?s \<le> unat b" "honest ts sl" using honest unfolding Cons honest_Cons by blast+
      then have "unat start + nat ?q \<le> unat b" unfolding s by linarith
      then show ?thesis using \<open>honest ts sl\<close> unfolding n Cons by simp
    qed
    from IH [OF this] show ?thesis
      using first s n by (auto simp: less_Suc_eq_0_disj algebra_simps)
  qed
  then show ?case using run sl(2) by auto
qed simp

section \<open>Properties\<close>

text \<open>
  C36: Programs of nested contexts. On a terminal with room for its timers such a program runs to
  its end unless it locks a mutex inside itself, and then that is where it stops; when it ends,
  the indentation and the set of held mutexes are what they were.
\<close>

theorem scopes_balanced:
  assumes "roomy (timers_all body) w"
  shows "\<exists>v. exec_all ms src body w = Some (if relocks_all (held w) body then Inl Bad_Lock else Inr (), v) \<and>
    (\<not> relocks_all (held w) body \<longrightarrow> indentation v = indentation w \<and> held v = held w)"
proof -
  obtain v where v: "exec_all ms src body w = Some (if relocks_all (held w) body then Inl Bad_Lock else Inr (), v)"
    using exec_outcome(2) [OF assms] by blast
  have "scope_view v = scope_view w" if "\<not> relocks_all (held w) body"
  proof (rule exec_restores(2))
    show "exec_all ms src body w = Some (Inr (), v)" using v that by simp
    show "0 \<le> indentation w" using assms by (simp add: roomy_def)
  qed
  then show ?thesis using v by (auto simp: scope_view_def)
qed

definition quiet_scopes :: scope_world where
  "quiet_scopes = \<lparr>max_total = 80, nverbose = False, ndebug = False, indentation = 0, stdin = [], printed = [], clock = 5,
     held = {}, m_start = \<lambda>_. 0, m_name = \<lambda>_. ''t''\<rparr>"

lemma quiet_scopes_simps [simp]:
  "indentation quiet_scopes = 0" "max_total quiet_scopes = 80" "clock quiet_scopes = 5" "held quiet_scopes = {}"
  "m_name quiet_scopes t = ''t''"
  by (simp_all add: quiet_scopes_def)

lemma quiet_scopes_roomy: "n < 400 \<Longrightarrow> roomy n quiet_scopes"
  by (simp add: roomy_def)

lemma scopes_balanced_witness:
  "(\<exists>v. exec_all (\<lambda>_. ''0'') ''f.cpp'' [With (Timer 1) [With (Locked 2) [Spend 7, Note ''hi''], With (Locked 2) []]] quiet_scopes
      = Some (Inr (), v) \<and> indentation v = 0 \<and> held v = {}) \<and>
   (\<exists>v. exec_all (\<lambda>_. ''0'') ''f.cpp'' [With (Locked 2) [With (Timer 1) [With (Locked 2) []]]] quiet_scopes = Some (Inl Bad_Lock, v))"
  using scopes_balanced [of "[With (Timer 1) [With (Locked 2) [Spend 7, Note ''hi''], With (Locked 2) []]]" quiet_scopes "\<lambda>_. ''0''" "''f.cpp''"]
    scopes_balanced [of "[With (Locked 2) [With (Timer 1) [With (Locked 2) []]]]" quiet_scopes "\<lambda>_. ''0''" "''f.cpp''"]
  by (simp add: quiet_scopes_roomy del: exec_all.simps)

text \<open>
  A timer measures its body. Around a body that returns and uses the timer for nothing else,
  the message that it begins is printed before what the body prints, at the outer indentation, the
  body runs one level deeper, and the message after it gives exactly the time the clock advanced.
\<close>

theorem timer_measures:
  assumes "roomy 1 w"
    and u: "u = w\<lparr>printed := printed w @ said OUT src 31 (timer_began (m_name w t)) (env.truncate w),
      indentation := indentation w + 1, m_start := (m_start w)(t := clock w)\<rparr>"
    and body: "body u = Some (Inr x, v)" "scope_view v = scope_view u" "m_start v t = m_start u t" "m_name v t = m_name w t"
  defines "z \<equiv> v\<lparr>indentation := indentation w\<rparr>"
  shows "with_context (timer_enter src t) (timer_exit ms src t) body w =
    Some (Inr x, z\<lparr>printed := printed v @ said OUT src 40 (timer_took (m_name w t) (ms (clock v - clock w))) (env.truncate z)\<rparr>)"
proof -
  have enter: "timer_enter src t w = Some (Inr (), u)"
    using say_out [OF assms(1), of 31] by (simp add: timer_enter_def bind_run_def indent_def u)
  have view: "indentation v = indentation w + 1" "max_total v = max_total w"
    using body(2) by (simp_all add: scope_view_def u)
  then have z: "v\<lparr>indentation := unindent (indentation v)\<rparr> = z" and "roomy 0 z"
    using assms(1) by (simp_all add: z_def unindent_def roomy_def)
  from say_out [OF this(2), of 40] have "timer_exit ms src t v =
      Some (Inr (), z\<lparr>printed := printed v @ said OUT src 40 (timer_took (m_name w t) (ms (clock v - clock w))) (env.truncate z)\<rparr>)"
    using body(3,4) by (simp add: timer_exit_def z) (simp add: u z_def)
  then show ?thesis using enter body(1) by (simp add: with_context_def bind_run_def run_simps)
qed

lemma timer_measures_witness:
  "\<exists>ls. with_context (timer_enter ''f.cpp'' 2) (timer_exit (\<lambda>n. if n = 7 then ''0.007'' else ''?'') ''f.cpp'' 2)
      (exec (\<lambda>_. []) ''f.cpp'' (Spend 7)) quiet_scopes = Some (Inr (), quiet_scopes\<lparr>clock := 12, printed := ls @
        said OUT ''f.cpp'' 40 (timer_took ''t'' ''0.007'') (env.truncate quiet_scopes), m_start := (\<lambda>_. 0)(2 := 5)\<rparr>)"
proof -
  define u where "u = quiet_scopes\<lparr>printed := printed quiet_scopes @ said OUT ''f.cpp'' 31 (timer_began (m_name quiet_scopes 2)) (env.truncate quiet_scopes),
      indentation := indentation quiet_scopes + 1, m_start := (m_start quiet_scopes)(2 := clock quiet_scopes)\<rparr>"
  have room: "roomy 1 quiet_scopes" by (simp add: roomy_def)
  have "exec (\<lambda>_. []) ''f.cpp'' (Spend 7) u = Some (Inr (), u\<lparr>clock := 12\<rparr>)" by (simp add: u_def)
  from timer_measures [where w = quiet_scopes and u = u and ms = "\<lambda>n. if n = 7 then ''0.007'' else ''?''" and t = 2 and
      src = "''f.cpp''" and body = "exec (\<lambda>_. []) ''f.cpp'' (Spend 7)" and x = "()" and v = "u\<lparr>clock := 12\<rparr>", OF room u_def this]
  show ?thesis by (auto simp: scope_view_def u_def quiet_scopes_def env.defs)
qed

text \<open>
  C37: The schedule of \<open>interval_callback\<close>. For a period that fits an \<^verbatim>\<open>int\<close> of microseconds it
  returns as soon as the callback is false, after one round for each time it was true; and when
  the clock advances at least as far as was slept, no call starts before its multiple of the period
  and each sleep ends exactly there, however long the callbacks took (no drift, and \<^verbatim>\<open>usleep\<close> loses
  no bits); a round that is late does not sleep. From 2147484 milliseconds on the product overflows.
\<close>

theorem interval_schedule:
  assumes "0 \<le> ms" "unat start + length ts * nat (ms * 1000) < 2 ^ 63" "\<forall>t \<in> set ts. unat t < 2 ^ 63"
  shows "(ms \<le> 2147483 \<longrightarrow> (\<exists>sl. interval_callback ms start (map (Pair True) ts @ (False, t) # rest) = Some (Inr sl) \<and>
      length sl = length ts \<and>
      ((ts \<noteq> [] \<longrightarrow> unat start \<le> unat (hd ts)) \<and> honest ts sl \<longrightarrow>
        (\<forall>k < length ts. unat start + k * nat (ms * 1000) \<le> unat (ts ! k) \<and>
          slept (sl ! k) = unat start + Suc k * nat (ms * 1000) - unat (ts ! k))))) \<and>
    (2147483 < ms \<and> ts \<noteq> [] \<longrightarrow>
      interval_callback ms start (map (Pair True) ts @ (False, t) # rest) = Some (Inl Signed_Overflow))"
proof -
  have "interval_loop ms start (map (Pair True) ts @ (False, t) # rest) = Some (Inl Signed_Overflow)"
    if "2147483 < ms" "ts \<noteq> []"
    using that by (cases ts) simp_all
  moreover have "ms * 1000 < 2 ^ 31" if "ms \<le> 2147483" using that by simp
  ultimately show ?thesis
    using interval_schedule_from [OF assms(1) _ assms(2,3), of t rest] unfolding interval_callback_def by blast
qed

lemma interval_schedule_witness:
  "interval_callback 10 1000 [(True, 4000), (True, 25000), (False, 31000)] = Some (Inr [Some 7000, None]) \<and>
   slept (Some 7000) = 1000 + 1 * 10000 - 4000 \<and> slept None = 1000 + 2 * 10000 - 25000"
proof -
  have run: "interval_callback 10 1000 (map (Pair True) [4000, 25000] @ (False, 31000) # []) = Some (Inr [Some 7000, None])"
    by (simp add: interval_callback_def Let_def)
  have "honest [4000, 25000] [Some 7000, None]" by (simp add: honest_def slept_def)
  then have "\<forall>k < 2. slept ([Some 7000, None] ! k) = 1000 + Suc k * 10000 - unat ([4000, 25000 :: 64 word] ! k)"
    using interval_schedule [of 10 1000 "[4000, 25000]" 31000 "[]"] run by simp
  from this [rule_format, of 0] this [rule_format, of 1] show ?thesis using run by simp
qed

end
