(* ===== verification/Lock_Threads.thy ===== *)
theory Lock_Threads
  imports Timing
begin

text \<open>
  \<open>man::Lock\<close> (\<^verbatim>\<open>src/lock.h\<close>) under \<^verbatim>\<open>with\<close> (\<^verbatim>\<open>src/context.h\<close>) in several threads. The programs are those of
  \<open>Timing\<close>, nested \<^verbatim>\<open>with\<close> statements over locks and timers; each thread runs one, and the threads interleave
  at the entries and exits of locks. A thread that enters a lock of another one waits; one that enters its own is a fault, as
  it is for one thread in \<open>Timing\<close>.
\<close>

section \<open>The code of a program\<close>

datatype lock_code = Enter nat | Exit nat | Work

fun codes :: "stmt \<Rightarrow> lock_code list"
  and codes_all :: "stmt list \<Rightarrow> lock_code list" where
  "codes (Spend n) = [Work]"
| "codes (Note s) = [Work]"
| "codes (With (Timer t) body) = Work # codes_all body @ [Work]"
| "codes (With (Locked m) body) = Enter m # codes_all body @ [Exit m]"
| "codes_all [] = []"
| "codes_all (s # rest) = codes s @ codes_all rest"

text \<open>Programs that nest their locks in ascending order, inside of the locks \<open>ms\<close>.\<close>

fun ascending :: "nat list \<Rightarrow> stmt \<Rightarrow> bool"
  and ascending_all :: "nat list \<Rightarrow> stmt list \<Rightarrow> bool" where
  "ascending ms (Spend n) = True"
| "ascending ms (Note s) = True"
| "ascending ms (With (Timer t) body) = ascending_all ms body"
| "ascending ms (With (Locked m) body) = (list_all (\<lambda>k. k < m) ms \<and> ascending_all (m # ms) body)"
| "ascending_all ms [] = True"
| "ascending_all ms (s # rest) = (ascending ms s \<and> ascending_all ms rest)"

section \<open>Interleavings\<close>

record locks =
  owner_of :: "nat \<Rightarrow> nat option"
  rest_of :: "nat \<Rightarrow> lock_code list"

definition unlocked :: "(nat \<Rightarrow> lock_code list) \<Rightarrow> locks" where
  "unlocked cs = \<lparr>owner_of = (\<lambda>_. None), rest_of = cs\<rparr>"

text \<open>One step of a thread; \<open>None\<close> when it waits or has ended.\<close>

definition lock_step :: "nat \<Rightarrow> locks \<Rightarrow> (fault + locks) option" where
  "lock_step t s = (case rest_of s t of [] \<Rightarrow> None
     | c # cs \<Rightarrow> (let s' = s\<lparr>rest_of := (rest_of s)(t := cs)\<rparr> in
        case c of
          Work \<Rightarrow> Some (Inr s')
        | Enter m \<Rightarrow> (case owner_of s m of
              None \<Rightarrow> Some (Inr (s'\<lparr>owner_of := (owner_of s)(m := Some t)\<rparr>))
            | Some u \<Rightarrow> if u = t then Some (Inl Bad_Lock) else None)
        | Exit m \<Rightarrow> (if owner_of s m = Some t then Some (Inr (s'\<lparr>owner_of := (owner_of s)(m := None)\<rparr>))
            else Some (Inl Bad_Lock))))"

fun lock_run :: "nat list \<Rightarrow> locks \<Rightarrow> fault + locks" where
  "lock_run [] s = Inr s"
| "lock_run (t # ts) s = (case lock_step t s of None \<Rightarrow> lock_run ts s
     | Some r \<Rightarrow> bind_res r (lock_run ts))"

fun lock_moves :: "nat list \<Rightarrow> locks \<Rightarrow> nat" where
  "lock_moves [] s = 0"
| "lock_moves (t # ts) s = (case lock_step t s of None \<Rightarrow> lock_moves ts s
     | Some (Inl e) \<Rightarrow> 1 | Some (Inr s') \<Rightarrow> Suc (lock_moves ts s'))"

section \<open>The shape of the code\<close>

text \<open>The locks that the code will leave without having entered them: those its thread is in.\<close>

fun inside :: "lock_code list \<Rightarrow> nat list" where
  "inside [] = []"
| "inside (Work # cs) = inside cs"
| "inside (Exit m # cs) = m # inside cs"
| "inside (Enter m # cs) = tl (inside cs)"

fun well_nested :: "lock_code list \<Rightarrow> bool" where
  "well_nested [] = True"
| "well_nested (Work # cs) = well_nested cs"
| "well_nested (Exit m # cs) = (well_nested cs \<and> (\<forall>k \<in> set (inside cs). k < m))"
| "well_nested (Enter m # cs) = (well_nested cs \<and> (\<exists>ms. inside cs = m # ms \<and> (\<forall>k \<in> set ms. k < m)))"

lemma codes_well_nested:
  "well_nested k \<Longrightarrow> ascending (inside k) s \<Longrightarrow> well_nested (codes s @ k) \<and> inside (codes s @ k) = inside k"
  "well_nested k \<Longrightarrow> ascending_all (inside k) zs \<Longrightarrow> well_nested (codes_all zs @ k) \<and> inside (codes_all zs @ k) = inside k"
proof (induction s and zs arbitrary: k and k rule: codes_codes_all.induct)
  case (3 t body)
  then show ?case using "3.IH" [of "Work # k"] by simp
next
  case (4 m body)
  have "\<forall>j \<in> set (inside k). j < m" using "4.prems"(2) by (simp add: list_all_iff)
  then show ?case using "4.IH" [of "Exit m # k"] "4.prems" by simp
qed simp_all

section \<open>The invariant\<close>

definition locks_inv :: "locks \<Rightarrow> bool" where
  "locks_inv s \<longleftrightarrow> (\<forall>t. well_nested (rest_of s t)) \<and> (\<forall>m t. owner_of s m = Some t \<longleftrightarrow> m \<in> set (inside (rest_of s t)))"

lemma locks_inv_unlocked:
  assumes "\<And>t. ascending_all [] (progs t)"
  shows "locks_inv (unlocked (\<lambda>t. codes_all (progs t)))"
proof -
  have "well_nested (codes_all (progs t)) \<and> inside (codes_all (progs t)) = []" for t
    using codes_well_nested(2) [of "[]" "progs t"] assms by simp
  then show ?thesis by (simp add: locks_inv_def unlocked_def)
qed

lemma locks_invD:
  assumes "locks_inv s" "rest_of s t = cs"
  shows "well_nested cs" "\<And>m. owner_of s m = Some t \<longleftrightarrow> m \<in> set (inside cs)"
  using assms unfolding locks_inv_def by blast+

text \<open>A step is never a fault; it is possible unless the lock is somebody else's.\<close>

lemma lock_step_inv:
  assumes inv: "locks_inv s" and c: "rest_of s t = c # cs"
  shows "(\<exists>m u. c = Enter m \<and> owner_of s m = Some u \<and> u \<noteq> t \<and> lock_step t s = None) \<or>
    (\<exists>s'. lock_step t s = Some (Inr s') \<and> locks_inv s' \<and> rest_of s' = (rest_of s)(t := cs))"
proof -
  note D = locks_invD [OF inv c]
  have W: "well_nested (rest_of s u)" and O: "owner_of s m = Some u \<longleftrightarrow> m \<in> set (inside (rest_of s u))" for u m
    using inv unfolding locks_inv_def by blast+
  show ?thesis
  proof (cases c)
    case (Enter m)
    then obtain ms where ms: "inside cs = m # ms" "\<forall>k \<in> set ms. k < m" "well_nested cs" using D(1) by auto
    have "owner_of s m \<noteq> Some t" using D(2) [of m] ms Enter by auto
    show ?thesis
    proof (cases "owner_of s m")
      case None
      let ?s = "s\<lparr>rest_of := (rest_of s)(t := cs), owner_of := (owner_of s)(m := Some t)\<rparr>"
      have "lock_step t s = Some (Inr ?s)" using c Enter None by (simp add: lock_step_def Let_def)
      moreover have "locks_inv ?s"
      proof -
        have "owner_of s k = Some t \<longleftrightarrow> k \<in> set ms" for k using O [of k t] c Enter ms(1) by simp
        moreover have "m \<notin> set (inside (rest_of s u))" for u using O [of m u] None by simp
        ultimately show ?thesis using W O None ms c Enter by (auto simp: locks_inv_def)
      qed
      ultimately show ?thesis by auto
    next
      case (Some u)
      then have "u \<noteq> t" using \<open>owner_of s m \<noteq> Some t\<close> by simp
      then show ?thesis using Some c Enter by (simp add: lock_step_def Let_def)
    qed
  next
    case (Exit m)
    have m: "owner_of s m = Some t" using D(2) [of m] Exit by simp
    let ?s = "s\<lparr>rest_of := (rest_of s)(t := cs), owner_of := (owner_of s)(m := None)\<rparr>"
    have step: "lock_step t s = Some (Inr ?s)" using c Exit m by (simp add: lock_step_def Let_def)
    have cs: "well_nested cs" "m \<notin> set (inside cs)" using D(1) Exit by auto
    have "owner_of s k = Some t \<longleftrightarrow> k = m \<or> k \<in> set (inside cs)" for k using O [of k t] c Exit by simp
    moreover have "m \<notin> set (inside (rest_of s u))" if "u \<noteq> t" for u using O [of m u] m that by auto
    ultimately have "locks_inv ?s" using W O cs by (auto simp: locks_inv_def)
    then show ?thesis using step by auto
  next
    case Work
    let ?s = "s\<lparr>rest_of := (rest_of s)(t := cs)\<rparr>"
    have "lock_step t s = Some (Inr ?s)" using c Work by (simp add: lock_step_def Let_def)
    moreover have "locks_inv ?s" using W O D Work by (auto simp: locks_inv_def)
    ultimately show ?thesis by auto
  qed
qed

section \<open>Runs\<close>

definition code_left :: "nat \<Rightarrow> locks \<Rightarrow> nat" where
  "code_left n s = (\<Sum>t < n. length (rest_of s t))"

lemma code_left_step:
  assumes "rest_of s t = c # cs" "rest_of s' = (rest_of s)(t := cs)" "t < n"
  shows "code_left n s = Suc (code_left n s')"
proof -
  have "code_left n s = length (rest_of s t) + (\<Sum>u \<in> {..<n} - {t}. length (rest_of s u))"
    unfolding code_left_def using assms(3) by (intro sum.remove) auto
  moreover have "code_left n s' = length (rest_of s' t) + (\<Sum>u \<in> {..<n} - {t}. length (rest_of s' u))"
    unfolding code_left_def using assms(3) by (intro sum.remove) auto
  moreover have "(\<Sum>u \<in> {..<n} - {t}. length (rest_of s' u)) = (\<Sum>u \<in> {..<n} - {t}. length (rest_of s u))"
    using assms(2) by (intro sum.cong) auto
  ultimately show ?thesis using assms(1,2) by simp
qed

lemma lock_run_inv:
  assumes "locks_inv s" "\<And>t. n \<le> t \<Longrightarrow> rest_of s t = []"
  shows "\<exists>s'. lock_run ts s = Inr s' \<and> locks_inv s' \<and> (\<forall>t \<ge> n. rest_of s' t = []) \<and>
    lock_moves ts s + code_left n s' = code_left n s"
  using assms
proof (induction ts arbitrary: s)
  case (Cons t ts)
  show ?case
  proof (cases "lock_step t s")
    case None
    then show ?thesis using Cons.IH [OF Cons.prems] by simp
  next
    case (Some r)
    then obtain c cs where c: "rest_of s t = c # cs" by (auto simp: lock_step_def split: list.splits)
    then obtain s1 where s1: "lock_step t s = Some (Inr s1)" "locks_inv s1" "rest_of s1 = (rest_of s)(t := cs)"
      using lock_step_inv [OF Cons.prems(1) c] Some by auto
    have t: "t < n" using Cons.prems(2) [of t] c by (metis leI list.distinct(1))
    then have "rest_of s1 u = []" if "n \<le> u" for u using Cons.prems(2) [OF that] s1(3) that by simp
    then show ?thesis using Cons.IH [OF s1(2)] s1(1) code_left_step [OF c s1(3) t] by auto
  qed
qed simp

text \<open>
  Somebody can always move: the thread that waits for the greatest lock anybody waits for is waiting for a thread that does not
  wait.
\<close>

lemma somebody_moves:
  assumes inv: "locks_inv s" and n: "\<And>t. n \<le> t \<Longrightarrow> rest_of s t = []" and stuck: "\<And>t. lock_step t s = None"
  shows "rest_of s t = []"
proof (rule ccontr)
  assume "rest_of s t \<noteq> []"
  define waits_for where "waits_for = {m. \<exists>u cs. rest_of s u = Enter m # cs}"
  have waiting: "\<exists>m cs v. rest_of s u = Enter m # cs \<and> owner_of s m = Some v" if ne: "rest_of s u \<noteq> []" for u
  proof -
    obtain c cs where "rest_of s u = c # cs" using ne by (cases "rest_of s u") auto
    then show ?thesis using lock_step_inv [OF inv] stuck by fastforce
  qed
  have "waits_for \<subseteq> (\<lambda>u. case rest_of s u of Enter m # _ \<Rightarrow> m | _ \<Rightarrow> 0) ` {..<n}"
  proof
    fix m assume "m \<in> waits_for"
    then obtain u cs where u: "rest_of s u = Enter m # cs" by (auto simp: waits_for_def)
    then have "u < n" using n [of u] by (metis leI list.distinct(1))
    then show "m \<in> (\<lambda>u. case rest_of s u of Enter m # _ \<Rightarrow> m | _ \<Rightarrow> 0) ` {..<n}" using u by force
  qed
  then have fin: "finite waits_for" by (rule finite_subset) simp
  have "waits_for \<noteq> {}" using waiting [OF \<open>rest_of s t \<noteq> []\<close>] by (auto simp: waits_for_def)
  then have max: "Max waits_for \<in> waits_for" using fin by simp
  then obtain u cs where u: "rest_of s u = Enter (Max waits_for) # cs" by (auto simp: waits_for_def)
  then have "rest_of s u \<noteq> []" by simp
  then obtain v where v: "owner_of s (Max waits_for) = Some v" using waiting u by fastforce
  have O: "Max waits_for \<in> set (inside (rest_of s v))" using inv v unfolding locks_inv_def by blast
  then have "rest_of s v \<noteq> []" by auto
  then obtain m ds where m: "rest_of s v = Enter m # ds" using waiting by blast
  have "well_nested (Enter m # ds)" using locks_invD(1) [OF inv m] .
  then have "Max waits_for < m" using O m by auto
  moreover have "m \<in> waits_for" using m by (auto simp: waits_for_def)
  then have "m \<le> Max waits_for" by (rule Max_ge [OF fin])
  ultimately show False by linarith
qed

section \<open>Property\<close>

text \<open>
  C17: threads that nest their locks in one order. Under every schedule no lock is entered by its own thread or left by
  another, at most as many steps are made as the programs have, and when no thread can move all have ended and every lock is
  free. Without the order there is a deadlock: two threads that nest two locks the other way round.
\<close>

theorem ordered_locks_end:
  fixes progs :: "nat \<Rightarrow> stmt list" and n :: nat and ts :: "nat list"
  assumes asc: "\<And>t. ascending_all [] (progs t)" and n: "\<And>t. n \<le> t \<Longrightarrow> progs t = []"
  defines "s0 \<equiv> unlocked (\<lambda>t. codes_all (progs t))"
  shows "(\<exists>s. lock_run ts s0 = Inr s \<and> lock_moves ts s0 \<le> (\<Sum>t < n. length (codes_all (progs t))) \<and>
      (\<forall>m t. owner_of s m = Some t \<longrightarrow> m \<in> set (inside (rest_of s t)) \<and> rest_of s t \<noteq> []) \<and>
      ((\<forall>t. lock_step t s = None) \<longrightarrow> (\<forall>t. rest_of s t = []) \<and> owner_of s = (\<lambda>_. None))) \<and>
    (\<exists>s. lock_run [0, 1] (unlocked (\<lambda>t. codes_all (if t = 0 then [With (Locked 1) [With (Locked 2) []]]
        else if t = 1 then [With (Locked 2) [With (Locked 1) []]] else []))) = Inr s \<and>
      (\<forall>t. lock_step t s = None) \<and> rest_of s 0 \<noteq> [] \<and> rest_of s 1 \<noteq> [])"
proof (rule conjI)
  have inv: "locks_inv s0" unfolding s0_def by (rule locks_inv_unlocked [OF asc])
  have e: "rest_of s0 t = []" if "n \<le> t" for t using n [OF that] by (simp add: s0_def unlocked_def)
  obtain s where s: "lock_run ts s0 = Inr s" "locks_inv s" "\<And>t. n \<le> t \<Longrightarrow> rest_of s t = []"
    "lock_moves ts s0 + code_left n s = code_left n s0" using lock_run_inv [OF inv e, where ts = ts] by blast
  have O: "owner_of s m = Some t \<longleftrightarrow> m \<in> set (inside (rest_of s t))" for m t using s(2) unfolding locks_inv_def by blast
  have "lock_moves ts s0 \<le> (\<Sum>t < n. length (codes_all (progs t)))"
    using s(4) by (simp add: code_left_def s0_def unlocked_def)
  moreover have "m \<in> set (inside (rest_of s t)) \<and> rest_of s t \<noteq> []" if "owner_of s m = Some t" for m t
    using O [of m t] that by auto
  moreover have "(\<forall>t. rest_of s t = []) \<and> owner_of s = (\<lambda>_. None)" if "\<forall>t. lock_step t s = None"
  proof -
    have e: "rest_of s t = []" for t using somebody_moves [OF s(2,3)] that by blast
    have "owner_of s m \<noteq> Some t" for m t using O [of m t] e by simp
    then have "owner_of s m = None" for m by (metis option.exhaust)
    then show ?thesis using e by (simp add: fun_eq_iff)
  qed
  ultimately show "\<exists>s. lock_run ts s0 = Inr s \<and> lock_moves ts s0 \<le> (\<Sum>t < n. length (codes_all (progs t))) \<and>
      (\<forall>m t. owner_of s m = Some t \<longrightarrow> m \<in> set (inside (rest_of s t)) \<and> rest_of s t \<noteq> []) \<and>
      ((\<forall>t. lock_step t s = None) \<longrightarrow> (\<forall>t. rest_of s t = []) \<and> owner_of s = (\<lambda>_. None))" using s(1) by blast
  show "\<exists>s. lock_run [0, 1] (unlocked (\<lambda>t. codes_all (if t = 0 then [With (Locked 1) [With (Locked 2) []]]
        else if t = 1 then [With (Locked 2) [With (Locked 1) []]] else []))) = Inr s \<and>
      (\<forall>t. lock_step t s = None) \<and> rest_of s 0 \<noteq> [] \<and> rest_of s 1 \<noteq> []"
    by (simp add: unlocked_def lock_step_def Let_def)
qed

theorem ordered_locks_end_witness:
  "\<exists>s. lock_run [0, 1, 0, 1] (unlocked (\<lambda>t. codes_all (if t < 2 then [With (Locked 1) [With (Locked 2) [Spend 5]]] else []))) = Inr s \<and>
    (\<forall>m t. owner_of s m = Some t \<longrightarrow> rest_of s t \<noteq> [])"
proof -
  let ?progs = "\<lambda>t :: nat. if t < 2 then [With (Locked 1) [With (Locked 2) [Spend 5]]] else []"
  have "ascending_all [] (?progs t)" for t by simp
  moreover have "?progs t = []" if "2 \<le> t" for t using that by simp
  ultimately show ?thesis using ordered_locks_end [where progs = ?progs and n = 2 and ts = "[0, 1, 0, 1]"] by blast
qed

end
