(* ===== verification/Socket_IO.thy ===== *)
theory Socket_IO
  imports Prelude
begin

unbundle bit_operations_syntax

text \<open>
  The sockets of \<^verbatim>\<open>src/socket.h\<close> and \<^verbatim>\<open>src/socket.cpp\<close>. The operating system is not part of the
  repository: what its calls return is an argument, a list of events in the order of the calls,
  and a loop that uses up its events has not returned (\<open>None\<close>). The kernel's part of the contract
  (\<open>fits\<close>: \<^verbatim>\<open>recv\<close> and \<^verbatim>\<open>send\<close> move at most the length they are given) is a named hypothesis.

  A pointer into the caller's buffer is an offset; \<open>len\<close> is a \<open>size_t\<close>. File descriptors are a
  set of open numbers.
\<close>

type_synonym byte = "8 word"

section \<open>Transfers\<close>

datatype 'a io_event =
    Timed_Out      \<comment> \<open>\<open>poll\<close> returns 0\<close>
  | Poll_Failed    \<comment> \<open>\<open>poll\<close> returns a negative number\<close>
  | Moved 'a       \<comment> \<open>\<open>poll\<close> returns 1, and \<open>recv\<close> or \<open>send\<close> moves data\<close>
  | Io_Failed      \<comment> \<open>\<open>poll\<close> returns 1, and \<open>recv\<close> or \<open>send\<close> returns -1\<close>

definition store_bytes :: "int \<Rightarrow> byte list \<Rightarrow> (int \<rightharpoonup> byte) \<Rightarrow> (int \<rightharpoonup> byte)" where
  "store_bytes pos bs m i = (if pos \<le> i \<and> i < pos + int (length bs) then Some (bs ! nat (i - pos)) else m i)"

text \<open>The \<open>ssize_t\<close> that \<open>recv\<close> returns is assigned to an \<open>int\<close>.\<close>

definition to_int :: "nat \<Rightarrow> int" where
  "to_int n = sint (of_nat n :: 32 word)"

fun recv_loop ::
  "size_t \<Rightarrow> int \<Rightarrow> (int \<rightharpoonup> byte) \<Rightarrow> byte list io_event list \<Rightarrow> (bool \<times> (int \<rightharpoonup> byte)) option" where
  "recv_loop len data m [] = (if len = 0 then Some (True, m) else None)"
| "recv_loop len data m (e # es) =
     (if len = 0 then Some (True, m) else
      case e of
        Timed_Out \<Rightarrow> recv_loop len data m es
      | Poll_Failed \<Rightarrow> Some (False, m)
      | Io_Failed \<Rightarrow> Some (False, m)
      | Moved bs \<Rightarrow> (let recved = to_int (length bs); m = store_bytes data bs m in
          if recved < 0 then Some (False, m)
          else recv_loop (len - of_int recved) (data + recved) m es))"

definition conn_recv :: "size_t \<Rightarrow> byte list io_event list \<Rightarrow> (bool \<times> (int \<rightharpoonup> byte)) option" where
  "conn_recv len es = recv_loop len 0 Map.empty es"

text \<open>
  \<open>send\<close>: \<open>data\<close> is what the pointer points to. The result is the returned flag, the local
  \<open>polling\<close> that selects the message, and the bytes handed to the kernel.
\<close>

fun send_loop :: "size_t \<Rightarrow> byte list \<Rightarrow> nat io_event list \<Rightarrow> (bool \<times> bool \<times> byte list) option" where
  "send_loop len data [] = (if len = 0 then Some (True, False, []) else None)"
| "send_loop len data (e # es) =
     (if len = 0 then Some (True, False, []) else
      case e of
        Timed_Out \<Rightarrow> send_loop len data es
      | Poll_Failed \<Rightarrow> Some (False, True, [])
      | Io_Failed \<Rightarrow> Some (False, False, [])
      | Moved n \<Rightarrow> map_option (\<lambda>(ok, p, out). (ok, p, take n data @ out))
          (send_loop (len - of_nat n) (drop n data) es))"

definition conn_send :: "byte list \<Rightarrow> nat io_event list \<Rightarrow> (bool \<times> bool \<times> byte list) option" where
  "conn_send data es = send_loop (of_nat (length data)) data es"

section \<open>Addresses\<close>

text \<open>\<open>htons\<close> on a little-endian machine.\<close>

definition htons :: "16 word \<Rightarrow> 16 word" where
  "htons w = push_bit 8 w OR drop_bit 8 w"

record sockaddr_in =
  s_addr :: "32 word"
  sin_port :: "16 word"

text \<open>The address that \<open>TcpSocket::connect\<close> fills in (that of \<open>bind\<close> has \<^verbatim>\<open>INADDR_ANY\<close>, 0).\<close>

definition tcp_address :: "64 word \<Rightarrow> int \<Rightarrow> sockaddr_in" where
  "tcp_address addr port = \<lparr>s_addr = ucast addr, sin_port = htons (word_of_int port)\<rparr>"

text \<open>\<open>int Connection::port()\<close>.\<close>

definition conn_port :: "sockaddr_in \<Rightarrow> int" where
  "conn_port remote = uint (sin_port remote)"

text \<open>
  The address of a \<open>UnixSocket\<close>: \<^verbatim>\<open>strcpy\<close> copies the path and a NUL to \<open>sun_path\<close>, which has 108
  bytes; the length passed on does not count the NUL.
\<close>

definition sun_path_size :: nat where "sun_path_size = 108"

definition unix_address :: "string \<Rightarrow> fault + string \<times> size_t" where
  "unix_address path = (if length path + 1 \<le> sun_path_size
     then Inr (path, of_nat (length path) + 2) else Inl Out_Of_Bounds)"

section \<open>Descriptors\<close>

record fds =
  open_fds :: "int set"

definition close_fd :: "int \<Rightarrow> fds \<Rightarrow> fault + fds" where
  "close_fd fd s = (if fd \<in> open_fds s then Inr (s\<lparr>open_fds := open_fds s - {fd}\<rparr>) else Inl Double_Free)"

record connection =
  client :: bool
  conn_sock :: int

text \<open>
  A new socket, with the descriptor that the kernel gives (\<open>None\<close> when there is none: the message
  on \<open>FTL\<close> aborts); a connection accepted on a new descriptor, or none; a connection made on the
  socket's own descriptor; the two destructors.
\<close>

definition socket_new :: "int option \<Rightarrow> fds \<Rightarrow> fault + int \<times> fds" where
  "socket_new fd s = (case fd of None \<Rightarrow> Inl Aborted
     | Some fd \<Rightarrow> Inr (fd, s\<lparr>open_fds := insert fd (open_fds s)\<rparr>))"

definition conn_accept :: "int option \<Rightarrow> fds \<Rightarrow> connection option \<times> fds" where
  "conn_accept fd s = (case fd of None \<Rightarrow> (None, s)
     | Some fd \<Rightarrow> (Some \<lparr>client = False, conn_sock = fd\<rparr>, s\<lparr>open_fds := insert fd (open_fds s)\<rparr>))"

definition tcp_connect :: "int \<Rightarrow> bool \<Rightarrow> connection option" where
  "tcp_connect sock succeeds = (if succeeds then Some \<lparr>client = True, conn_sock = sock\<rparr> else None)"

definition conn_close :: "connection \<Rightarrow> fds \<Rightarrow> fault + fds" where
  "conn_close c s = close_fd (conn_sock c) s"

definition socket_destroy :: "int \<Rightarrow> fds \<Rightarrow> fault + fds" where
  "socket_destroy sock s = close_fd sock s"

text \<open>
  \<open>UnixSocket::connect\<close>: one attempt to connect and one reading of the clock (in microseconds)
  per round, and one last attempt when a second has gone by. \<open>msec_timeout\<close> is not used.
\<close>

definition us_per_sec :: "64 word" where "us_per_sec = 1000000"

fun unix_connect_loop :: "int \<Rightarrow> 64 word \<Rightarrow> (bool \<times> 64 word) list \<Rightarrow> connection option option" where
  "unix_connect_loop sock start [] = None"
| "unix_connect_loop sock start ((succeeds, time) # es) =
     (if succeeds then Some (Some \<lparr>client = True, conn_sock = sock\<rparr>)
      else if time - start < 1 * us_per_sec then unix_connect_loop sock start es
      else (case es of [] \<Rightarrow> None
         | (succeeds, _) # _ \<Rightarrow> Some (if succeeds then Some \<lparr>client = True, conn_sock = sock\<rparr> else None)))"

definition unix_connect ::
  "int \<Rightarrow> string \<Rightarrow> 64 word \<Rightarrow> 64 word \<Rightarrow> (bool \<times> 64 word) list \<Rightarrow> fault + connection option option" where
  "unix_connect sock path msec_timeout start es =
     bind_res (unix_address path) (\<lambda>_. Inr (unix_connect_loop sock start es))"

section \<open>The server loop\<close>

text \<open>
  What \<open>Socket::listen\<close> meets: the flag is set, \<open>poll\<close> times out, \<open>accept4\<close> returns a descriptor or
  fails; and, in any order with these, the callback of the \<open>i\<close>-th thread returns. Each connection
  gets a thread of its own that calls the callback and closes it; the loop collects the threads,
  with a flag that says whether they have ended, and joins them all at the end.
\<close>

datatype round = Shutdown | No_Client | Client int | Accept_Failed | Served nat

type_synonym threads = "(connection \<times> bool) list"

definition thread_end :: "nat \<Rightarrow> threads \<times> fds \<Rightarrow> fault + threads \<times> fds" where
  "thread_end i = (\<lambda>(ts, s). if i < length ts \<and> \<not> snd (ts ! i)
     then bind_res (conn_close (fst (ts ! i)) s) (\<lambda>s. Inr (ts[i := (fst (ts ! i), True)], s))
     else Inr (ts, s))"

definition accept_round :: "int option \<Rightarrow> threads \<times> fds \<Rightarrow> threads \<times> fds" where
  "accept_round fd = (\<lambda>(ts, s). case conn_accept fd s of
     (Some c, s) \<Rightarrow> (ts @ [(c, False)], s) | (None, s) \<Rightarrow> (ts, s))"

fun join_all :: "nat \<Rightarrow> threads \<times> fds \<Rightarrow> fault + threads \<times> fds" where
  "join_all 0 x = Inr x"
| "join_all (Suc n) x = bind_res (join_all n x) (thread_end n)"

fun listen_loop :: "round list \<Rightarrow> threads \<times> fds \<Rightarrow> (fault + threads \<times> fds) option" where
  "listen_loop [] x = None"
| "listen_loop (r # rs) x =
     (case r of
        Shutdown \<Rightarrow> Some (join_all (length (fst x)) x)
      | No_Client \<Rightarrow> listen_loop rs x
      | Client fd \<Rightarrow> listen_loop rs (accept_round (Some fd) x)
      | Accept_Failed \<Rightarrow> listen_loop rs (accept_round None x)
      | Served i \<Rightarrow> (case thread_end i x of Inl e \<Rightarrow> Some (Inl e) | Inr x \<Rightarrow> listen_loop rs x))"

definition socket_listen :: "bool \<Rightarrow> round list \<Rightarrow> fds \<Rightarrow> (fault + threads \<times> fds) option" where
  "socket_listen listen_fails rs s = (if listen_fails then Some (Inr ([], s)) else listen_loop rs ([], s))"

section \<open>Loops that move data\<close>

text \<open>
  What the two loops have in common: a loop over events with the number of bytes still to move.
  Time-outs are skipped, a failure ends it with \<open>False\<close>, and a transfer of \<open>k\<close> bytes, at most
  what is left and less than \<open>2 ^ 31\<close>, goes on with \<open>k\<close> bytes less.
\<close>

fun moved_total :: "('e \<Rightarrow> nat) \<Rightarrow> 'e io_event list \<Rightarrow> nat" where
  "moved_total sz [] = 0"
| "moved_total sz (Moved d # es) = sz d + moved_total sz es"
| "moved_total sz (_ # es) = moved_total sz es"

fun fits :: "('e \<Rightarrow> nat) \<Rightarrow> nat \<Rightarrow> 'e io_event list \<Rightarrow> bool" where
  "fits sz n [] = True"
| "fits sz n (Moved d # es) = (n = 0 \<or> sz d \<le> n \<and> sz d < 2 ^ 31 \<and> fits sz (n - sz d) es)"
| "fits sz n (_ # es) = (n = 0 \<or> fits sz n es)"

fun flawless :: "'e io_event list \<Rightarrow> bool" where
  "flawless [] = True"
| "flawless (Poll_Failed # es) = False"
| "flawless (Io_Failed # es) = False"
| "flawless (_ # es) = flawless es"

locale transfer_loop =
  fixes run :: "size_t \<Rightarrow> 'a \<Rightarrow> 'e io_event list \<Rightarrow> bool option"
    and sz :: "'e \<Rightarrow> nat"
    and advance :: "'e \<Rightarrow> 'a \<Rightarrow> 'a"
  assumes run_done: "run 0 a es = Some True"
    and run_wait: "len \<noteq> 0 \<Longrightarrow> run len a [] = None"
    and run_skip: "len \<noteq> 0 \<Longrightarrow> run len a (Timed_Out # es) = run len a es"
    and run_move: "len \<noteq> 0 \<Longrightarrow> sz d \<le> unat len \<Longrightarrow> sz d < 2 ^ 31 \<Longrightarrow>
      run len a (Moved d # es) = run (len - of_nat (sz d)) (advance d a) es"
    and run_poll: "len \<noteq> 0 \<Longrightarrow> run len a (Poll_Failed # es) = Some False"
    and run_fail: "len \<noteq> 0 \<Longrightarrow> run len a (Io_Failed # es) = Some False"
begin

lemma unat_rest: "sz d \<le> unat (len :: size_t) \<Longrightarrow> unat (len - of_nat (sz d)) = unat len - sz d"
  using unat_less_2_64 [of len] by (simp add: unat_sub unat_of_nat_64 word_le_nat_alt)

text \<open>Without failures the loop returns exactly when all bytes have been moved.\<close>

lemma run_flawless:
  "fits sz (unat len) es \<Longrightarrow> flawless es \<Longrightarrow>
    run len a es = (if unat len \<le> moved_total sz es then Some True else None)"
proof (induction es arbitrary: len a)
  case Nil
  then show ?case by (cases "len = 0") (simp_all add: run_done run_wait unat_eq_0)
next
  case (Cons e es)
  show ?case
  proof (cases "len = 0")
    case True
    then show ?thesis by (simp add: run_done)
  next
    case False
    show ?thesis
    proof (cases e)
      case (Moved d)
      then have d: "sz d \<le> unat len" "sz d < 2 ^ 31" "fits sz (unat len - sz d) es" "flawless es"
        using Cons.prems False by (auto simp: unat_eq_0)
      have "run (len - of_nat (sz d)) (advance d a) es =
          (if unat len - sz d \<le> moved_total sz es then Some True else None)"
        using Cons.IH [of "len - of_nat (sz d)" "advance d a"] d by (simp add: unat_rest)
      then show ?thesis using Moved run_move [OF False d(1,2)] by auto
    qed (use Cons False in \<open>auto simp: run_skip unat_eq_0\<close>)
  qed
qed

text \<open>It never returns \<open>True\<close> before all bytes have been moved.\<close>

lemma run_True: "fits sz (unat len) es \<Longrightarrow> run len a es = Some True \<Longrightarrow> unat len \<le> moved_total sz es"
proof (induction es arbitrary: len a)
  case Nil
  then show ?case by (cases "len = 0") (simp_all add: run_wait)
next
  case (Cons e es)
  show ?case
  proof (cases "len = 0")
    case False
    show ?thesis
    proof (cases e)
      case (Moved d)
      then have d: "sz d \<le> unat len" "sz d < 2 ^ 31" "fits sz (unat len - sz d) es"
        using Cons.prems False by (auto simp: unat_eq_0)
      have "run (len - of_nat (sz d)) (advance d a) es = Some True"
        using Cons.prems(2) Moved run_move [OF False d(1,2)] by simp
      then have "unat len - sz d \<le> moved_total sz es"
        using Cons.IH [of "len - of_nat (sz d)" "advance d a"] d by (simp add: unat_rest)
      then show ?thesis using Moved by simp
    qed (use Cons False in \<open>auto simp: run_skip run_poll run_fail unat_eq_0\<close>)
  qed simp
qed

end

text \<open>The two loops provide it.\<close>

lemma to_int_small: "n < 2 ^ 31 \<Longrightarrow> to_int n = int n"
  by (simp add: to_int_def sint_32_of_nat)

definition recv_run :: "size_t \<Rightarrow> int \<times> (int \<rightharpoonup> byte) \<Rightarrow> byte list io_event list \<Rightarrow> bool option" where
  "recv_run len a es = map_option fst (recv_loop len (fst a) (snd a) es)"

definition send_run :: "size_t \<Rightarrow> byte list \<Rightarrow> nat io_event list \<Rightarrow> bool option" where
  "send_run len data es = map_option fst (send_loop len data es)"

interpretation receiving: transfer_loop recv_run length
    "\<lambda>bs a. (fst a + int (length bs), store_bytes (fst a) bs (snd a))"
proof unfold_locales
  fix a :: "int \<times> (int \<rightharpoonup> byte)" and es :: "byte list io_event list"
  show "recv_run 0 a es = Some True" by (cases es) (simp_all add: recv_run_def)
qed (simp_all add: recv_run_def to_int_small Let_def)

interpretation sending: transfer_loop send_run "\<lambda>n. n" drop
proof unfold_locales
  fix a :: "byte list" and es :: "nat io_event list"
  show "send_run 0 a es = Some True" by (cases es) (simp_all add: send_run_def)
qed (simp_all add: send_run_def option.map_comp o_def case_prod_unfold)

text \<open>The data of a transfer.\<close>

fun moved_data :: "byte list io_event list \<Rightarrow> byte list" where
  "moved_data [] = []"
| "moved_data (Moved bs # es) = bs @ moved_data es"
| "moved_data (_ # es) = moved_data es"

lemma length_moved_data: "length (moved_data es) = moved_total length es"
  by (induction es rule: moved_data.induct) simp_all

definition holds_bytes :: "(int \<rightharpoonup> byte) \<Rightarrow> int \<Rightarrow> byte list \<Rightarrow> bool" where
  "holds_bytes m pos bs \<longleftrightarrow> (\<forall>i < length bs. m (pos + int i) = Some (bs ! i))"

lemma recv_contents:
  "fits length (unat len) es \<Longrightarrow> recv_loop len pos m es = Some (True, m') \<Longrightarrow>
    holds_bytes m' pos (take (unat len) (moved_data es)) \<and> (\<forall>i. i < pos \<or> pos + int (unat len) \<le> i \<longrightarrow> m' i = m i)"
proof (induction es arbitrary: len pos m)
  case Nil
  then show ?case by (auto simp: holds_bytes_def split: if_splits)
next
  case (Cons e es)
  show ?case
  proof (cases "len = 0")
    case True
    then show ?thesis using Cons.prems by (simp add: holds_bytes_def)
  next
    case False
    show ?thesis
    proof (cases e)
      case (Moved bs)
      let ?k = "length bs" and ?m = "store_bytes pos bs m"
      have d: "?k \<le> unat len" "?k < 2 ^ 31" "fits length (unat len - ?k) es"
        using Cons.prems False Moved by (auto simp: unat_eq_0)
      have rest: "unat (len - of_nat ?k) = unat len - ?k" by (rule receiving.unat_rest [OF d(1)])
      have "recv_loop (len - of_nat ?k) (pos + int ?k) ?m es = Some (True, m')"
        using Cons.prems(2) Moved False d(2) by (simp add: to_int_small Let_def)
      then have IH: "holds_bytes m' (pos + int ?k) (take (unat len - ?k) (moved_data es))"
        "\<And>i. i < pos + int ?k \<or> pos + int ?k + int (unat len - ?k) \<le> i \<Longrightarrow> m' i = ?m i"
        using Cons.IH [of "len - of_nat ?k" "pos + int ?k" ?m] d(3) rest by auto
      have "m' (pos + int i) = Some ((bs @ take (unat len - ?k) (moved_data es)) ! i)"
        if i: "i < length (bs @ take (unat len - ?k) (moved_data es))" for i
      proof (cases "i < ?k")
        case True
        then show ?thesis using IH(2) [of "pos + int i"] by (simp add: store_bytes_def nth_append)
      next
        case False
        then have "i - ?k < length (take (unat len - ?k) (moved_data es))" using i by simp linarith
        then have "m' (pos + int ?k + int (i - ?k)) = Some (take (unat len - ?k) (moved_data es) ! (i - ?k))"
          using IH(1) by (simp only: holds_bytes_def)
        then show ?thesis using False by (simp add: nth_append)
      qed
      moreover have "take (unat len) (moved_data (e # es)) = bs @ take (unat len - ?k) (moved_data es)"
        using Moved d(1) by simp
      moreover have "m' i = m i" if "i < pos \<or> pos + int (unat len) \<le> i" for i
      proof -
        have "int ?k \<le> int (unat len)" using d(1) by (simp only: of_nat_le_iff)
        then show ?thesis using that IH(2) [of i] d(1) by (auto simp: store_bytes_def)
      qed
      ultimately show ?thesis by (simp add: holds_bytes_def)
    next
      case Timed_Out
      then have "fits length (unat len) es" "recv_loop len pos m es = Some (True, m')"
        using Cons.prems False by (simp_all add: unat_eq_0)
      from Cons.IH [OF this] Timed_Out show ?thesis by simp
    next
      case Poll_Failed
      then show ?thesis using Cons.prems(2) False by simp
    next
      case Io_Failed
      then show ?thesis using Cons.prems(2) False by simp
    qed
  qed
qed

lemma send_contents:
  "fits (\<lambda>n. n) (unat len) es \<Longrightarrow> send_loop len data es = Some (True, p, out) \<Longrightarrow> unat len \<le> length data \<Longrightarrow>
    out = take (unat len) data"
proof (induction es arbitrary: len data out p)
  case Nil
  then show ?case by (auto split: if_splits)
next
  case (Cons e es)
  show ?case
  proof (cases "len = 0")
    case False
    show ?thesis
    proof (cases e)
      case (Moved n)
      have d: "n \<le> unat len" "fits (\<lambda>n. n) (unat len - n) es" using Cons.prems False Moved by (auto simp: unat_eq_0)
      have rest: "unat (len - of_nat n) = unat len - n" by (rule sending.unat_rest [OF d(1)])
      from Cons.prems(2) Moved False obtain out' where o: "send_loop (len - of_nat n) (drop n data) es = Some (True, p, out')"
        "out = take n data @ out'" by auto
      have "out' = take (unat len - n) (drop n data)"
        using Cons.IH [OF _ o(1)] d rest Cons.prems(3) by simp
      then show ?thesis using o(2) d(1) by (simp add: take_add [symmetric])
    qed (use Cons False in \<open>auto simp: unat_eq_0\<close>)
  qed (use Cons in auto)
qed

text \<open>Rounds of a peer that has closed the connection: nothing arrives, and \<open>recv\<close> returns 0.\<close>

definition end_of_stream :: "byte list io_event list \<Rightarrow> bool" where
  "end_of_stream es \<longleftrightarrow> set es \<subseteq> {Timed_Out, Moved []}"

lemma recv_end_of_stream: "end_of_stream es \<Longrightarrow> len \<noteq> 0 \<Longrightarrow> recv_loop len pos m es = None"
proof (induction es arbitrary: m)
  case (Cons e es)
  moreover have "to_int 0 = 0" by (simp add: to_int_def)
  ultimately show ?case by (auto simp: end_of_stream_def Let_def)
qed simp

section \<open>Properties of transfers\<close>

text \<open>
  C31: \<open>recv\<close> is exact. When the kernel keeps its contract and nothing fails, \<open>recv\<close> returns
  exactly when enough bytes have come, however they are split and whatever the time-outs; it
  returns true only then, and then the buffer has the first \<open>len\<close> bytes of the stream, in order,
  and nothing outside it was written.
\<close>

theorem recv_exact:
  assumes "fits length (unat len) es"
  shows "(flawless es \<longrightarrow> map_option fst (conn_recv len es) =
      (if unat len \<le> length (moved_data es) then Some True else None)) \<and>
    (\<forall>m. conn_recv len es = Some (True, m) \<longrightarrow> unat len \<le> length (moved_data es) \<and>
      holds_bytes m 0 (take (unat len) (moved_data es)) \<and> (\<forall>i. i < 0 \<or> int (unat len) \<le> i \<longrightarrow> m i = None))"
proof -
  have run: "map_option fst (conn_recv len es) = recv_run len (0, Map.empty) es"
    by (simp add: conn_recv_def recv_run_def)
  have "unat len \<le> length (moved_data es)" if "conn_recv len es = Some (True, m)" for m
    using receiving.run_True [OF assms, of "(0, Map.empty)"] run that by (simp add: length_moved_data)
  moreover have "holds_bytes m 0 (take (unat len) (moved_data es)) \<and> (\<forall>i. i < 0 \<or> int (unat len) \<le> i \<longrightarrow> m i = None)"
    if "conn_recv len es = Some (True, m)" for m
    using recv_contents [OF assms] that by (fastforce simp: conn_recv_def)
  ultimately show ?thesis using receiving.run_flawless [OF assms] run by (simp add: length_moved_data)
qed

lemma recv_exact_witness:
  "\<exists>m. conn_recv 3 [Timed_Out, Moved [7], Timed_Out, Moved [8, 9]] = Some (True, m) \<and> holds_bytes m 0 [7, 8, 9]"
proof -
  let ?es = "[Timed_Out, Moved [7], Timed_Out, Moved [8, 9 :: byte]]"
  have f: "fits length (unat (3 :: size_t)) ?es" "flawless ?es" by simp_all
  have "map_option fst (conn_recv 3 ?es) = Some True" using recv_exact [OF f(1)] f(2) by simp
  then obtain m where "conn_recv 3 ?es = Some (True, m)" by (auto simp: map_option_eq_Some)
  then show ?thesis using recv_exact [OF f(1)] by auto
qed

text \<open>
  \<open>recv\<close> does not notice the end of the stream, and misreads large transfers. When the peer
  has closed the connection before all bytes came, the loop never returns; and when one call
  moves at least \<open>2 ^ 31\<close> bytes (and less than \<open>2 ^ 32\<close>) the loop reports a failure, although the
  bytes were received.
\<close>

theorem recv_end_and_truncation:
  assumes "len \<noteq> 0"
  shows "(end_of_stream es \<longrightarrow> conn_recv len es = None) \<and>
    (2 ^ 31 \<le> length bs \<and> length bs < 2 ^ 32 \<longrightarrow> map_option fst (conn_recv len (Moved bs # es)) = Some False)"
proof -
  have "to_int (length bs) < 0" if "2 ^ 31 \<le> length bs" "length bs < 2 ^ 32"
  proof -
    have "int (length bs) div 2 ^ 31 = 1" using that by (intro int_div_pos_eq [of _ _ _ "int (length bs) - 2 ^ 31"]) simp_all
    then have "bit (int (length bs)) 31" unfolding bit_iff_odd by simp
    then show ?thesis by (simp add: to_int_def signed_of_nat)
  qed
  then show ?thesis using assms recv_end_of_stream by (simp add: conn_recv_def Let_def)
qed

text \<open>
  C32: \<open>send\<close> is exact. When the kernel keeps its contract and nothing fails, \<open>send\<close> returns true
  exactly when the kernel has taken as many bytes as there are; whenever it returns true, the
  bytes handed to the kernel are the data, in order and without repetition.
\<close>

theorem send_exact:
  assumes "fits (\<lambda>n. n) (length data) es" "length data < 2 ^ 64"
  shows "(flawless es \<longrightarrow> map_option fst (conn_send data es) =
      (if length data \<le> moved_total (\<lambda>n. n) es then Some True else None)) \<and>
    (\<forall>p out. conn_send data es = Some (True, p, out) \<longrightarrow> out = data)"
proof -
  have len: "unat (of_nat (length data) :: size_t) = length data" by (rule unat_of_nat_64 [OF assms(2)])
  have run: "map_option fst (conn_send data es) = send_run (of_nat (length data)) data es"
    by (simp add: conn_send_def send_run_def)
  show ?thesis
    using sending.run_flawless [of "of_nat (length data)" es data] send_contents [of "of_nat (length data)" es data] assms(1) run len
    by (simp add: conn_send_def)
qed

lemma send_exact_witness:
  "conn_send [1, 2, 3] [Moved 2, Timed_Out, Moved 1] = Some (True, False, [1, 2, 3])"
proof -
  have f: "fits (\<lambda>n. n) (length [1, 2, 3 :: byte]) [Moved 2, Timed_Out, Moved 1]" "length [1, 2, 3 :: byte] < 2 ^ 64"
    by simp_all
  obtain out where "conn_send [1, 2, 3] [Moved 2, Timed_Out, Moved 1] = Some (True, False, out)"
    by (simp add: conn_send_def)
  then show ?thesis using send_exact [OF f] by blast
qed

lemma recv_end_and_truncation_witness:
  "conn_recv 4 [Timed_Out, Moved [], Moved [], Timed_Out] = None \<and>
   map_option fst (conn_recv (2 ^ 31) [Moved (replicate (2 ^ 31) 0)]) = Some False"
  using recv_end_and_truncation [of 4 "[Timed_Out, Moved [], Moved [], Timed_Out]" "[]"]
    recv_end_and_truncation [of "2 ^ 31" "[]" "replicate (2 ^ 31) 0"]
  by (simp add: end_of_stream_def)

section \<open>The server loop\<close>

definition alive :: "threads \<Rightarrow> int list" where
  "alive ts = map (\<lambda>t. conn_sock (fst t)) (filter (\<lambda>t. \<not> snd t) ts)"

lemma alive_simps [simp]:
  "alive [] = []" "alive (ts @ us) = alive ts @ alive us"
  "alive ((c, False) # ts) = conn_sock c # alive ts" "alive ((c, True) # ts) = alive ts"
  by (simp_all add: alive_def)

text \<open>The server's own descriptors, and one for each thread that has not ended.\<close>

definition listen_inv :: "int set \<Rightarrow> threads \<times> fds \<Rightarrow> bool" where
  "listen_inv base x \<longleftrightarrow> open_fds (snd x) = base \<union> set (alive (fst x)) \<and> distinct (alive (fst x)) \<and>
     base \<inter> set (alive (fst x)) = {}"

lemma thread_end_inv:
  assumes "listen_inv base (ts, s)"
  shows "\<exists>ts' s'. thread_end i (ts, s) = Inr (ts', s') \<and> listen_inv base (ts', s') \<and> length ts' = length ts \<and>
    (\<forall>k < length ts. fst (ts' ! k) = fst (ts ! k) \<and> (snd (ts' ! k) \<longleftrightarrow> snd (ts ! k) \<or> k = i))"
proof (cases "i < length ts \<and> \<not> snd (ts ! i)")
  case True
  then have split: "ts = take i ts @ (fst (ts ! i), False) # drop (Suc i) ts"
    using id_take_nth_drop [of i ts] by (metis prod.collapse)
  let ?c = "fst (ts ! i)" and ?l = "take i ts" and ?r = "drop (Suc i) ts"
  have alive: "alive ts = alive ?l @ conn_sock ?c # alive ?r" by (subst split) simp
  have upd: "ts[i := (?c, True)] = ?l @ (?c, True) # ?r" using True by (simp add: upd_conv_take_nth_drop)
  have "conn_close ?c s = Inr (s\<lparr>open_fds := open_fds s - {conn_sock ?c}\<rparr>)"
    using assms by (simp add: conn_close_def close_fd_def listen_inv_def alive)
  then have "thread_end i (ts, s) = Inr (ts[i := (?c, True)], s\<lparr>open_fds := open_fds s - {conn_sock ?c}\<rparr>)"
    using True by (simp add: thread_end_def)
  moreover have "listen_inv base (ts[i := (?c, True)], s\<lparr>open_fds := open_fds s - {conn_sock ?c}\<rparr>)"
    using assms unfolding listen_inv_def by (auto simp: alive upd)
  ultimately show ?thesis using True by (auto simp: nth_list_update)
next
  case False
  then show ?thesis using assms by (auto simp: thread_end_def)
qed

lemma join_all_inv:
  assumes "listen_inv base (ts, s)"
  shows "\<exists>ts' s'. join_all n (ts, s) = Inr (ts', s') \<and> listen_inv base (ts', s') \<and> length ts' = length ts \<and>
    (\<forall>k < length ts. fst (ts' ! k) = fst (ts ! k) \<and> (snd (ts' ! k) \<longleftrightarrow> snd (ts ! k) \<or> k < n))"
proof (induction n)
  case (Suc n)
  then obtain ts' s' where 1: "join_all n (ts, s) = Inr (ts', s')" "listen_inv base (ts', s')" "length ts' = length ts"
    "\<forall>k < length ts. fst (ts' ! k) = fst (ts ! k) \<and> (snd (ts' ! k) \<longleftrightarrow> snd (ts ! k) \<or> k < n)" by blast
  from thread_end_inv [OF 1(2), of n] obtain ts'' s'' where
    "thread_end n (ts', s') = Inr (ts'', s'')" "listen_inv base (ts'', s'')" "length ts'' = length ts'"
    "\<forall>k < length ts'. fst (ts'' ! k) = fst (ts' ! k) \<and> (snd (ts'' ! k) \<longleftrightarrow> snd (ts' ! k) \<or> k = n)" by blast
  then show ?case using 1 by (auto simp: less_Suc_eq)
qed (use assms in auto)

text \<open>The kernel gives out only descriptors that are not open.\<close>

fun fresh_rounds :: "round list \<Rightarrow> threads \<times> fds \<Rightarrow> bool" where
  "fresh_rounds [] x = True"
| "fresh_rounds (r # rs) x =
     (case r of
        Shutdown \<Rightarrow> True
      | No_Client \<Rightarrow> fresh_rounds rs x
      | Client fd \<Rightarrow> fd \<notin> open_fds (snd x) \<and> fresh_rounds rs (accept_round (Some fd) x)
      | Accept_Failed \<Rightarrow> fresh_rounds rs (accept_round None x)
      | Served i \<Rightarrow> (case thread_end i x of Inl e \<Rightarrow> True | Inr x \<Rightarrow> fresh_rounds rs x))"

fun clients :: "round list \<Rightarrow> int list" where
  "clients [] = []"
| "clients (Shutdown # rs) = []"
| "clients (Client fd # rs) = fd # clients rs"
| "clients (_ # rs) = clients rs"

definition socks :: "threads \<Rightarrow> int list" where
  "socks ts = map (\<lambda>t. conn_sock (fst t)) ts"

lemma socks_same: "length ts' = length ts \<Longrightarrow> \<forall>k < length ts. fst (ts' ! k) = fst (ts ! k) \<Longrightarrow> socks ts' = socks ts"
  by (simp add: socks_def list_eq_iff_nth_eq)

lemma listen_loop_spec:
  "listen_inv base (ts, s) \<Longrightarrow> fresh_rounds rs (ts, s) \<Longrightarrow> Shutdown \<in> set rs \<Longrightarrow>
    \<exists>ts' s'. listen_loop rs (ts, s) = Some (Inr (ts', s')) \<and> open_fds s' = base \<and>
      (\<forall>t \<in> set ts'. snd t) \<and> socks ts' = socks ts @ clients rs"
proof (induction rs arbitrary: ts s)
  case (Cons r rs)
  show ?case
  proof (cases r)
    case Shutdown
    from join_all_inv [OF Cons.prems(1), of "length ts"] obtain ts' s' where
      j: "join_all (length ts) (ts, s) = Inr (ts', s')" "listen_inv base (ts', s')" "length ts' = length ts"
      "\<forall>k < length ts. fst (ts' ! k) = fst (ts ! k) \<and> (snd (ts' ! k) \<longleftrightarrow> snd (ts ! k) \<or> k < length ts)" by blast
    have all: "\<forall>t \<in> set ts'. snd t"
    proof
      fix t assume "t \<in> set ts'"
      then obtain k where "k < length ts'" "t = ts' ! k" by (auto simp: in_set_conv_nth)
      then show "snd t" using j(3,4) by simp
    qed
    then have "alive ts' = []" by (simp add: alive_def)
    then show ?thesis using j all Shutdown socks_same [of ts' ts] by (auto simp: listen_inv_def)
  next
    case (Client fd)
    then have "listen_inv base (ts @ [(\<lparr>client = False, conn_sock = fd\<rparr>, False)], s\<lparr>open_fds := insert fd (open_fds s)\<rparr>)"
      using Cons.prems by (auto simp: listen_inv_def)
    from Cons.IH [OF this] Client Cons.prems show ?thesis
      by (auto simp: accept_round_def conn_accept_def socks_def)
  next
    case (Served i)
    from thread_end_inv [OF Cons.prems(1), of i] obtain ts' s' where
      t: "thread_end i (ts, s) = Inr (ts', s')" "listen_inv base (ts', s')" "length ts' = length ts"
      "\<forall>k < length ts. fst (ts' ! k) = fst (ts ! k)" by blast
    from Cons.IH [OF t(2)] Served Cons.prems t(1) socks_same [OF t(3,4)] show ?thesis by simp
  qed (use Cons in \<open>auto simp: accept_round_def conn_accept_def\<close>)
qed simp

section \<open>Properties of sockets\<close>

text \<open>
  C33: The server serves every client and leaks no descriptor. Whatever the order in which
  clients come and callbacks return, when the shutdown flag is seen \<open>listen\<close> returns without a
  fault, there is one ended thread for each accepted connection, in the order of acceptance,
  and exactly the descriptors that were open at the start are open.
\<close>

theorem listen_serves_all:
  assumes "fresh_rounds rs ([], s)" "Shutdown \<in> set rs"
  shows "\<exists>ts s'. socket_listen False rs s = Some (Inr (ts, s')) \<and> open_fds s' = open_fds s \<and>
    (\<forall>t \<in> set ts. snd t) \<and> socks ts = clients rs"
proof -
  have "listen_inv (open_fds s) ([], s)" by (simp add: listen_inv_def)
  from listen_loop_spec [OF this assms] show ?thesis by (auto simp: socket_listen_def socks_def)
qed

lemma listen_serves_all_witness:
  "\<exists>ts s. socket_listen False [Client 4, No_Client, Client 5, Served 0, Client 4, Shutdown] \<lparr>open_fds = {3}\<rparr> = Some (Inr (ts, s)) \<and>
    open_fds s = {3} \<and> socks ts = [4, 5, 4]"
proof -
  let ?rs = "[Client 4, No_Client, Client 5, Served 0, Client 4, Shutdown]"
  have "fresh_rounds ?rs ([], \<lparr>open_fds = {3}\<rparr>)"
    by (simp add: accept_round_def conn_accept_def thread_end_def conn_close_def close_fd_def)
  from listen_serves_all [OF this] show ?thesis by auto
qed

text \<open>
  A client connection and its socket close the same descriptor. After a connect, closing
  the connection and destroying the socket closes a descriptor that is not open; and when the
  number has been given out again in between, the socket's destructor closes that other file.
\<close>

theorem client_closes_twice:
  assumes "socket_new (Some fd) s = Inr (sock, s1)" "tcp_connect sock True = Some c" "fd \<notin> open_fds s"
  shows "bind_res (conn_close c s1) (socket_destroy sock) = Inl Double_Free \<and>
    bind_res (conn_close c s1) (\<lambda>s2. bind_res (socket_new (Some fd) s2) (\<lambda>(other, s3). socket_destroy sock s3)) = Inr s"
  using assms by (auto simp: socket_new_def tcp_connect_def conn_close_def close_fd_def socket_destroy_def)

lemma client_closes_twice_witness:
  "\<exists>sock s1 c. socket_new (Some 3) \<lparr>open_fds = {0, 1, 2}\<rparr> = Inr (sock, s1) \<and> tcp_connect sock True = Some c \<and>
    bind_res (conn_close c s1) (socket_destroy sock) = Inl Double_Free"
proof -
  obtain sock s1 c where r: "socket_new (Some 3) \<lparr>open_fds = {0, 1, 2}\<rparr> = Inr (sock, s1)" "tcp_connect sock True = Some c"
    by (simp add: socket_new_def tcp_connect_def)
  then show ?thesis using client_closes_twice [OF r] by auto
qed

text \<open>
  \<open>UnixSocket::connect\<close> tries for a second whatever time-out it is given. Attempts before the
  second is over are repeated; the first that succeeds gives the connection; after the first
  failure past the second there is one last attempt. A path of 108 or more characters
  overflows the address.
\<close>

theorem unix_connect_outcome:
  assumes "\<forall>t \<in> set ts. t - start < us_per_sec"
  shows "unix_connect sock path timeout start (map (Pair False) ts @ e # es) =
    (if 108 \<le> length path then Inl Out_Of_Bounds
     else if fst e then Inr (Some (Some \<lparr>client = True, conn_sock = sock\<rparr>))
     else if snd e - start < us_per_sec then unix_connect sock path 0 start es
     else Inr (case es of [] \<Rightarrow> None
       | e' # _ \<Rightarrow> Some (if fst e' then Some \<lparr>client = True, conn_sock = sock\<rparr> else None)))"
proof -
  have "unix_connect_loop sock start (map (Pair False) ts @ es') = unix_connect_loop sock start es'" for es'
    using assms by (induction ts) auto
  then show ?thesis
    by (cases e) (auto simp: unix_connect_def unix_address_def sun_path_size_def split: list.splits)
qed

lemma unix_connect_outcome_witness:
  "unix_connect 3 ''/tmp/s'' 5 10 [(False, 10010), (False, 20010), (True, 20500)] =
     Inr (Some (Some \<lparr>client = True, conn_sock = 3\<rparr>)) \<and>
   unix_connect 3 (replicate 108 CHR ''a'') 5 10 [(True, 20)] = Inl Out_Of_Bounds"
  using unix_connect_outcome [of "[10010, 20010]" 10 3 "''/tmp/s''" 5 "(True, 20500)" "[]"]
    unix_connect_outcome [of "[]" 10 3 "replicate 108 CHR ''a''" 5 "(True, 20)" "[]"]
  by (simp add: us_per_sec_def)

end
