(* ===== verification/Socket_Link.thy ===== *)
theory Socket_Link
  imports Socket_IO
begin

text \<open>
  Two connections that talk to each other: the loops of \<open>Connection::send\<close> and \<open>Connection::recv\<close>
  (\<^verbatim>\<open>src/socket.cpp\<close>) round by round, in any interleaving of the two processes, over a stream in each direction.

  The stream is the kernel's: a queue of at most \<open>cap\<close> bytes, which \<^verbatim>\<open>send\<close> extends by some of the bytes it is given
  and from which \<^verbatim>\<open>recv\<close> takes some of the first bytes (that is the contract of a connected stream socket; \<^verbatim>\<open>poll\<close> may time out at any
  round, and may fail). What the library contributes are the loops: their variables \<open>len\<close> and \<open>data\<close> are the state of a call.
\<close>

section \<open>Calls and rounds\<close>

datatype call =
    Sending size_t "byte list"     \<comment> \<open>in \<open>send\<close>: \<open>len\<close>, and what \<open>data\<close> points to\<close>
  | Receiving size_t "byte list"   \<comment> \<open>in \<open>recv\<close>: \<open>len\<close>, and what has been stored in front of \<open>data\<close>\<close>

definition send_call :: "byte list \<Rightarrow> call" where
  "send_call xs = Sending (of_nat (length xs)) xs"

definition recv_call :: "size_t \<Rightarrow> call" where
  "recv_call len = Receiving len []"

text \<open>A process makes its calls one after the other and stops at the first one that returns false.\<close>

record peer =
  calls :: "call list"
  bufs :: "byte list list"    \<comment> \<open>the buffers of the calls of \<open>recv\<close> that have returned true\<close>
  broken :: bool

record link =
  peers :: "bool \<Rightarrow> peer"
  wire :: "bool \<Rightarrow> byte list"  \<comment> \<open>the bytes that the process has sent and the other one has not received\<close>

datatype link_event = Return bool | Round bool "nat io_event"

definition linked :: "(bool \<Rightarrow> call list) \<Rightarrow> link" where
  "linked cs = \<lparr>peers = (\<lambda>b. \<lparr>calls = cs b, bufs = [], broken = False\<rparr>), wire = (\<lambda>_. [])\<rparr>"

definition put_peer :: "bool \<Rightarrow> peer \<Rightarrow> link \<Rightarrow> link" where
  "put_peer b p s = s\<lparr>peers := (peers s)(b := p)\<rparr>"

text \<open>The loop ends when \<open>len\<close> is 0: the call returns true.\<close>

definition call_return :: "bool \<Rightarrow> link \<Rightarrow> link option" where
  "call_return b s = (let p = peers s b in
     case calls p of
       Sending len data # cs \<Rightarrow> if len = 0 then Some (put_peer b (p\<lparr>calls := cs\<rparr>) s) else None
     | Receiving len got # cs \<Rightarrow> if len = 0 then Some (put_peer b (p\<lparr>calls := cs, bufs := bufs p @ [got]\<rparr>) s) else None
     | [] \<Rightarrow> None)"

text \<open>
  A round: \<^verbatim>\<open>poll\<close>, then \<^verbatim>\<open>send\<close> or \<^verbatim>\<open>recv\<close>. \<open>None\<close> is a round that the kernel does not make: moving
  nothing, more than it was asked to, more than there is, or more than it has room for.
\<close>

definition send_round :: "nat \<Rightarrow> nat \<Rightarrow> bool \<Rightarrow> link \<Rightarrow> link option" where
  "send_round cap n b s = (let p = peers s b in
     case calls p of
       Sending len data # cs \<Rightarrow>
         if 0 < n \<and> n \<le> unat len \<and> length (wire s b) + n \<le> cap
         then Some ((put_peer b (p\<lparr>calls := Sending (len - of_nat n) (drop n data) # cs\<rparr>) s)
           \<lparr>wire := (wire s)(b := wire s b @ take n data)\<rparr>)
         else None
     | _ \<Rightarrow> None)"

definition recv_round :: "nat \<Rightarrow> bool \<Rightarrow> link \<Rightarrow> link option" where
  "recv_round n b s = (let p = peers s b in
     case calls p of
       Receiving len got # cs \<Rightarrow>
         if 0 < n \<and> n \<le> unat len \<and> n \<le> length (wire s (\<not> b))
         then Some ((if to_int n < 0 then put_peer b (p\<lparr>broken := True\<rparr>) s
           else put_peer b (p\<lparr>calls := Receiving (len - of_int (to_int n)) (got @ take n (wire s (\<not> b))) # cs\<rparr>) s)
             \<lparr>wire := (wire s)((\<not> b) := drop n (wire s (\<not> b)))\<rparr>)
         else None
     | _ \<Rightarrow> None)"

definition idle :: "peer \<Rightarrow> bool" where
  "idle p \<longleftrightarrow> broken p \<or> calls p = []"

definition link_step :: "nat \<Rightarrow> link_event \<Rightarrow> link \<Rightarrow> link option" where
  "link_step cap e s = (case e of
      Return b \<Rightarrow> if idle (peers s b) then None else call_return b s
    | Round b r \<Rightarrow> if idle (peers s b) then None else
        (case r of
           Timed_Out \<Rightarrow> Some s
         | Poll_Failed \<Rightarrow> Some (put_peer b ((peers s b)\<lparr>broken := True\<rparr>) s)
         | Io_Failed \<Rightarrow> Some (put_peer b ((peers s b)\<lparr>broken := True\<rparr>) s)
         | Moved n \<Rightarrow> (case calls (peers s b) of
              Sending _ _ # _ \<Rightarrow> send_round cap n b s
            | _ \<Rightarrow> recv_round n b s)))"

text \<open>A run skips the events that are not possible.\<close>

fun link_run :: "nat \<Rightarrow> link_event list \<Rightarrow> link \<Rightarrow> link" where
  "link_run cap [] s = s"
| "link_run cap (e # es) s = link_run cap es (case link_step cap e s of None \<Rightarrow> s | Some s' \<Rightarrow> s')"

section \<open>The stream\<close>

text \<open>What is left to send, how much each call of \<open>recv\<close> asks for, and what the current one has stored.\<close>

fun outgoing :: "call list \<Rightarrow> byte list" where
  "outgoing [] = []"
| "outgoing (Sending len data # cs) = data @ outgoing cs"
| "outgoing (Receiving len got # cs) = outgoing cs"

fun demand :: "call list \<Rightarrow> nat list" where
  "demand [] = []"
| "demand (Sending len data # cs) = demand cs"
| "demand (Receiving len got # cs) = (length got + unat len) # demand cs"

fun partial :: "call list \<Rightarrow> byte list" where
  "partial (Receiving len got # cs) = got"
| "partial cs = []"

text \<open>Calls that have not begun, and lists of calls of which at most the first has begun.\<close>

definition fresh :: "call \<Rightarrow> bool" where
  "fresh c = (case c of Sending len data \<Rightarrow> unat len = length data | Receiving len got \<Rightarrow> got = [])"

fun begun :: "call list \<Rightarrow> bool" where
  "begun [] = True"
| "begun (c # cs) = (list_all fresh cs \<and> (case c of Sending len data \<Rightarrow> unat len = length data | Receiving _ _ \<Rightarrow> True))"

lemma fresh_begun: "list_all fresh cs \<Longrightarrow> begun cs"
  by (cases cs) (auto simp: fresh_def split: call.splits)

lemma fresh_partial: "list_all fresh cs \<Longrightarrow> partial cs = []"
  by (cases cs rule: partial.cases) (auto simp: fresh_def)

definition link_inv :: "nat \<Rightarrow> (bool \<Rightarrow> call list) \<Rightarrow> link \<Rightarrow> bool" where
  "link_inv cap cs s \<longleftrightarrow> (\<forall>b. begun (calls (peers s b)) \<and> length (wire s b) \<le> cap \<and>
     concat (bufs (peers s (\<not> b))) @ partial (calls (peers s (\<not> b))) @ wire s b @ outgoing (calls (peers s b)) = outgoing (cs b) \<and>
     map length (bufs (peers s b)) @ demand (calls (peers s b)) = demand (cs b))"

lemma link_inv_linked: "(\<And>b. list_all fresh (cs b)) \<Longrightarrow> link_inv cap cs (linked cs)"
  by (simp add: link_inv_def linked_def fresh_begun fresh_partial)

lemma link_invD:
  assumes "link_inv cap cs s"
  shows "begun (calls (peers s b))" "length (wire s b) \<le> cap"
    "concat (bufs (peers s (\<not> b))) @ partial (calls (peers s (\<not> b))) @ wire s b @ outgoing (calls (peers s b)) = outgoing (cs b)"
    "map length (bufs (peers s b)) @ demand (calls (peers s b)) = demand (cs b)"
  using assms unfolding link_inv_def by blast+

text \<open>A change at the process \<open>b\<close> that keeps its own two streams and its demands.\<close>

lemma link_inv_put:
  assumes inv: "link_inv cap cs s"
    and "begun (calls p)" "length w \<le> cap" "length v \<le> cap"
    and "w @ outgoing (calls p) = wire s b @ outgoing (calls (peers s b))"
    and "concat (bufs p) @ partial (calls p) @ v =
      concat (bufs (peers s b)) @ partial (calls (peers s b)) @ wire s (\<not> b)"
    and "map length (bufs p) @ demand (calls p) = map length (bufs (peers s b)) @ demand (calls (peers s b))"
  shows "link_inv cap cs ((put_peer b p s)\<lparr>wire := (wire s)(b := w, (\<not> b) := v)\<rparr>)" (is "link_inv cap cs ?s")
  unfolding link_inv_def
proof
  fix c
  have s: "peers ?s b = p" "peers ?s (\<not> b) = peers s (\<not> b)" "wire ?s b = w" "wire ?s (\<not> b) = v"
    by (cases b; simp add: put_peer_def)+
  have "concat (bufs (peers s (\<not> b))) @ partial (calls (peers s (\<not> b))) @ w @ outgoing (calls p) = outgoing (cs b)"
    using link_invD(3) [OF inv, of b] assms(5) by simp
  moreover have "concat (bufs p) @ partial (calls p) @ v @ outgoing (calls (peers s (\<not> b))) = outgoing (cs (\<not> b))"
    using link_invD(3) [OF inv, of "\<not> b"] arg_cong [OF assms(6), of "\<lambda>xs. xs @ outgoing (calls (peers s (\<not> b)))"] by simp
  ultimately show "begun (calls (peers ?s c)) \<and> length (wire ?s c) \<le> cap \<and>
     concat (bufs (peers ?s (\<not> c))) @ partial (calls (peers ?s (\<not> c))) @ wire ?s c @ outgoing (calls (peers ?s c)) = outgoing (cs c) \<and>
     map length (bufs (peers ?s c)) @ demand (calls (peers ?s c)) = demand (cs c)"
    using s link_invD [OF inv, of b] link_invD [OF inv, of "\<not> b"] assms(2-4,7)
    by (cases "c = b"; cases b; simp)
qed

lemma put_same_wire: "put_peer b p s = (put_peer b p s)\<lparr>wire := (wire s)(b := wire s b, (\<not> b) := wire s (\<not> b))\<rparr>"
  by (simp add: put_peer_def)

lemma begun_next: "begun (c # cs) \<Longrightarrow> begun cs \<and> partial cs = []"
  by (simp add: fresh_begun fresh_partial)

lemma call_return_inv:
  assumes inv: "link_inv cap cs s" and "call_return b s = Some s'"
  shows "link_inv cap cs s'"
proof -
  obtain c rest where c: "calls (peers s b) = c # rest"
    using assms(2) by (auto simp: call_return_def Let_def split: list.splits)
  have b: "begun (c # rest)" using link_invD(1) [OF inv, of b] c by simp
  note n = begun_next [OF b] and w = link_invD(2) [OF inv]
  show ?thesis
  proof (cases c)
    case (Sending len data)
    then have s': "s' = put_peer b ((peers s b)\<lparr>calls := rest\<rparr>) s" and "len = 0"
      using assms(2) c by (auto simp: call_return_def Let_def split: if_splits)
    then have "data = []" using b Sending by simp
    then show ?thesis unfolding s' using n w c Sending
      by (subst put_same_wire) (intro link_inv_put [OF inv]; simp)
  next
    case (Receiving len got)
    then have s': "s' = put_peer b ((peers s b)\<lparr>calls := rest, bufs := bufs (peers s b) @ [got]\<rparr>) s" and "len = 0"
      using assms(2) c by (auto simp: call_return_def Let_def split: if_splits)
    then show ?thesis unfolding s' using n w c Receiving
      by (subst put_same_wire) (intro link_inv_put [OF inv]; simp)
  qed
qed

lemma other_wire [simp]: "(f :: bool \<Rightarrow> 'a)(b := w, (\<not> b) := f (\<not> b)) = f(b := w)"
  by auto

lemma unat_minus_of_nat: "n \<le> unat (len :: size_t) \<Longrightarrow> unat (len - of_nat n) = unat len - n"
  using unat_less_2_64 [of len] by (simp add: unat_sub unat_of_nat_64 word_le_nat_alt)

lemma send_round_inv:
  assumes inv: "link_inv cap cs s" and "send_round cap n b s = Some s'"
  shows "link_inv cap cs s'"
proof -
  obtain len data rest where c: "calls (peers s b) = Sending len data # rest"
    using assms(2) by (auto simp: send_round_def Let_def split: list.splits call.splits)
  then have n: "0 < n" "n \<le> unat len" "length (wire s b) + n \<le> cap"
    and s': "s' = (put_peer b ((peers s b)\<lparr>calls := Sending (len - of_nat n) (drop n data) # rest\<rparr>) s)
      \<lparr>wire := (wire s)(b := wire s b @ take n data, (\<not> b) := wire s (\<not> b))\<rparr>"
    using assms(2) by (auto simp: send_round_def Let_def split: if_splits)
  have "unat len = length data" "list_all fresh rest" using link_invD(1) [OF inv, of b] c by simp_all
  then show ?thesis unfolding s' using n c link_invD(2) [OF inv]
    by (intro link_inv_put [OF inv]) (simp_all add: unat_minus_of_nat)
qed

lemma recv_round_step:
  assumes inv: "link_inv cap cs s" and "cap < 2 ^ 31" and "recv_round n b s = Some s'"
  obtains len got rest where "calls (peers s b) = Receiving len got # rest"
    "0 < n" "n \<le> unat len" "n \<le> length (wire s (\<not> b))"
    "s' = (put_peer b ((peers s b)\<lparr>calls := Receiving (len - of_nat n) (got @ take n (wire s (\<not> b))) # rest\<rparr>) s)
      \<lparr>wire := (wire s)(b := wire s b, (\<not> b) := drop n (wire s (\<not> b)))\<rparr>"
proof -
  obtain len got rest where c: "calls (peers s b) = Receiving len got # rest"
    using assms(3) by (auto simp: recv_round_def Let_def split: list.splits call.splits)
  then have n: "0 < n" "n \<le> unat len" "n \<le> length (wire s (\<not> b))"
    using assms(3) by (auto simp: recv_round_def Let_def split: if_splits)
  then have "n < 2 ^ 31" using link_invD(2) [OF inv, of "\<not> b"] assms(2) by linarith
  then have "to_int n = int n" by (rule to_int_small)
  then show thesis using that [OF c n] assms(3) c n by (simp add: recv_round_def Let_def)
qed

lemma recv_round_inv:
  assumes inv: "link_inv cap cs s" and "cap < 2 ^ 31" and "recv_round n b s = Some s'"
  shows "link_inv cap cs s'"
proof -
  obtain len got rest where c: "calls (peers s b) = Receiving len got # rest" "n \<le> unat len" "n \<le> length (wire s (\<not> b))"
    and s': "s' = (put_peer b ((peers s b)\<lparr>calls := Receiving (len - of_nat n) (got @ take n (wire s (\<not> b))) # rest\<rparr>) s)
      \<lparr>wire := (wire s)(b := wire s b, (\<not> b) := drop n (wire s (\<not> b)))\<rparr>"
    by (rule recv_round_step [OF assms]) blast
  have "list_all fresh rest" "length (wire s (\<not> b)) - n \<le> cap"
    using link_invD(1) [OF inv, of b] link_invD(2) [OF inv, of "\<not> b"] c by simp_all
  then show ?thesis unfolding s' using c link_invD(2) [OF inv]
    by (intro link_inv_put [OF inv]) (simp_all add: unat_minus_of_nat)
qed

lemma link_inv_broken:
  assumes inv: "link_inv cap cs s"
  shows "link_inv cap cs (put_peer b ((peers s b)\<lparr>broken := True\<rparr>) s)"
  using link_invD [OF inv] by (subst put_same_wire) (intro link_inv_put [OF inv]; simp)

lemma link_step_inv:
  assumes "link_inv cap cs s" "cap < 2 ^ 31" "link_step cap e s = Some s'"
  shows "link_inv cap cs s'"
  using assms call_return_inv [OF assms(1)] send_round_inv [OF assms(1)] recv_round_inv [OF assms(1,2)] link_inv_broken [OF assms(1)]
  by (auto simp: link_step_def split: link_event.splits io_event.splits if_splits list.splits call.splits)

lemma link_run_inv:
  assumes "link_inv cap cs s" "cap < 2 ^ 31"
  shows "link_inv cap cs (link_run cap es s)"
  using assms(1)
proof (induction es arbitrary: s)
  case (Cons e es)
  show ?case
  proof (cases "link_step cap e s")
    case (Some s')
    then have "link_inv cap cs s'" by (rule link_step_inv [OF Cons.prems assms(2)])
    then show ?thesis using Cons.IH Some by simp
  qed (use Cons in simp)
qed simp

text \<open>A round here is a round of the loops of \<open>Socket_IO\<close>.\<close>

lemma send_round_loop:
  assumes "calls (peers s b) = Sending len data # cs" "send_round cap n b s = Some s'"
  shows "calls (peers s' b) = Sending (len - of_nat n) (drop n data) # cs \<and> wire s' b = wire s b @ take n data \<and>
    send_loop len data (Moved n # es) =
      map_option (\<lambda>(r, p, out). (r, p, take n data @ out)) (send_loop (len - of_nat n) (drop n data) es)"
  using assms by (auto simp: send_round_def put_peer_def Let_def split: if_splits)

lemma recv_round_loop:
  assumes "calls (peers s b) = Receiving len got # cs" "recv_round n b s = Some s'" "n < 2 ^ 31"
  shows "calls (peers s' b) = Receiving (len - of_nat n) (got @ take n (wire s (\<not> b))) # cs \<and>
    recv_loop len pos m (Moved (take n (wire s (\<not> b))) # es) =
      recv_loop (len - of_nat n) (pos + int n) (store_bytes pos (take n (wire s (\<not> b))) m) es"
proof -
  have "to_int n = int n" using assms(3) by (rule to_int_small)
  then show ?thesis using assms(1,2) by (auto simp: recv_round_def put_peer_def Let_def min_def split: if_splits)
qed

section \<open>Getting stuck\<close>

text \<open>An event that brings the calls forward, and what is left of them.\<close>

definition productive :: "link_event \<Rightarrow> bool" where
  "productive e = (case e of Return _ \<Rightarrow> True | Round _ r \<Rightarrow> (\<exists>n. r = Moved n))"

fun call_work :: "call \<Rightarrow> nat" where
  "call_work (Sending len _) = Suc (unat len)"
| "call_work (Receiving len _) = Suc (unat len)"

definition calls_work :: "link \<Rightarrow> nat" where
  "calls_work s = (\<Sum>c \<leftarrow> calls (peers s False) @ calls (peers s True). call_work c)"

lemma calls_work_put:
  assumes "(\<Sum>c \<leftarrow> calls p. call_work c) < (\<Sum>c \<leftarrow> calls (peers s b). call_work c)"
  shows "calls_work (put_peer b p s) < calls_work s"
  using assms by (cases b) (simp_all add: calls_work_def put_peer_def)

lemma calls_work_wire [simp]: "calls_work (s\<lparr>wire := w\<rparr>) = calls_work s"
  by (simp add: calls_work_def)

text \<open>Every productive event takes something off the work.\<close>

lemma productive_work:
  assumes inv: "link_inv cap cs s" "cap < 2 ^ 31" and step: "link_step cap e s = Some s'" "productive e"
  shows "calls_work s' < calls_work s"
proof (cases e)
  case (Return b)
  then have "call_return b s = Some s'" using step by (simp add: link_step_def split: if_splits)
  then show ?thesis
    by (auto simp: call_return_def Let_def intro!: calls_work_put split: list.splits call.splits if_splits)
next
  case (Round b r)
  then obtain n where "r = Moved n" using step(2) by (auto simp: productive_def)
  then have "send_round cap n b s = Some s' \<or> recv_round n b s = Some s'"
    using step(1) Round by (auto simp: link_step_def split: if_splits list.splits call.splits)
  then show ?thesis
  proof
    assume r: "send_round cap n b s = Some s'"
    then obtain len data rest where c: "calls (peers s b) = Sending len data # rest"
      by (auto simp: send_round_def Let_def split: list.splits call.splits)
    then show ?thesis using r
      by (auto simp: send_round_def Let_def unat_minus_of_nat intro!: calls_work_put split: if_splits)
  next
    assume r: "recv_round n b s = Some s'"
    obtain len got rest where c: "calls (peers s b) = Receiving len got # rest" "0 < n" "n \<le> unat len"
      and s': "s' = (put_peer b ((peers s b)\<lparr>calls := Receiving (len - of_nat n) (got @ take n (wire s (\<not> b))) # rest\<rparr>) s)
      \<lparr>wire := (wire s)(b := wire s b, (\<not> b) := drop n (wire s (\<not> b)))\<rparr>"
      by (rule recv_round_step [OF inv r]) blast
    then show ?thesis by (auto simp: unat_minus_of_nat intro!: calls_work_put)
  qed
qed

text \<open>
  What a process waits for when no event can bring it forward: room in its own stream, or bytes in the other one.
\<close>

definition waits :: "nat \<Rightarrow> bool \<Rightarrow> link \<Rightarrow> bool" where
  "waits cap b s = (case calls (peers s b) of
     [] \<Rightarrow> True
   | Sending len _ # _ \<Rightarrow> len \<noteq> 0 \<and> length (wire s b) = cap
   | Receiving len _ # _ \<Rightarrow> len \<noteq> 0 \<and> wire s (\<not> b) = [])"

lemma link_stuck_waits:
  assumes inv: "link_inv cap cs s" and "\<not> broken (peers s b)"
    and stuck: "\<And>e. productive e \<Longrightarrow> link_step cap e s = None"
  shows "waits cap b s"
proof (cases "calls (peers s b)")
  case (Cons c rest)
  have r: "call_return b s = None"
    using stuck [of "Return b"] assms(2) Cons by (simp add: productive_def link_step_def idle_def)
  have m: "link_step cap (Round b (Moved 1)) s = None" by (rule stuck) (simp add: productive_def)
  show ?thesis
  proof (cases c)
    case (Sending len data)
    then have "len \<noteq> 0" using r Cons by (auto simp: call_return_def Let_def)
    then have "1 \<le> unat len" by (metis less_one not_le unat_eq_0)
    then have "cap < length (wire s b) + 1"
      using m Cons Sending assms(2) by (auto simp: link_step_def idle_def send_round_def Let_def split: if_splits)
    then show ?thesis using link_invD(2) [OF inv, of b] Cons Sending \<open>len \<noteq> 0\<close> by (simp add: waits_def)
  next
    case (Receiving len got)
    then have "len \<noteq> 0" using r Cons by (auto simp: call_return_def Let_def)
    then have "1 \<le> unat len" by (metis less_one not_le unat_eq_0)
    then have "\<not> 1 \<le> length (wire s (\<not> b))"
      using m Cons Receiving assms(2) by (auto simp: link_step_def idle_def recv_round_def Let_def split: if_splits)
    then have "wire s (\<not> b) = []" by (cases "wire s (\<not> b)") simp_all
    then show ?thesis using Cons Receiving \<open>len \<noteq> 0\<close> by (simp add: waits_def)
  qed
qed (simp add: waits_def)

fun advances :: "nat \<Rightarrow> link_event list \<Rightarrow> link \<Rightarrow> nat" where
  "advances cap [] s = 0"
| "advances cap (e # es) s = (case link_step cap e s of None \<Rightarrow> advances cap es s
     | Some s' \<Rightarrow> (if productive e then 1 else 0) + advances cap es s')"

lemma link_step_work:
  assumes "link_inv cap cs s" "cap < 2 ^ 31" "link_step cap e s = Some s'"
  shows "calls_work s' + (if productive e then 1 else 0) \<le> calls_work s"
proof (cases "productive e")
  case False
  have "calls_work (put_peer b ((peers s b)\<lparr>broken := True\<rparr>) s) = calls_work s" for b by (cases b) (simp_all add: calls_work_def put_peer_def)
  then show ?thesis using assms(3) False
    by (auto simp: productive_def link_step_def split: link_event.splits io_event.splits if_splits)
qed (use productive_work [OF assms] in simp)

lemma advances_work:
  assumes "link_inv cap cs s" "cap < 2 ^ 31"
  shows "advances cap es s + calls_work (link_run cap es s) \<le> calls_work s"
  using assms(1)
proof (induction es arbitrary: s)
  case (Cons e es)
  show ?case
  proof (cases "link_step cap e s")
    case (Some s')
    have "advances cap es s' + calls_work (link_run cap es s') \<le> calls_work s'"
      by (rule Cons.IH [OF link_step_inv [OF Cons.prems assms(2) Some]])
    then show ?thesis using link_step_work [OF Cons.prems assms(2) Some] Some by simp
  qed (use Cons in simp)
qed simp

section \<open>Properties\<close>

text \<open>
  C18: what one process sends is what the other one receives, in order, through any number of calls on both sides and
  whatever rounds, time-outs and failures: at every moment the buffers that were filled, the one being filled, the bytes on the
  way and those not sent yet make up what the sender gave to its calls; each call of \<open>recv\<close> that returned true has filled exactly the
  length it was given. (The boundaries of the calls of \<open>send\<close> are not kept.) After at most as many productive rounds as there are calls and
  bytes in them, no round is productive any more.
\<close>

theorem stream_fifo:
  fixes es :: "link_event list" and b :: bool
  assumes "cap < 2 ^ 31" "\<And>b. list_all fresh (cs b)"
  defines "s \<equiv> link_run cap es (linked cs)"
  shows "concat (bufs (peers s (\<not> b))) @ partial (calls (peers s (\<not> b))) @ wire s b @ outgoing (calls (peers s b)) = outgoing (cs b) \<and>
    map length (bufs (peers s b)) @ demand (calls (peers s b)) = demand (cs b) \<and>
    advances cap es (linked cs) \<le> (\<Sum>c \<leftarrow> cs False @ cs True. call_work c)"
proof -
  have init: "link_inv cap cs (linked cs)" by (rule link_inv_linked [OF assms(2)])
  have inv: "link_inv cap cs s" unfolding s_def by (rule link_run_inv [OF init assms(1)])
  have "calls_work (linked cs) = (\<Sum>c \<leftarrow> cs False @ cs True. call_work c)" by (simp add: calls_work_def linked_def)
  then show ?thesis
    using link_invD(3,4) [OF inv] advances_work [OF init assms(1), of es] by simp
qed

text \<open>Two calls of \<open>send\<close>, received by calls of other lengths.\<close>

theorem stream_fifo_witness:
  "\<exists>s. s = link_run 4 [Round False (Moved 2), Round True (Moved 1), Return False, Round True Timed_Out, Round False (Moved 1)]
      (linked (\<lambda>b. if b then [recv_call 1, recv_call 2] else [send_call [7, 8], send_call [9]])) \<and>
    concat (bufs (peers s True)) @ partial (calls (peers s True)) @ wire s False @ outgoing (calls (peers s False)) = [7, 8, 9]"
proof -
  let ?cs = "\<lambda>b. if b then [recv_call 1, recv_call 2] else [send_call [7, 8], send_call [9 :: byte]]"
  have "(4 :: nat) < 2 ^ 31" "list_all fresh (?cs b)" for b
    by (simp_all add: fresh_def recv_call_def send_call_def)
  then show ?thesis
    using stream_fifo [where cap = 4 and cs = ?cs and b = False and es = "[Round False (Moved 2), Round True (Moved 1), Return False, Round True Timed_Out, Round False (Moved 1)]"]
    by (simp only: not_False_eq_True) (simp add: send_call_def)
qed

text \<open>
  The templates \<open>send(T*)\<close> and \<open>recv(T*)\<close> move an object: the \<open>sizeof(T)\<close> bytes of its representation (\<open>rep\<close>). Objects sent one after the
  other arrive as the objects they are, as long as both sides use the same type.
\<close>

definition send_object :: "('t \<Rightarrow> byte list) \<Rightarrow> 't \<Rightarrow> call" where
  "send_object rep x = Sending (of_nat (length (rep x))) (rep x)"

definition recv_object :: "size_t \<Rightarrow> call" where
  "recv_object size_of = Receiving size_of []"

lemma equal_chunks:
  assumes "map length bs = replicate n k" "\<forall>r \<in> set rs. length r = k" "n \<le> length rs" "concat bs @ xs = concat rs"
  shows "bs = take n rs"
  using assms
proof (induction n arbitrary: bs rs)
  case (Suc n)
  then obtain b bs' r rs' where c: "bs = b # bs'" "rs = r # rs'" "length b = k" "length r = k"
    by (cases bs; cases rs) auto
  then have "b = r" "concat bs' @ xs = concat rs'" using Suc.prems(4) by simp_all
  then show ?case using Suc.IH [of bs' rs'] Suc.prems c by simp
qed simp

lemma objects_arrive:
  assumes "cap < 2 ^ 31" "\<And>x. length (rep x) = unat size_of" "n \<le> length xs"
    and s: "s = link_run cap es (linked (\<lambda>b. if b then replicate n (recv_object size_of) else map (send_object rep) xs))"
    and e: "calls (peers s True) = []"
  shows "bufs (peers s True) = map rep (take n xs)"
proof -
  let ?cs = "\<lambda>b. if b then replicate n (recv_object size_of) else map (send_object rep) xs"
  have f: "list_all fresh (?cs b)" for b
    using assms(2) by (auto simp: list_all_iff fresh_def recv_object_def send_object_def)
  have inv: "link_inv cap ?cs s" unfolding s by (intro link_run_inv link_inv_linked f assms(1))
  have o: "outgoing (map (send_object rep) xs) = concat (map rep xs)" for xs :: "'a list"
    by (induction xs) (simp_all add: send_object_def)
  have d: "demand (replicate n (recv_object size_of)) = replicate n (unat size_of)" for n
    by (induction n) (simp_all add: recv_object_def)
  have "concat (bufs (peers s True)) @ wire s False @ outgoing (calls (peers s False)) = concat (map rep xs)"
    using link_invD(3) [OF inv, of False] e by (simp add: o)
  moreover have "map length (bufs (peers s True)) = replicate n (unat size_of)"
    using link_invD(4) [OF inv, of True] e by (simp add: d)
  ultimately have "bufs (peers s True) = take n (map rep xs)"
    using assms(2,3) by (intro equal_chunks [where k = "unat size_of" and xs = "wire s False @ outgoing (calls (peers s False))"]) auto
  then show ?thesis by (simp add: take_map)
qed

text \<open>Both processes send a message and then receive the other one's.\<close>

definition exchange :: "byte list \<Rightarrow> byte list \<Rightarrow> bool \<Rightarrow> call list" where
  "exchange x y b = (if b then [send_call y, recv_call (of_nat (length x))] else [send_call x, recv_call (of_nat (length y))])"

definition message :: "byte list \<Rightarrow> byte list \<Rightarrow> bool \<Rightarrow> byte list" where
  "message x y b = (if b then y else x)"

definition sends :: "call \<Rightarrow> bool" where
  "sends c = (case c of Sending _ _ \<Rightarrow> True | Receiving _ _ \<Rightarrow> False)"

lemma link_step_kinds:
  assumes "link_step cap e s = Some s'"
  shows "map sends (calls (peers s' b)) = map sends (calls (peers s b)) \<or>
    map sends (calls (peers s' b)) = tl (map sends (calls (peers s b)))"
  using assms
  by (auto simp: link_step_def call_return_def send_round_def recv_round_def Let_def put_peer_def sends_def
      split: link_event.splits io_event.splits if_splits list.splits call.splits)

lemma link_run_kinds:
  assumes "map sends (calls (peers s b)) \<in> {[True, False], [False], []}"
  shows "map sends (calls (peers (link_run cap es s) b)) \<in> {[True, False], [False], []}"
  using assms
proof (induction es arbitrary: s)
  case (Cons e es)
  show ?case
  proof (cases "link_step cap e s")
    case (Some s')
    have "map sends (calls (peers s' b)) \<in> {[True, False], [False], []}"
      using link_step_kinds [OF Some, of b] Cons.prems by (elim disjE) auto
    then show ?thesis using Cons.IH Some by simp
  qed (use Cons in simp)
qed simp

lemma exchange_fresh:
  assumes "length x < 2 ^ 64" "length y < 2 ^ 64"
  shows "list_all fresh (exchange x y b)" "outgoing (exchange x y b) = message x y b"
    "demand (exchange x y b) = [length (message x y (\<not> b))]" "map sends (exchange x y b) = [True, False]"
  using assms by (simp_all add: exchange_def message_def fresh_def send_call_def recv_call_def sends_def unat_of_nat_64)

lemma exchange_inv:
  assumes "length x < 2 ^ 64" "length y < 2 ^ 64" "cap < 2 ^ 31"
  shows "link_inv cap (exchange x y) (link_run cap es (linked (exchange x y)))"
    "map sends (calls (peers (link_run cap es (linked (exchange x y))) b)) \<in> {[True, False], [False], []}"
proof -
  show "link_inv cap (exchange x y) (link_run cap es (linked (exchange x y)))"
    by (intro link_run_inv link_inv_linked exchange_fresh(1) assms)
  show "map sends (calls (peers (link_run cap es (linked (exchange x y))) b)) \<in> {[True, False], [False], []}"
    using exchange_fresh(4) [OF assms(1,2), of b] by (intro link_run_kinds) (simp add: linked_def)
qed

text \<open>A process of the exchange sends, receives, or has ended.\<close>

lemma exchange_cases [consumes 3, case_names sending receiving ended]:
  assumes "length x < 2 ^ 64" "length y < 2 ^ 64"
    and inv: "link_inv cap (exchange x y) s" "map sends (calls (peers s b)) \<in> {[True, False], [False], []}"
  obtains len data rest where "calls (peers s b) = Sending len data # rest" "outgoing (calls (peers s b)) = data"
      "unat len = length data" "bufs (peers s b) = []" "partial (calls (peers s b)) = []"
  | len got where "calls (peers s b) = [Receiving len got]" "outgoing (calls (peers s b)) = []"
      "partial (calls (peers s b)) = got" "length got + unat len = length (message x y (\<not> b))" "bufs (peers s b) = []"
  | xs where "calls (peers s b) = []" "outgoing (calls (peers s b)) = []" "partial (calls (peers s b)) = []"
      "bufs (peers s b) = [xs]" "length xs = length (message x y (\<not> b))"
proof -
  have d: "map length (bufs (peers s b)) @ demand (calls (peers s b)) = [length (message x y (\<not> b))]"
    using link_invD(4) [OF inv(1), of b] exchange_fresh(3) [OF assms(1,2), of b] by simp
  have g: "begun (calls (peers s b))" by (rule link_invD(1) [OF inv(1)])
  consider (s) c d where "calls (peers s b) = [c, d]" "sends c" "\<not> sends d"
    | (r) c where "calls (peers s b) = [c]" "\<not> sends c" | (e) "calls (peers s b) = []"
    using inv(2) by (auto simp: map_eq_Cons_conv)
  then show thesis
  proof cases
    case s
    then obtain len data len' got' where "calls (peers s b) = [Sending len data, Receiving len' got']"
      by (auto simp: sends_def split: call.splits)
    then show thesis using that(1) d g by (auto simp: append_eq_Cons_conv)
  next
    case r
    then obtain len got where "calls (peers s b) = [Receiving len got]" by (auto simp: sends_def split: call.splits)
    then show thesis using that(2) d by (auto simp: append_eq_Cons_conv)
  next
    case e
    then obtain xs where "bufs (peers s b) = [xs]" "length xs = length (message x y (\<not> b))" using d by auto
    then show thesis using that(3) e by simp
  qed
qed

text \<open>When nobody can move, a process that still sends has more to send than the stream holds.\<close>

lemma exchange_waits:
  assumes "length x < 2 ^ 64" "length y < 2 ^ 64" "0 < cap"
    and inv: "link_inv cap (exchange x y) s" "\<And>b. map sends (calls (peers s b)) \<in> {[True, False], [False], []}"
    and w: "\<And>b. waits cap b s"
  shows "calls (peers s b) = [] \<or> (\<exists>len data rest. calls (peers s b) = Sending len data # rest) \<and>
    (\<exists>len data rest. calls (peers s (\<not> b)) = Sending len data # rest) \<and> cap < length (message x y b)"
proof -
  have flow: "concat (bufs (peers s (\<not> c))) @ partial (calls (peers s (\<not> c))) @ wire s c @ outgoing (calls (peers s c)) = message x y c" for c
    using link_invD(3) [OF inv(1), of c] exchange_fresh(2) [OF assms(1,2), of c] by simp
  note other = exchange_cases [OF assms(1,2) inv(1) inv(2) [of "\<not> b"]]
  show ?thesis
  proof (rule exchange_cases [OF assms(1,2) inv(1) inv(2) [of b]])
    fix len data rest
    assume s: "calls (peers s b) = Sending len data # rest" "outgoing (calls (peers s b)) = data" "unat len = length data"
    have f: "len \<noteq> 0" "length (wire s b) = cap" using w [of b] s(1) by (simp_all add: waits_def)
    then have "data \<noteq> []" using s(3) by (auto simp: unat_eq_0)
    show ?thesis
    proof (rule other)
      fix len' data' rest'
      assume "calls (peers s (\<not> b)) = Sending len' data' # rest'"
      moreover have "cap < length (message x y b)"
        using flow [of b, symmetric] s(2) f(2) \<open>data \<noteq> []\<close> by simp
      ultimately show ?thesis using s(1) by blast
    next
      fix len' got' assume "calls (peers s (\<not> b)) = [Receiving len' got']"
      then have "wire s b = []" using w [of "\<not> b"] by (simp add: waits_def)
      then show ?thesis using f(2) assms(3) by simp
    next
      fix xs assume "bufs (peers s (\<not> b)) = [xs]" "length xs = length (message x y (\<not> (\<not> b)))"
      then have "wire s b = []" using arg_cong [OF flow [of b], of length] by simp
      then show ?thesis using f(2) assms(3) by simp
    qed
  next
    fix len got
    assume r: "calls (peers s b) = [Receiving len got]" "partial (calls (peers s b)) = got"
      "length got + unat len = length (message x y (\<not> b))" "bufs (peers s b) = []"
    have f: "len \<noteq> 0" "wire s (\<not> b) = []" using w [of b] r(1) by (simp_all add: waits_def)
    have l: "got @ outgoing (calls (peers s (\<not> b))) = message x y (\<not> b)" using flow [of "\<not> b"] r(2,4) f(2) by simp
    have "outgoing (calls (peers s (\<not> b))) \<noteq> []"
      using l r(3) f(1) by (metis add_cancel_left_right append_Nil2 unat_eq_0)
    then have "\<exists>len' data' rest'. calls (peers s (\<not> b)) = Sending len' data' # rest'" by (rule_tac other) auto
    then show ?thesis using w [of "\<not> b"] f(2) assms(3) by (auto simp: waits_def)
  qed simp
qed

lemma exchange_done:
  assumes "length x < 2 ^ 64" "length y < 2 ^ 64" "cap < 2 ^ 31"
    and s: "s = link_run cap es (linked (exchange x y))" and e: "\<And>b. calls (peers s b) = []"
  shows "bufs (peers s (\<not> b)) = [message x y b]"
proof -
  have inv: "link_inv cap (exchange x y) s" unfolding s by (rule exchange_inv(1) [OF assms(1-3)])
  have "concat (bufs (peers s (\<not> b))) @ wire s b = message x y b"
    using link_invD(3) [OF inv, of b] exchange_fresh(2) [OF assms(1,2), of b] e by simp
  moreover have "map length (bufs (peers s (\<not> b))) = [length (message x y b)]"
    using link_invD(4) [OF inv, of "\<not> b"] exchange_fresh(3) [OF assms(1,2), of "\<not> b"] e by simp
  ultimately obtain z where z: "bufs (peers s (\<not> b)) = [z]" "z @ wire s b = message x y b" "length z = length (message x y b)"
    by auto
  have "length (z @ wire s b) = length (message x y b)" using z(2) by simp
  then have "wire s b = []" using z(3) by simp
  then show ?thesis using z by simp
qed

text \<open>Both streams full, both processes in \<open>send\<close>.\<close>

lemma exchange_jams:
  assumes "length x < 2 ^ 64" "length y < 2 ^ 64" "0 < cap" "cap < length x" "cap < length y"
  defines "s \<equiv> link_run cap [Round False (Moved cap), Round True (Moved cap)] (linked (exchange x y))"
  shows "\<not> broken (peers s b)" "calls (peers s b) \<noteq> []" "productive e \<Longrightarrow> link_step cap e s = None"
proof -
  have l: "unat (of_nat (length x) :: size_t) = length x" "unat (of_nat (length y) :: size_t) = length y"
    using assms(1,2) by (simp_all add: unat_of_nat_64)
  have s: "s = \<lparr>peers = (\<lambda>b. \<lparr>calls = (if b then [Sending (of_nat (length y) - of_nat cap) (drop cap y), recv_call (of_nat (length x))]
        else [Sending (of_nat (length x) - of_nat cap) (drop cap x), recv_call (of_nat (length y))]), bufs = [], broken = False\<rparr>),
      wire = (\<lambda>b. take cap (message x y b))\<rparr>"
    using assms(3-5) l unfolding s_def
    by (auto simp: linked_def exchange_def link_step_def idle_def send_round_def Let_def send_call_def put_peer_def message_def
        intro!: ext)
  then show "\<not> broken (peers s b)" "calls (peers s b) \<noteq> []" by auto
  have w: "of_nat (length x) - of_nat cap \<noteq> (0 :: size_t)" "of_nat (length y) - of_nat cap \<noteq> (0 :: size_t)"
    using assms(4,5) l assms(1,2) unat_of_nat_64 [of cap] by auto
  have "length (wire s b) = cap" for b using assms(4,5) s by (simp add: message_def)
  then show "link_step cap e s = None" if "productive e"
    using that w s
    by (auto simp: productive_def link_step_def idle_def call_return_def send_round_def Let_def split: link_event.splits)
qed

text \<open>
  C19: two processes that both send before they receive. When one of the messages fits into the kernel's buffer, the
  exchange never gets stuck: a state in which no productive event is possible (and no call failed) is the end, both processes have the
  other's message, and at most as many productive events happen as there are bytes to send and to receive, and calls. When
  both messages are longer, there is a run into a state in which both processes poll in \<open>send\<close> for ever.
\<close>

theorem exchange_completes:
  assumes "length x < 2 ^ 64" "length y < 2 ^ 64" "0 < cap" "cap < 2 ^ 31"
  shows "(length x \<le> cap \<or> length y \<le> cap \<longrightarrow> (\<forall>es s. s = link_run cap es (linked (exchange x y)) \<and>
      (\<forall>b. \<not> broken (peers s b)) \<and> (\<forall>e. productive e \<longrightarrow> link_step cap e s = None) \<longrightarrow>
      (\<forall>b. calls (peers s b) = []) \<and> bufs (peers s False) = [y] \<and> bufs (peers s True) = [x])) \<and>
    (\<forall>es. advances cap es (linked (exchange x y)) \<le> 2 * (length x + length y) + 4) \<and>
    (cap < length x \<and> cap < length y \<longrightarrow> (\<exists>es s. s = link_run cap es (linked (exchange x y)) \<and>
      (\<forall>b. \<not> broken (peers s b)) \<and> (\<forall>e. productive e \<longrightarrow> link_step cap e s = None) \<and> (\<forall>b. calls (peers s b) \<noteq> [])))"
proof (intro conjI impI)
  assume fits: "length x \<le> cap \<or> length y \<le> cap"
  show "\<forall>es s. s = link_run cap es (linked (exchange x y)) \<and>
      (\<forall>b. \<not> broken (peers s b)) \<and> (\<forall>e. productive e \<longrightarrow> link_step cap e s = None) \<longrightarrow>
      (\<forall>b. calls (peers s b) = []) \<and> bufs (peers s False) = [y] \<and> bufs (peers s True) = [x]"
  proof (intro allI impI, elim conjE)
    fix es s assume s: "s = link_run cap es (linked (exchange x y))"
      and u: "\<forall>b. \<not> broken (peers s b)" and stuck: "\<forall>e. productive e \<longrightarrow> link_step cap e s = None"
    note inv = exchange_inv [OF assms(1,2,4), of es, folded s]
    have w: "waits cap b s" for b using link_stuck_waits [OF inv(1)] u stuck by blast
    have e: "calls (peers s b) = []" for b
    proof (rule ccontr)
      assume c: "calls (peers s b) \<noteq> []"
      then have "cap < length (message x y b)" "calls (peers s (\<not> b)) \<noteq> []"
        using exchange_waits [OF assms(1-3) inv w, of b] by auto
      moreover from this(2) have "cap < length (message x y (\<not> b))"
        using exchange_waits [OF assms(1-3) inv w, of "\<not> b"] by auto
      ultimately show False using fits by (cases b) (auto simp: message_def)
    qed
    show "(\<forall>b. calls (peers s b) = []) \<and> bufs (peers s False) = [y] \<and> bufs (peers s True) = [x]"
      using e exchange_done [OF assms(1,2,4) s e, of True] exchange_done [OF assms(1,2,4) s e, of False]
      by (simp add: message_def)
  qed
next
  show "\<forall>es. advances cap es (linked (exchange x y)) \<le> 2 * (length x + length y) + 4"
  proof
    fix es
    have "calls_work (linked (exchange x y)) = 2 * (length x + length y) + 4"
      using assms(1,2) by (simp add: calls_work_def linked_def exchange_def send_call_def recv_call_def unat_of_nat_64)
    moreover have "link_inv cap (exchange x y) (linked (exchange x y))"
      by (intro link_inv_linked exchange_fresh(1) assms(1,2))
    ultimately show "advances cap es (linked (exchange x y)) \<le> 2 * (length x + length y) + 4"
      using advances_work [OF _ assms(4), of "exchange x y" "linked (exchange x y)" es] by linarith
  qed
next
  assume "cap < length x \<and> cap < length y"
  then have j: "cap < length x" "cap < length y" by simp_all
  show "\<exists>es s. s = link_run cap es (linked (exchange x y)) \<and>
      (\<forall>b. \<not> broken (peers s b)) \<and> (\<forall>e. productive e \<longrightarrow> link_step cap e s = None) \<and> (\<forall>b. calls (peers s b) \<noteq> [])"
    using exchange_jams [OF assms(1-3) j] by blast
qed

theorem exchange_completes_witness:
  "(\<exists>es s. s = link_run 2 es (linked (exchange [7, 8, 9] [5, 6, 7])) \<and> (\<forall>b. calls (peers s b) \<noteq> [])) \<and>
    advances 2 [Round False (Moved 2), Return True] (linked (exchange [7, 8, 9] [5, 6, 7])) \<le> 2 * (3 + 3) + 4"
proof -
  have h: "length [7, 8, 9 :: byte] < 2 ^ 64" "length [5, 6, 7 :: byte] < 2 ^ 64" "(0 :: nat) < 2" "(2 :: nat) < 2 ^ 31" by simp_all
  have l: "length [7, 8, 9 :: byte] = 3" "length [5, 6, 7 :: byte] = 3" by simp_all
  have j: "(2 :: nat) < 3 \<and> (2 :: nat) < 3" by simp
  note all = exchange_completes [OF h, unfolded l]
  show ?thesis
    using mp [OF all [THEN conjunct2, THEN conjunct2] j] spec [OF all [THEN conjunct2, THEN conjunct1]] by blast
qed

end
