(* ===== verification/Socket_Signal.thy ===== *)
theory Socket_Signal
  imports Socket_IO
begin

text \<open>
  \<^verbatim>\<open>SIGPIPE\<close> and \<open>Socket::listen\<close> of \<^verbatim>\<open>src/socket.cpp\<close>. A \<^verbatim>\<open>send\<close> on a connection whose other end is closed
  raises the signal, which kills a process that has no handler for it; with one, \<^verbatim>\<open>send\<close> returns -1. While
  it runs, \<open>listen\<close> replaces the handler of the process by one that does nothing, and it puts the old one back, which it
  keeps in a local variable. The handler is one for all threads, and several sockets may listen at a time.

  Also \<open>Connection::try_recv\<close>, which is one call of \<^verbatim>\<open>recv\<close>.
\<close>

section \<open>The handler\<close>

datatype pipe_handler =
    Pipe_Default      \<comment> \<open>\<^verbatim>\<open>SIG_DFL\<close>, which kills\<close>
  | Pipe_Other        \<comment> \<open>\<^verbatim>\<open>SIG_IGN\<close>, or a handler of the program that returns\<close>
  | Handle_Pipe       \<comment> \<open>\<open>handle_SIGPIPE\<close>\<close>

text \<open>The process: its handler, the local variable \<open>handle\<close> of each running \<open>listen\<close>, what \<open>send\<close> returned.\<close>

record pipes =
  pipe_handler :: pipe_handler
  old_handler :: "nat \<rightharpoonup> pipe_handler"
  sent :: "bool list"
  killed :: bool

definition pipes_new :: "pipe_handler \<Rightarrow> pipes" where
  "pipes_new d = \<lparr>pipe_handler = d, old_handler = Map.empty, sent = [], killed = False\<rparr>"

definition listen_begin :: "nat \<Rightarrow> pipes \<Rightarrow> pipes" where
  "listen_begin k s = s\<lparr>old_handler := (old_handler s)(k \<mapsto> pipe_handler s), pipe_handler := Handle_Pipe\<rparr>"

definition listen_end :: "nat \<Rightarrow> pipes \<Rightarrow> pipes" where
  "listen_end k s = (case old_handler s k of None \<Rightarrow> s
     | Some d \<Rightarrow> s\<lparr>pipe_handler := d, old_handler := (old_handler s)(k := None)\<rparr>)"

text \<open>\<open>Connection::send\<close> on a connection that the other end has closed; with nothing to send it makes no call.\<close>

definition no_bytes :: "byte list \<Rightarrow> bool" where
  "no_bytes data \<longleftrightarrow> of_nat (length data) = (0 :: size_t)"

definition send_closed :: "byte list \<Rightarrow> pipes \<Rightarrow> pipes" where
  "send_closed data s =
     (if \<not> no_bytes data \<and> pipe_handler s = Pipe_Default then s\<lparr>killed := True\<rparr>
      else case conn_send data [Io_Failed] of
        None \<Rightarrow> s
      | Some (r, _) \<Rightarrow> s\<lparr>sent := sent s @ [r]\<rparr>)"

datatype sigpipe_event = Listen nat | Stop nat | Send_Closed "byte list"

fun pipe_step :: "sigpipe_event \<Rightarrow> pipes \<Rightarrow> pipes" where
  "pipe_step (Listen k) s = listen_begin k s"
| "pipe_step (Stop k) s = listen_end k s"
| "pipe_step (Send_Closed data) s = send_closed data s"

fun pipe_run :: "sigpipe_event list \<Rightarrow> pipes \<Rightarrow> pipes" where
  "pipe_run [] s = s"
| "pipe_run (e # es) s = (if killed s then s else pipe_run es (pipe_step e s))"

section \<open>Calls that nest\<close>

text \<open>The calls of \<open>listen\<close> that run after the events, the last one first; \<open>None\<close> when they do not nest.\<close>

fun nesting :: "nat list \<Rightarrow> sigpipe_event list \<Rightarrow> nat list option" where
  "nesting ks [] = Some ks"
| "nesting ks (Listen k # es) = (if k \<in> set ks then None else nesting (k # ks) es)"
| "nesting ks (Stop k # es) = (case ks of [] \<Rightarrow> None | j # js \<Rightarrow> if j = k then nesting js es else None)"
| "nesting ks (Send_Closed data # es) = nesting ks es"

fun sends_inside :: "nat list \<Rightarrow> sigpipe_event list \<Rightarrow> bool" where
  "sends_inside ks [] = True"
| "sends_inside ks (Listen k # es) = sends_inside (k # ks) es"
| "sends_inside ks (Stop k # es) = sends_inside (tl ks) es"
| "sends_inside ks (Send_Closed data # es) = ((ks = [] \<longrightarrow> no_bytes data) \<and> sends_inside ks es)"

fun closed_sends :: "sigpipe_event list \<Rightarrow> byte list list" where
  "closed_sends [] = []"
| "closed_sends (Send_Closed data # es) = data # closed_sends es"
| "closed_sends (_ # es) = closed_sends es"

definition current :: "pipe_handler \<Rightarrow> nat list \<Rightarrow> pipe_handler" where
  "current d ks = (if ks = [] then d else Handle_Pipe)"

fun olds :: "pipe_handler \<Rightarrow> nat list \<Rightarrow> nat \<rightharpoonup> pipe_handler" where
  "olds d [] = Map.empty"
| "olds d (k # ks) = (olds d ks)(k \<mapsto> current d ks)"

lemma olds_None: "k \<notin> set ks \<Longrightarrow> olds d ks k = None"
  by (induction ks) auto

definition stacked :: "pipe_handler \<Rightarrow> nat list \<Rightarrow> pipes \<Rightarrow> bool" where
  "stacked d ks s \<longleftrightarrow> distinct ks \<and> old_handler s = olds d ks \<and> pipe_handler s = current d ks \<and> \<not> killed s"

lemma stacked_begin: "stacked d ks s \<Longrightarrow> k \<notin> set ks \<Longrightarrow> stacked d (k # ks) (listen_begin k s)"
  by (simp add: stacked_def listen_begin_def current_def)

lemma stacked_end:
  assumes "stacked d (k # ks) s"
  shows "stacked d ks (listen_end k s)"
proof -
  have "(olds d ks)(k := None) = olds d ks" using assms olds_None [of k ks d] by (auto simp: stacked_def)
  then show ?thesis using assms by (simp add: stacked_def listen_end_def)
qed

lemma sent_listen [simp]: "sent (listen_begin k s) = sent s" "sent (listen_end k s) = sent s"
  by (simp_all add: listen_begin_def listen_end_def split: option.splits)

lemma send_closed_spec:
  assumes "\<not> killed s"
  shows "send_closed data s = (if \<not> no_bytes data \<and> pipe_handler s = Pipe_Default then s\<lparr>killed := True\<rparr>
    else s\<lparr>sent := sent s @ [no_bytes data]\<rparr>)"
  by (simp add: send_closed_def conn_send_def no_bytes_def)

lemma pipe_run_killed: "killed s \<Longrightarrow> pipe_run es s = s"
  by (cases es) simp_all

lemma pipe_run_nested:
  assumes "stacked d ks s" "nesting ks es = Some js"
  shows "if d = Pipe_Default \<and> \<not> sends_inside ks es then killed (pipe_run es s)
    else stacked d js (pipe_run es s) \<and> sent (pipe_run es s) = sent s @ map no_bytes (closed_sends es)"
  using assms
proof (induction es arbitrary: ks s)
  case (Cons e es)
  have alive: "\<not> killed s" "pipe_handler s = current d ks" using Cons.prems(1) by (simp_all add: stacked_def)
  show ?case
  proof (cases e)
    case (Listen k)
    then have "k \<notin> set ks" "nesting (k # ks) es = Some js" using Cons.prems(2) by (simp_all split: if_splits)
    then show ?thesis using Cons.IH [OF stacked_begin [OF Cons.prems(1)]] alive Listen by simp
  next
    case (Stop k)
    then obtain ls where ls: "ks = k # ls" "nesting ls es = Some js" using Cons.prems(2) by (auto split: list.splits if_splits)
    have "stacked d (k # ls) s" using Cons.prems(1) ls(1) by simp
    then have "stacked d ls (listen_end k s)" by (rule stacked_end)
    from Cons.IH [OF this ls(2)] show ?thesis using alive Stop ls(1) by simp
  next
    case (Send_Closed data)
    show ?thesis
    proof (cases "ks = [] \<and> \<not> no_bytes data \<and> d = Pipe_Default")
      case True
      then show ?thesis using Send_Closed alive by (simp add: send_closed_spec pipe_run_killed current_def)
    next
      case False
      then have "send_closed data s = s\<lparr>sent := sent s @ [no_bytes data]\<rparr>"
        using alive by (auto simp: send_closed_spec current_def)
      moreover have "stacked d ks (s\<lparr>sent := sent s @ [no_bytes data]\<rparr>)" using Cons.prems(1) by (simp add: stacked_def)
      ultimately show ?thesis
        using Cons.IH [of ks "s\<lparr>sent := sent s @ [no_bytes data]\<rparr>"] Cons.prems(2) False alive Send_Closed by auto
    qed
  qed
qed simp

section \<open>One call of recv\<close>

text \<open>The kernel gives -1 or bytes; \<open>ssize_t\<close> holds their number.\<close>

definition try_recv :: "byte list option \<Rightarrow> int \<times> (int \<rightharpoonup> byte)" where
  "try_recv r = (case r of None \<Rightarrow> (- 1, Map.empty)
     | Some bs \<Rightarrow> (sint (of_nat (length bs) :: 64 word), store_bytes 0 bs Map.empty))"

text \<open>What \<open>recv\<close> does with the same transfer: it returns when the buffer is full, and goes on when it is not.\<close>

lemma try_recv_once:
  assumes "length bs \<le> unat len" "unat len < 2 ^ 31" "0 < len"
  shows "fst (try_recv (Some bs)) = int (length bs)"
    and "conn_recv len [Moved bs] = (if length bs = unat len then Some (True, snd (try_recv (Some bs))) else None)"
proof -
  have n: "length bs < 2 ^ 31" using assms by simp
  then show "fst (try_recv (Some bs)) = int (length bs)"
    by (simp add: try_recv_def signed_of_nat signed_take_bit_int_eq_self)
  have "len = of_nat (length bs) \<longleftrightarrow> length bs = unat len"
    using n by (auto simp: word_unat_eq_iff unat_of_nat take_bit_nat_eq_self)
  then show "conn_recv len [Moved bs] = (if length bs = unat len then Some (True, snd (try_recv (Some bs))) else None)"
    using assms(3) n word_gt_0 [of len] by (simp add: conn_recv_def to_int_small Let_def try_recv_def)
qed

section \<open>Property\<close>

text \<open>
  C34: \<^verbatim>\<open>SIGPIPE\<close>. When the calls of \<open>listen\<close> nest, a process is killed by a \<open>send\<close> on a closed connection exactly when it had
  no handler of its own and sends outside of every \<open>listen\<close>; otherwise each such \<open>send\<close> that has bytes to send returns false, and
  when all calls have returned the process has its own handler again. When two calls overlap without nesting, the first one that
  returns takes the handler from the other, whose clients can then kill the process, and after both the handler of the
  process is not its own.
\<close>

theorem sigpipe_handler:
  assumes "nesting [] es = Some ks"
  shows "(killed (pipe_run es (pipes_new d)) \<longleftrightarrow> d = Pipe_Default \<and> \<not> sends_inside [] es) \<and>
    (\<not> killed (pipe_run es (pipes_new d)) \<longrightarrow>
      sent (pipe_run es (pipes_new d)) = map no_bytes (closed_sends es) \<and>
      pipe_handler (pipe_run es (pipes_new d)) = (if ks = [] then d else Handle_Pipe)) \<and>
    (\<not> no_bytes data \<longrightarrow> killed (pipe_run [Listen 0, Listen 1, Stop 0, Send_Closed data] (pipes_new Pipe_Default))) \<and>
    pipe_handler (pipe_run [Listen 0, Listen 1, Stop 0, Stop 1] (pipes_new d)) = Handle_Pipe"
proof (intro conjI impI)
  have "stacked d [] (pipes_new d)" by (simp add: stacked_def pipes_new_def current_def)
  note run = pipe_run_nested [OF this assms]
  show "killed (pipe_run es (pipes_new d)) \<longleftrightarrow> d = Pipe_Default \<and> \<not> sends_inside [] es"
    using run by (auto simp: stacked_def split: if_splits)
  show "sent (pipe_run es (pipes_new d)) = map no_bytes (closed_sends es)" if "\<not> killed (pipe_run es (pipes_new d))"
    using run that by (auto simp: pipes_new_def split: if_splits)
  show "pipe_handler (pipe_run es (pipes_new d)) = (if ks = [] then d else Handle_Pipe)"
    if "\<not> killed (pipe_run es (pipes_new d))"
    using run that by (auto simp: stacked_def current_def split: if_splits)
  show "killed (pipe_run [Listen 0, Listen 1, Stop 0, Send_Closed data] (pipes_new Pipe_Default))" if "\<not> no_bytes data"
    using that by (simp add: pipes_new_def listen_begin_def listen_end_def send_closed_def)
  show "pipe_handler (pipe_run [Listen 0, Listen 1, Stop 0, Stop 1] (pipes_new d)) = Handle_Pipe"
    by (simp add: pipes_new_def listen_begin_def listen_end_def)
qed

theorem sigpipe_handler_witness:
  "\<not> killed (pipe_run [Listen 3, Send_Closed [7], Listen 4, Stop 4, Send_Closed [8], Stop 3] (pipes_new Pipe_Default)) \<and>
    killed (pipe_run [Listen 3, Stop 3, Send_Closed [7]] (pipes_new Pipe_Default))"
proof -
  have "nesting [] [Listen 3, Send_Closed [7], Listen 4, Stop 4, Send_Closed [8], Stop 3] = Some []"
    "nesting [] [Listen 3, Stop 3, Send_Closed [7]] = Some []" by simp_all
  note t = this [THEN sigpipe_handler, THEN conjunct1, of Pipe_Default]
  show ?thesis unfolding t by (simp add: no_bytes_def)
qed

end
