(* ===== verification/Macros.thy ===== *)
theory Macros
  imports Prelude
begin

text \<open>
  The macros of \<^verbatim>\<open>src/macro.h\<close>. Preprocessor text is a list of tokens; a macro argument is text
  without a comma outside parentheses. An expansion that is not a macro call with the right
  number of arguments has no value (\<open>None\<close>). The arguments are the text after their own expansion.

  The families \<^verbatim>\<open>MAP_REDUCE_n\<close> and \<^verbatim>\<open>REPEAT_n\<close> are defined in the source for \<open>n\<close> up to 43, one
  \<^verbatim>\<open>#define\<close> each; here \<open>n\<close> is an argument and the bound is a test. The loop macros are the loops
  they expand to.
\<close>

section \<open>Text\<close>

datatype token = Word string | Comma | Semicolon | Equals

type_synonym mtext = "token list"

definition identity :: "mtext \<Rightarrow> mtext" where "identity a = a"
definition reverse_reduce :: "mtext \<Rightarrow> mtext \<Rightarrow> mtext" where "reverse_reduce a b = b @ [Comma] @ a"
definition comma_separate :: "mtext \<Rightarrow> mtext \<Rightarrow> mtext" where "comma_separate a b = a @ [Comma] @ b"
definition space_separate :: "mtext \<Rightarrow> mtext \<Rightarrow> mtext" where "space_separate a b = a @ b"
definition semicolon_separate :: "mtext \<Rightarrow> mtext \<Rightarrow> mtext" where "semicolon_separate a b = a @ [Semicolon] @ b"
definition equals_separate :: "mtext \<Rightarrow> mtext \<Rightarrow> mtext" where "equals_separate a b = a @ [Equals] @ b"

text \<open>
  \<^verbatim>\<open>REST(a, b)\<close> as the reducing macro: \<open>b\<close> is expanded before \<^verbatim>\<open>REST_\<close> sees it and may contain
  commas, and \<^verbatim>\<open>REST_\<close> returns all that follows its first argument.
\<close>

definition rest :: "mtext \<Rightarrow> mtext \<Rightarrow> mtext" where "rest a b = b"

section \<open>Counting arguments\<close>

text \<open>What \<^verbatim>\<open>ARG_45\<close> picks: a number or a word of the table, or one of the caller's own arguments.\<close>

datatype picked = Number nat | Yes | No | Own mtext | Dummy

text \<open>A call with nothing between its parentheses has no arguments: an only argument that is empty does not count.\<close>

definition given_args :: "mtext list \<Rightarrow> mtext list" where
  "given_args as = (if as = [[]] then [] else as)"

definition arg_45 :: "picked list \<Rightarrow> picked" where
  "arg_45 xs = xs ! 44"

definition num_args :: "mtext list \<Rightarrow> picked" where
  "num_args as = arg_45 (Dummy # map Own (given_args as) @ map Number (rev [0..<44]))"

definition has_args :: "mtext list \<Rightarrow> picked" where
  "has_args as = arg_45 (Dummy # map Own (given_args as) @ replicate 43 Yes @ [No])"

text \<open>
  What is picked is pasted to the name of a macro. When it is one of the caller's own arguments, this gives a macro of the family only when the
  argument is one word, the number or answer that the macro has in its name.
\<close>

definition number_word :: "nat \<Rightarrow> string" where
  "number_word n = (if n < 10 then [char_of (48 + n)] else [char_of (48 + n div 10), char_of (48 + n mod 10)])"

definition spelled_number :: "string \<Rightarrow> nat option" where
  "spelled_number w = find (\<lambda>n. number_word n = w) [0..<44]"

fun pasted_number :: "picked \<Rightarrow> nat option" where
  "pasted_number (Number n) = Some n"
| "pasted_number (Own [Word w]) = spelled_number w"
| "pasted_number _ = None"

fun pasted_answer :: "picked \<Rightarrow> bool option" where
  "pasted_answer Yes = Some True"
| "pasted_answer No = Some False"
| "pasted_answer (Own [Word w]) = (if w = ''YES'' then Some True else if w = ''NO'' then Some False else None)"
| "pasted_answer _ = None"

text \<open>\<^verbatim>\<open>DEFAULT(D, ...)\<close> pastes the answer to \<^verbatim>\<open>DEFAULT__\<close>.\<close>

definition comma_list :: "mtext list \<Rightarrow> mtext" where
  "comma_list as = concat (case as of [] \<Rightarrow> [] | a # as \<Rightarrow> a # map (\<lambda>b. Comma # b) as)"

definition default_macro :: "mtext \<Rightarrow> mtext list \<Rightarrow> mtext option" where
  "default_macro d as = map_option (\<lambda>b. if b then comma_list as else d) (pasted_answer (has_args as))"

section \<open>MAP_REDUCE\<close>

text \<open>\<^verbatim>\<open>MAP_REDUCE_n\<close> uses its first \<open>n\<close> arguments.\<close>

fun map_reduce_n :: "nat \<Rightarrow> (mtext \<Rightarrow> mtext) \<Rightarrow> (mtext \<Rightarrow> mtext \<Rightarrow> mtext) \<Rightarrow> mtext list \<Rightarrow> mtext option" where
  "map_reduce_n 0 M R as = Some []"
| "map_reduce_n (Suc 0) M R (a # as) = Some (M a)"
| "map_reduce_n (Suc (Suc n)) M R (a # as) =
     (if Suc (Suc n) \<le> 43 then map_option (R (M a)) (map_reduce_n (Suc n) M R as) else None)"
| "map_reduce_n (Suc n) M R [] = None"

definition map_reduce :: "(mtext \<Rightarrow> mtext) \<Rightarrow> (mtext \<Rightarrow> mtext \<Rightarrow> mtext) \<Rightarrow> mtext list \<Rightarrow> mtext option" where
  "map_reduce M R as = Option.bind (pasted_number (num_args as)) (\<lambda>n. map_reduce_n n M R as)"

definition last_macro :: "mtext list \<Rightarrow> mtext option" where
  "last_macro as = map_reduce identity rest as"

definition append_macro :: "mtext list \<Rightarrow> mtext option" where
  "append_macro as = map_reduce identity space_separate as"

definition reverse_macro :: "mtext list \<Rightarrow> mtext option" where
  "reverse_macro as = map_reduce identity reverse_reduce as"

section \<open>REPEAT\<close>

fun repeat_n :: "nat \<Rightarrow> (mtext \<Rightarrow> mtext) \<Rightarrow> (mtext \<Rightarrow> mtext \<Rightarrow> mtext) \<Rightarrow> mtext \<Rightarrow> mtext option" where
  "repeat_n 0 M R a = Some []"
| "repeat_n (Suc 0) M R a = Some (M a)"
| "repeat_n (Suc (Suc n)) M R a =
     (if Suc (Suc n) \<le> 43 then map_option (R (M a)) (repeat_n (Suc n) M R a) else None)"

definition repeat_macro :: "nat \<Rightarrow> mtext \<Rightarrow> mtext option" where
  "repeat_macro n a = repeat_n n identity comma_separate a"

section \<open>Loops\<close>

lemma and_pred_less:
  fixes i s :: "64 word"
  assumes "i \<noteq> 0"
  shows "unat (and (i - 1) s) < unat i"
proof -
  have "unat (and (i - 1) s) \<le> unat (i - 1)"
    by (simp only: word_le_nat_alt [symmetric] word_and_le2 word_and_le1)
  also have "\<dots> < unat i" using assms by (simp add: unat_dec unat_gt_0)
  finally show ?thesis .
qed

text \<open>
  \<^verbatim>\<open>SUBSETS(i, s)\<close>: the values of \<open>i\<close> in the order of the rounds. The loop starts at 0 with the
  flag set, so that it does not end at once.
\<close>

function subsets_from :: "64 word \<Rightarrow> 64 word \<Rightarrow> bool \<Rightarrow> 64 word list" where
  "subsets_from s i null_flag =
     (if i \<noteq> 0 \<or> null_flag then i # subsets_from s (and (i - 1) s) False else [])"
  by pat_completeness auto

termination subsets_from
proof (relation "measure (\<lambda>(s, i, flag). if flag then 2 ^ 64 else unat i)")
  fix s i :: "64 word" and flag :: bool
  assume "i \<noteq> 0 \<or> flag"
  then show "((s, and (i - 1) s, False), s, i, flag) \<in> measure (\<lambda>(s, i, flag). if flag then 2 ^ 64 else unat i)"
    using and_pred_less [of i s] unat_less_2_64 [of "and (i - 1) s"] by auto
qed simp

declare subsets_from.simps [simp del]

definition subsets :: "64 word \<Rightarrow> 64 word list" where
  "subsets s = subsets_from s 0 True"

text \<open>\<^verbatim>\<open>FOR(i, l, h)\<close> and \<^verbatim>\<open>IFOR(i, l, h)\<close>: the values of \<open>i\<close>, for bounds whose successors are \<open>int\<close>s.\<close>

function for_from :: "int \<Rightarrow> int \<Rightarrow> int list" where
  "for_from i h = (if i < h then i # for_from (i + 1) h else [])"
  by pat_completeness auto
termination by (relation "measure (\<lambda>(i, h). nat (h - i))") auto

function ifor_from :: "int \<Rightarrow> int \<Rightarrow> int list" where
  "ifor_from i l = (if l \<le> i then i # ifor_from (i - 1) l else [])"
  by pat_completeness auto
termination by (relation "measure (\<lambda>(i, l). nat (i - l + 1))") auto

declare for_from.simps [simp del] ifor_from.simps [simp del]

text \<open>
  \<^verbatim>\<open>STEP(i, l, h, s)\<close> and \<^verbatim>\<open>ISTEP\<close>, of which the others are instances, with the arithmetic of \<^verbatim>\<open>int\<close>: \<open>None\<close> is
  a loop that does not end, a sum outside the range of \<^verbatim>\<open>int\<close> is a fault.
\<close>

definition is_int :: "int \<Rightarrow> bool" where
  "is_int i \<longleftrightarrow> - (2 ^ 31) \<le> i \<and> i < 2 ^ 31"

function step_loop :: "int \<Rightarrow> int \<Rightarrow> int \<Rightarrow> (fault + int list) option" where
  "step_loop s h i = (if i < h then
       (if s = 0 then None else if \<not> is_int (i + s) then Some (Inl Signed_Overflow)
        else map_option (\<lambda>r. bind_res r (\<lambda>is. Inr (i # is))) (step_loop s h (i + s)))
     else Some (Inr []))"
  by pat_completeness auto
termination
  by (relation "measure (\<lambda>(s, h, i). nat (if 0 < s then h - i else i + 2 ^ 31))") (auto simp: is_int_def)

function istep_loop :: "int \<Rightarrow> int \<Rightarrow> int \<Rightarrow> (fault + int list) option" where
  "istep_loop s l i = (if l \<le> i then
       (if s = 0 then None else if \<not> is_int (i - s) then Some (Inl Signed_Overflow)
        else map_option (\<lambda>r. bind_res r (\<lambda>is. Inr (i # is))) (istep_loop s l (i - s)))
     else Some (Inr []))"
  by pat_completeness auto
termination
  by (relation "measure (\<lambda>(s, l, i). nat (if 0 < s then i - l + 1 else 2 ^ 31 - i))") (auto simp: is_int_def)

declare step_loop.simps [simp del] istep_loop.simps [simp del]

definition step_macro :: "int \<Rightarrow> int \<Rightarrow> int \<Rightarrow> (fault + int list) option" where
  "step_macro l h s = step_loop s h l"

definition istep_macro :: "int \<Rightarrow> int \<Rightarrow> int \<Rightarrow> (fault + int list) option" where
  "istep_macro l h s = (if is_int (h - 1) then istep_loop s l (h - 1) else Some (Inl Signed_Overflow))"

definition rep_macro :: "int \<Rightarrow> (fault + int list) option" where
  "rep_macro h = step_macro 0 h 1"

definition irep_macro :: "int \<Rightarrow> (fault + int list) option" where
  "irep_macro h = istep_macro 0 h 1"

definition range_macro :: "int \<Rightarrow> int \<Rightarrow> int \<Rightarrow> bool" where
  "range_macro p l h \<longleftrightarrow> p \<ge> l \<and> p < h"

section \<open>Argument lists\<close>

lemma given_args_large [simp]: "43 < length as \<Longrightarrow> given_args as = as"
  by (auto simp: given_args_def)

lemma given_args_le: "length as \<le> 43 \<Longrightarrow> length (given_args as) \<le> 43"
  by (simp add: given_args_def)

lemma num_args_small: "length as \<le> 43 \<Longrightarrow> num_args as = Number (length (given_args as))"
  using given_args_le [of as]
  by (simp add: num_args_def arg_45_def nth_append nth_Cons' rev_nth del: upt_rec_numeral)

lemma num_args_large: "43 < length as \<Longrightarrow> num_args as = Own (as ! 43)"
  by (simp add: num_args_def arg_45_def nth_append nth_Cons' del: upt_rec_numeral)

lemma has_args_cases:
  "has_args as = (if as = [] \<or> as = [[]] then No else if length as \<le> 43 then Yes else Own (as ! 43))"
proof -
  have g: "given_args as = [] \<longleftrightarrow> as = [] \<or> as = [[]]" by (simp add: given_args_def)
  have "(replicate 43 Yes @ [No]) ! (43 - length xs) = (if xs = [] then No else Yes)" if "length xs \<le> 43" for xs :: "mtext list"
    using that by (cases "length xs = 0") (auto simp: nth_append)
  from this [of "given_args as"] show ?thesis
    using given_args_le [of as] unfolding g [symmetric]
    by (cases "length as \<le> 43") (auto simp: has_args_def arg_45_def nth_append nth_Cons')
qed

lemma spelled_number_iff: "spelled_number w = Some n \<Longrightarrow> n \<le> 43 \<and> number_word n = w"
  by (auto simp: spelled_number_def find_Some_iff)

lemma digit_inj:
  assumes "i < 10" "j < 10" "(char_of (48 + i :: nat) :: char) = char_of (48 + j)"
  shows "i = j"
proof -
  have "(of_char (char_of (48 + i :: nat) :: char) :: nat) = of_char (char_of (48 + j :: nat) :: char)" using assms(3) by simp
  then have "(48 + i) mod 256 = (48 + j) mod 256" by (simp only: of_char_of)
  then show ?thesis using assms(1,2) by simp
qed

lemma number_word_inj:
  assumes "m \<le> 43" "n \<le> 43" "number_word m = number_word n"
  shows "m = n"
proof -
  have "m div 10 = n div 10 \<and> m mod 10 = n mod 10"
    using assms digit_inj [of m n] digit_inj [of "m div 10" "n div 10"] digit_inj [of "m mod 10" "n mod 10"]
    by (auto simp: number_word_def split: if_splits)
  then show ?thesis by (metis div_mult_mod_eq)
qed

lemma spelled_number_word:
  assumes "n \<le> 43"
  shows "spelled_number (number_word n) = Some n"
proof -
  have "\<exists>x < 44. number_word x = number_word n" using assms by (intro exI [of _ n]) simp
  then have "spelled_number (number_word n) \<noteq> None" by (auto simp: spelled_number_def find_None_iff)
  then obtain m where m: "spelled_number (number_word n) = Some m" by blast
  then show ?thesis using spelled_number_iff [OF m] number_word_inj assms by auto
qed

lemma pasted_number_le: "pasted_number (Own a) = Some n \<Longrightarrow> n \<le> 43"
  by (cases "Own a" rule: pasted_number.cases) (auto dest: spelled_number_iff)

fun fold_text :: "(mtext \<Rightarrow> mtext) \<Rightarrow> (mtext \<Rightarrow> mtext \<Rightarrow> mtext) \<Rightarrow> mtext list \<Rightarrow> mtext" where
  "fold_text M R [] = []"
| "fold_text M R [a] = M a"
| "fold_text M R (a # b # as) = R (M a) (fold_text M R (b # as))"

lemma map_reduce_n_fold: "n \<le> 43 \<Longrightarrow> n \<le> length as \<Longrightarrow> map_reduce_n n M R as = Some (fold_text M R (take n as))"
proof (induction n M R as rule: map_reduce_n.induct)
  case (3 n M R a as)
  then obtain b bs where "as = b # bs" by (cases as) auto
  then show ?case using 3 by simp
qed simp_all

text \<open>Up to 43 arguments; beyond, the 44th says how many of the first are used, if it is a number at all.\<close>

lemma map_reduce_fold:
  "length as \<le> 43 \<Longrightarrow> as \<noteq> [[]] \<Longrightarrow> map_reduce M R as = Some (fold_text M R as)"
  "43 < length as \<Longrightarrow> map_reduce M R as = map_option (\<lambda>n. fold_text M R (take n as)) (pasted_number (Own (as ! 43)))"
  "map_reduce M R [[]] = Some []"
proof -
  show "length as \<le> 43 \<Longrightarrow> as \<noteq> [[]] \<Longrightarrow> map_reduce M R as = Some (fold_text M R as)"
    using num_args_small [of as] map_reduce_n_fold [of "length as" as M R] by (simp add: map_reduce_def given_args_def)
  show "map_reduce M R [[]] = Some []" by (simp add: map_reduce_def num_args_small given_args_def)
  assume l: "43 < length as"
  show "map_reduce M R as = map_option (\<lambda>n. fold_text M R (take n as)) (pasted_number (Own (as ! 43)))"
  proof (cases "pasted_number (Own (as ! 43))")
    case (Some n)
    then show ?thesis using pasted_number_le [OF Some] l map_reduce_n_fold [of n as M R] num_args_large [OF l]
      by (simp add: map_reduce_def)
  qed (simp add: map_reduce_def num_args_large [OF l])
qed

lemma fold_last: "as \<noteq> [] \<Longrightarrow> fold_text identity rest as = last as"
  by (induction identity rest as rule: fold_text.induct) (simp_all add: identity_def rest_def)

lemma fold_append: "fold_text identity space_separate as = concat as"
  by (induction identity space_separate as rule: fold_text.induct)
    (simp_all add: identity_def space_separate_def)

lemma comma_list_Cons: "as \<noteq> [] \<Longrightarrow> comma_list (a # as) = a @ Comma # comma_list as"
  by (cases as) (simp_all add: comma_list_def)

lemma comma_list_snoc: "as \<noteq> [] \<Longrightarrow> comma_list (as @ [a]) = comma_list as @ Comma # a"
  by (cases as) (simp_all add: comma_list_def)

lemma fold_reverse: "fold_text identity reverse_reduce as = comma_list (rev as)"
proof (induction identity reverse_reduce as rule: fold_text.induct)
  case (3 a b as)
  then show ?case using comma_list_snoc [of "rev as @ [b]" a] by (simp add: identity_def reverse_reduce_def)
qed (simp_all add: identity_def comma_list_def)

lemma repeat_n_commas: "n \<le> 43 \<Longrightarrow> repeat_n n identity comma_separate a = Some (comma_list (replicate n a))"
proof (induction n identity comma_separate a rule: repeat_n.induct)
  case (3 n a)
  then show ?case using comma_list_Cons [of "replicate (Suc n) a" a]
    by (simp add: identity_def comma_separate_def)
qed (simp_all add: identity_def comma_list_def)

section \<open>Subsets\<close>

text \<open>Below a submask \<open>i\<close> of \<open>s\<close>, the greatest submask of \<open>s\<close> is \<open>(i - 1) & s\<close>.\<close>

lemma and_div_2: "and a s div 2 = and (a div 2) (s div (2 :: nat))"
  by (subst and_rec) simp

lemma submask_half:
  fixes a s :: nat
  assumes "and a s = a"
  shows "and (a div 2) (s div 2) = a div 2" "odd a \<Longrightarrow> odd s"
  using assms and_div_2 [of a s] even_and_iff [of a s] by auto

lemma nat_halves: "(n :: nat) = 2 * (n div 2) + of_bool (odd n)"
  by (cases "even n") auto

lemma submask_pred_nat:
  fixes i j s :: nat
  shows "and i s = i \<Longrightarrow> and j s = j \<Longrightarrow> j < i \<Longrightarrow> j \<le> and (i - 1) s"
proof (induction i arbitrary: j s rule: less_induct)
  case (less i)
  note hi = submask_half [OF less.prems(1)] and hj = submask_half [OF less.prems(2)]
  have r: "and (i - 1) s = 2 * and ((i - 1) div 2) (s div 2) + of_bool (odd (i - 1) \<and> odd s)"
    by (subst and_rec) simp
  show ?case
  proof (cases "odd i")
    case True
    then have "(i - 1) div 2 = i div 2" "2 * (i div 2) = i - 1" by (auto elim: oddE)
    then have "and (i - 1) s = i - 1" using r hi(1) True by simp
    then show ?thesis using less.prems(3) by simp
  next
    case False
    then obtain k where k: "i = 2 * k" by blast
    with less.prems(3) have k0: "k \<noteq> 0" "k < i" "i div 2 = k" "(i - 1) div 2 = k - 1" "odd (i - 1)" by auto
    have "j div 2 < k" using less.prems(3) k by linarith
    then have "j div 2 \<le> and (k - 1) (s div 2)"
      using less.IH [OF k0(2), of "s div 2" "j div 2"] hi(1) hj(1) k0(3) by simp
    moreover have "of_bool (odd j) \<le> (of_bool (odd s) :: nat)" using hj(2) by simp
    ultimately have "j \<le> 2 * and (k - 1) (s div 2) + of_bool (odd s)"
      using nat_halves [of j] by linarith
    then show ?thesis using r k0 by simp
  qed
qed

lemma submask_pred:
  fixes i j s :: "64 word"
  assumes "and i s = i" "and j s = j" "j < i"
  shows "j \<le> and (i - 1) s"
proof -
  have i0: "i \<noteq> 0" using assms(3) by auto
  have "and (unat i) (unat s) = unat i" "and (unat j) (unat s) = unat j" "unat j < unat i"
    using assms by (simp_all add: unsigned_and_eq [symmetric] word_less_nat_alt)
  from submask_pred_nat [OF this] show ?thesis
    using i0 by (simp add: word_le_nat_alt unsigned_and_eq unat_dec)
qed

lemma submask_and: "and (and (x :: 64 word) s) s = and x s"
  by (simp add: and.assoc)

text \<open>From a submask \<open>i\<close> on, the loop visits the non-empty submasks up to \<open>i\<close>, each once.\<close>

lemma subsets_from_spec:
  "and i s = i \<Longrightarrow> distinct (subsets_from s i False) \<and>
    set (subsets_from s i False) = {x. and x s = x \<and> x \<noteq> 0 \<and> x \<le> i}"
proof (induction s i False rule: subsets_from.induct)
  case (1 s i)
  show ?case
  proof (cases "i = 0")
    case True
    then show ?thesis by (auto simp: subsets_from.simps [of s 0 False])
  next
    case False
    let ?k = "and (i - 1) s"
    have less: "?k < i" using and_pred_less [OF False] by (simp add: word_less_nat_alt)
    have "{x. and x s = x \<and> x \<noteq> 0 \<and> x \<le> i} = insert i {x. and x s = x \<and> x \<noteq> 0 \<and> x \<le> ?k}"
      using submask_pred [OF 1(2)] less False 1(2) by (auto simp: order.order_iff_strict)
    moreover have "i \<notin> {x. and x s = x \<and> x \<noteq> 0 \<and> x \<le> ?k}" using less by auto
    ultimately show ?thesis using 1(1) [OF _ submask_and] False
      by (simp add: subsets_from.simps [of s i False])
  qed
qed

lemma for_from_upt: "for_from i h = map (\<lambda>k. i + int k) [0..<nat (h - i)]"
proof (induction i h rule: for_from.induct)
  case (1 i h)
  show ?case
  proof (cases "i < h")
    case True
    then have "nat (h - i) = Suc (nat (h - (i + 1)))" by simp
    then show ?thesis using 1 True
      by (simp add: for_from.simps [of i] upt_conv_Cons map_Suc_upt [symmetric] del: upt_Suc)
  qed (simp add: for_from.simps [of i])
qed

lemma ifor_from_snoc: "l \<le> i + 1 \<Longrightarrow> ifor_from i l = rev (for_from l (i + 1))"
proof (induction i l rule: ifor_from.induct)
  case (1 i l)
  show ?case
  proof (cases "l \<le> i")
    case True
    then have "nat (i + 1 - l) = Suc (nat (i - l))" by simp
    then show ?thesis using 1 True by (simp add: ifor_from.simps [of i] for_from_upt)
  next
    case False
    then show ?thesis using 1(2) by (simp add: ifor_from.simps [of i] for_from.simps [of l])
  qed
qed

text \<open>
  A loop with a positive stride ends, with the values \<open>l, l + s, \<dots>\<close> below \<open>h\<close>, unless the step after the last of them leaves the range
  of \<^verbatim>\<open>int\<close>; with the stride 0 it does not end, and with a negative one it goes down until it overflows.
\<close>

definition rounds :: "int \<Rightarrow> int \<Rightarrow> int \<Rightarrow> nat" where
  "rounds s h i = nat ((h - i + s - 1) div s)"

lemma rounds_step:
  assumes "0 < s" "i < h"
  shows "rounds s h i = Suc (rounds s h (i + s))"
proof -
  have "(h - i + s - 1) div s = (h - (i + s) + s - 1) div s + 1"
    using assms(1) div_add_self2 [of s "h - (i + s) + s - 1"] by (simp add: algebra_simps)
  moreover have "0 \<le> (h - (i + s) + s - 1) div s" using assms by (simp add: pos_imp_zdiv_nonneg_iff)
  ultimately show ?thesis by (simp add: rounds_def)
qed

lemma rounds_done:
  assumes "0 < s" "h \<le> i"
  shows "rounds s h i = 0"
proof -
  have "(h - i + s - 1) div s \<le> (s - 1) div s" using assms by (intro zdiv_mono1) simp_all
  also have "\<dots> = 0" using assms(1) by (simp add: div_pos_pos_trivial)
  finally have "(h - i + s - 1) div s \<le> 0" .
  then show ?thesis by (simp add: rounds_def)
qed

lemma step_loop_up:
  assumes "0 < s" "is_int i"
  shows "step_loop s h i = Some (if i < h \<and> 2 ^ 31 \<le> i + s * int (rounds s h i) then Inl Signed_Overflow
    else Inr (map (\<lambda>k. i + s * int k) [0..<rounds s h i]))"
  using assms
proof (induction s h i rule: step_loop.induct)
  case (1 s h i)
  show ?case
  proof (cases "i < h")
    case True
    let ?n = "rounds s h (i + s)"
    have r: "rounds s h i = Suc ?n" using rounds_step [OF 1(2) True] .
    have sum: "i + s * int (rounds s h i) = i + s + s * int ?n" by (simp add: r algebra_simps)
    show ?thesis
    proof (cases "is_int (i + s)")
      case False
      then have "2 ^ 31 \<le> i + s" using 1(2,3) by (auto simp: is_int_def)
      moreover have "0 \<le> s * int ?n" using 1(2) by simp
      ultimately have "2 ^ 31 \<le> i + s * int (rounds s h i)" unfolding sum by linarith
      then show ?thesis using True False 1(2) by (simp add: step_loop.simps [of s h i])
    next
      case in_range: True
      have IH: "step_loop s h (i + s) = Some (if i + s < h \<and> 2 ^ 31 \<le> i + s + s * int ?n then Inl Signed_Overflow
          else Inr (map (\<lambda>k. i + s + s * int k) [0..<?n]))"
        using 1(1) [OF True _ _ 1(2) in_range] 1(2) in_range by simp
      have "[0..<Suc ?n] = 0 # map Suc [0..<?n]" by (simp add: upt_conv_Cons map_Suc_upt [symmetric] del: upt_Suc)
      then have m: "map (\<lambda>k. i + s * int k) [0..<rounds s h i] = i # map (\<lambda>k. i + s + s * int k) [0..<?n]"
        by (simp add: r algebra_simps del: upt_Suc)
      have "i + s < h" if "2 ^ 31 \<le> i + s + s * int ?n"
        using that rounds_done [OF 1(2), of h "i + s"] in_range by (cases "i + s < h") (simp_all add: is_int_def)
      then show ?thesis using True IH in_range 1(2) m sum by (auto simp: step_loop.simps [of s h i])
    qed
  qed (use 1(2) rounds_done [of s h i] in \<open>simp add: step_loop.simps [of s h i]\<close>)
qed

lemma step_loop_down:
  assumes "s < 0" "i < h" "is_int i"
  shows "step_loop s h i = Some (Inl Signed_Overflow)"
  using assms
proof (induction s h i rule: step_loop.induct)
  case (1 s h i)
  then show ?case by (cases "is_int (i + s)") (simp_all add: step_loop.simps [of s h i])
qed

lemma for_step: "is_int i \<Longrightarrow> is_int h \<Longrightarrow> step_macro i h 1 = Some (Inr (for_from i h))"
  using step_loop_up [of 1 i h] by (simp add: step_macro_def rounds_def for_from_upt is_int_def)

text \<open>\<open>ISTEP\<close> is \<open>STEP\<close> on the other side of 0, but for the end of the range of \<^verbatim>\<open>int\<close> that has one number more.\<close>

lemma ifor_step:
  assumes "- (2 ^ 31) < l" "l \<le> i + 1" "is_int i"
  shows "istep_loop 1 l i = Some (Inr (ifor_from i l))"
  using assms
proof (induction i l rule: ifor_from.induct)
  case (1 i l)
  show ?case
  proof (cases "l \<le> i")
    case True
    then have "is_int (i - 1)" using 1(2,4) by (simp add: is_int_def)
    then show ?thesis using 1(1) [OF True] 1(2) True
      by (simp add: istep_loop.simps [of 1 l i] ifor_from.simps [of i l])
  qed (simp add: istep_loop.simps [of 1 l i] ifor_from.simps [of i l])
qed

text \<open>
  The loops of \<open>STEP\<close>, \<open>FOR\<close>, \<open>REP\<close> and their backward forms: a positive stride visits \<open>l, l + s, \<dots>\<close> below \<open>h\<close> and ends,
  unless the last addition overflows; the stride 0 never ends, a negative one overflows; \<open>REP\<close> and \<open>IREP\<close> always end, but for
  \<open>IREP\<close> of the least \<^verbatim>\<open>int\<close>.
\<close>

theorem step_values:
  assumes "is_int l" "is_int h" "is_int s"
  shows "(0 < s \<longrightarrow> step_macro l h s = Some (if l < h \<and> 2 ^ 31 \<le> l + s * int (rounds s h l) then Inl Signed_Overflow
      else Inr (map (\<lambda>k. l + s * int k) [0..<rounds s h l]))) \<and>
    (l < h \<longrightarrow> step_macro l h 0 = None) \<and> (l < h \<and> s < 0 \<longrightarrow> step_macro l h s = Some (Inl Signed_Overflow)) \<and>
    rep_macro h = Some (Inr (for_from 0 h)) \<and>
    irep_macro h = Some (if h = - (2 ^ 31) then Inl Signed_Overflow else Inr (ifor_from (h - 1) 0))"
proof (intro conjI impI)
  show "step_macro l h s = Some (if l < h \<and> 2 ^ 31 \<le> l + s * int (rounds s h l) then Inl Signed_Overflow
      else Inr (map (\<lambda>k. l + s * int k) [0..<rounds s h l]))" if "0 < s"
    unfolding step_macro_def by (rule step_loop_up [OF that assms(1)])
  show "step_macro l h 0 = None" if "l < h" using that by (simp add: step_macro_def step_loop.simps)
  show "step_macro l h s = Some (Inl Signed_Overflow)" if "l < h \<and> s < 0"
    using step_loop_down that assms(1) by (simp add: step_macro_def)
  show "rep_macro h = Some (Inr (for_from 0 h))"
    using for_step [OF _ assms(2), of 0] by (simp add: rep_macro_def is_int_def)
  show "irep_macro h = Some (if h = - (2 ^ 31) then Inl Signed_Overflow else Inr (ifor_from (h - 1) 0))"
  proof (cases "h = - (2 ^ 31)")
    case False
    then have i: "is_int (h - 1)" using assms(2) by (simp add: is_int_def)
    have "istep_loop 1 0 (h - 1) = Some (Inr (ifor_from (h - 1) 0))"
    proof (cases "0 \<le> h")
      case True
      then show ?thesis using ifor_step [of 0 "h - 1"] i by simp
    qed (simp add: istep_loop.simps ifor_from.simps)
    then show ?thesis using False i by (simp add: irep_macro_def istep_macro_def)
  qed (simp add: irep_macro_def istep_macro_def is_int_def)
qed

lemma step_values_witness: "step_macro 1 8 3 = Some (Inr [1, 4, 7])"
  using step_values [of 1 8 3] by (simp add: is_int_def rounds_def upt_rec)

lemma num_args_count:
  "num_args as = (if length as \<le> 43 then Number (length (given_args as)) else Own (as ! 43))"
  using num_args_small num_args_large by simp

text \<open>The macros over \<open>MAP_REDUCE\<close> and \<open>DEFAULT\<close>.\<close>

lemma list_macros:
  "reverse_macro as = (if length as \<le> 43 then Some (comma_list (rev as))
     else map_option (\<lambda>n. comma_list (rev (take n as))) (pasted_number (Own (as ! 43))))"
  "append_macro as = (if length as \<le> 43 then Some (concat as)
     else map_option (\<lambda>n. concat (take n as)) (pasted_number (Own (as ! 43))))"
  "default_macro d as = (if as = [] \<or> as = [[]] then Some d else if length as \<le> 43 then Some (comma_list as)
     else map_option (\<lambda>b. if b then comma_list as else d) (pasted_answer (Own (as ! 43))))"
proof -
  show "reverse_macro as = (if length as \<le> 43 then Some (comma_list (rev as))
     else map_option (\<lambda>n. comma_list (rev (take n as))) (pasted_number (Own (as ! 43))))"
    by (cases "as = [[]]") (simp_all add: reverse_macro_def map_reduce_fold fold_reverse, simp_all add: comma_list_def)
  show "append_macro as = (if length as \<le> 43 then Some (concat as)
     else map_option (\<lambda>n. concat (take n as)) (pasted_number (Own (as ! 43))))"
    by (cases "as = [[]]") (simp_all add: append_macro_def map_reduce_fold fold_append)
  show "default_macro d as = (if as = [] \<or> as = [[]] then Some d else if length as \<le> 43 then Some (comma_list as)
     else map_option (\<lambda>b. if b then comma_list as else d) (pasted_answer (Own (as ! 43))))"
    by (simp add: default_macro_def has_args_cases)
qed

lemma last_of_list:
  assumes "as \<noteq> []"
  shows "last_macro as = (if length as \<le> 43 then Some (last as)
    else map_option (\<lambda>n. if n = 0 then [] else as ! (n - 1)) (pasted_number (Own (as ! 43))))"
proof (cases "length as \<le> 43")
  case True
  then show ?thesis using assms fold_last [OF assms] by (cases "as = [[]]") (simp_all add: last_macro_def map_reduce_fold)
next
  case False
  have "fold_text identity rest (take n as) = (if n = 0 then [] else as ! (n - 1))" if "n \<le> 43" for n
    using that False assms fold_last [of "take n as"] by (cases n) (auto simp: last_conv_nth)
  then show ?thesis using False pasted_number_le [of "as ! 43"]
    by (auto simp: last_macro_def map_reduce_fold intro!: option.map_cong)
qed

lemma repeat_copies:
  "repeat_macro n a = (if n \<le> 43 then Some (comma_list (replicate n a)) else None)"
proof (cases "n \<le> 43")
  case False
  then obtain m where "n = Suc (Suc m)" "\<not> Suc (Suc m) \<le> 43"
    by (metis Suc_le_mono le_0_eq not0_implies_Suc numeral_eq_Suc zero_le)
  then show ?thesis by (simp add: repeat_macro_def)
qed (simp add: repeat_macro_def repeat_n_commas)

section \<open>Properties\<close>

text \<open>
  C40: The argument-list macros do what their names say for up to 43 arguments: \<open>NUM_ARGS\<close> counts, \<open>REVERSE\<close> is the
  list reversed, \<open>LAST\<close> the last argument (of at least one), \<open>APPEND\<close> the arguments one after the
  other, \<open>DEFAULT\<close> the arguments or the default when there are none (an only empty argument is none), and \<open>REPEAT(n, a)\<close> is \<open>n\<close>
  copies of \<open>a\<close> separated by commas. Beyond 43 arguments \<open>NUM_ARGS\<close> is silently the 44th argument: when this is a number \<open>n\<close> from 0 to 43, the
  other macros do the same to the first \<open>n\<close> arguments only, and \<open>DEFAULT\<close> takes it for its answer when it is \<^verbatim>\<open>YES\<close> or \<^verbatim>\<open>NO\<close>; else they
  have no value. \<open>REPEAT\<close> has none beyond 43.
\<close>

theorem argument_macros:
  "num_args as = (if length as \<le> 43 then Number (length (given_args as)) else Own (as ! 43)) \<and>
   reverse_macro as = (if length as \<le> 43 then Some (comma_list (rev as))
     else map_option (\<lambda>n. comma_list (rev (take n as))) (pasted_number (Own (as ! 43)))) \<and>
   append_macro as = (if length as \<le> 43 then Some (concat as)
     else map_option (\<lambda>n. concat (take n as)) (pasted_number (Own (as ! 43)))) \<and>
   last_macro (bs @ [b]) = (if length bs < 43 then Some b
     else map_option (\<lambda>n. if n = 0 then [] else (bs @ [b]) ! (n - 1)) (pasted_number (Own ((bs @ [b]) ! 43)))) \<and>
   default_macro d as = (if as = [] \<or> as = [[]] then Some d else if length as \<le> 43 then Some (comma_list as)
     else map_option (\<lambda>x. if x then comma_list as else d) (pasted_answer (Own (as ! 43)))) \<and>
   map (\<lambda>i. pasted_number (Own [Word (number_word i)])) [0..<44] = map Some [0..<44] \<and>
   repeat_macro n a = (if n \<le> 43 then Some (comma_list (replicate n a)) else None)"
proof (intro conjI)
  show "last_macro (bs @ [b]) = (if length bs < 43 then Some b
     else map_option (\<lambda>n. if n = 0 then [] else (bs @ [b]) ! (n - 1)) (pasted_number (Own ((bs @ [b]) ! 43))))"
    using last_of_list [of "bs @ [b]"] by (simp add: Suc_le_eq)
  show "map (\<lambda>i. pasted_number (Own [Word (number_word i)])) [0..<44] = map Some [0..<44]"
    by (rule map_cong) (simp_all add: spelled_number_word)
qed (rule num_args_count list_macros repeat_copies)+

text \<open>
  The loop of \<open>SUBSETS(i, s)\<close> ends, and it visits every subset of the mask \<open>s\<close> exactly
  once, the empty one first.
\<close>

theorem subsets_complete:
  "distinct (subsets s) \<and> set (subsets s) = {x. and x s = x} \<and> hd (subsets s) = 0"
proof -
  have e: "subsets s = 0 # subsets_from s s False"
    by (simp add: subsets_def subsets_from.simps [of s 0 True])
  have "distinct (subsets_from s s False) \<and>
      set (subsets_from s s False) = {x. and x s = x \<and> x \<noteq> 0 \<and> x \<le> s}"
    by (rule subsets_from_spec) simp
  moreover have "x \<le> s" if "and x s = x" for x using that word_and_le1 [of x s] by simp
  ultimately show ?thesis by (auto simp: e)
qed

end
