(* ===== verification/Test_Case.thy ===== *)
theory Test_Case
  imports Output_Dump
begin

text \<open>
  The test runner: \<^verbatim>\<open>Arguments\<close> of \<^verbatim>\<open>src/arguments.h\<close>, \<^verbatim>\<open>Case\<close> and \<^verbatim>\<open>TemplatedCase\<close> of
  \<^verbatim>\<open>src/cases.h\<close> and \<^verbatim>\<open>src/cases.hpp\<close>, and the registry of \<^verbatim>\<open>src/testing.h\<close> and
  \<^verbatim>\<open>src/testing.hpp\<close>.

  A test function's parameters have different C++ types; here an argument is a value of one type
  \<open>'v\<close>. The operating system (\<^verbatim>\<open>fork\<close>, \<^verbatim>\<open>read\<close>, \<^verbatim>\<open>waitpid\<close>, the clock) is an argument: process numbers,
  clock readings, and lists of events; a loop that uses up its events has not returned
  (\<open>None\<close>). \<^verbatim>\<open>ASSERT\<close> is that of \<^verbatim>\<open>cases.h\<close>, which aborts; so does a failed \<^verbatim>\<open>SysCall\<close>.
\<close>

section \<open>Arguments\<close>

text \<open>One vector per parameter. \<open>Add\<close> puts one value at the end of each.\<close>

fun args_add :: "'v list list \<Rightarrow> 'v list \<Rightarrow> 'v list list" where
  "args_add (m # ms) (v # vs) = (m @ [v]) # args_add ms vs"
| "args_add ms vs = ms"

definition args_num :: "'v list list \<Rightarrow> nat" where
  "args_num ms = (case ms of [] \<Rightarrow> 1 | m # _ \<Rightarrow> length m)"

text \<open>\<open>CallHelper\<close> collects the arguments from the first parameter to the last.\<close>

fun call_helper :: "nat \<Rightarrow> 'v list list \<Rightarrow> 'v list \<Rightarrow> ('v list \<Rightarrow> 'r) \<Rightarrow> fault + 'r" where
  "call_helper l [] args f = Inr (f args)"
| "call_helper l (m # ms) args f = (if l < length m then call_helper l ms (args @ [m ! l]) f else Inl Out_Of_Bounds)"

definition args_call :: "nat \<Rightarrow> 'v list list \<Rightarrow> ('v list \<Rightarrow> 'r) \<Rightarrow> fault + 'r" where
  "args_call l ms f = call_helper l ms [] f"

section \<open>Cases\<close>

record test_process =
  tp_i :: nat
  pid :: int
  status :: int
  usecs :: "64 word"
  buf :: string

datatype result = SUCCESS | FAILURE | TIMEOUT | RUNNING

record 'v test_case =
  expected :: int
  timeout :: "64 word"
  start :: "64 word"
  children :: "test_process list"   \<comment> \<open>a \<open>std::map\<close>: in the order of the process numbers\<close>
  args :: "'v list list"
  arg_names :: "string list"

text \<open>A new case, for a function of \<open>n\<close> parameters; \<open>[name]\<close>, \<open>(args)\<close>, \<open>/ expected\<close> and \<open>% timeout\<close>.\<close>

definition new_case :: "nat \<Rightarrow> 'v test_case" where
  "new_case n = \<lparr>expected = 0, timeout = 1, start = 0, children = [], args = replicate n [], arg_names = []\<rparr>"

definition case_name :: "string \<Rightarrow> 'v test_case \<Rightarrow> 'v test_case" where
  "case_name a c = c\<lparr>arg_names := arg_names c @ [a]\<rparr>"

definition case_args :: "'v list \<Rightarrow> 'v test_case \<Rightarrow> 'v test_case" where
  "case_args vs c = c\<lparr>args := args_add (args c) vs\<rparr>"

definition case_expect :: "int \<Rightarrow> 'v test_case \<Rightarrow> 'v test_case" where
  "case_expect n c = c\<lparr>expected := n\<rparr>"

definition case_timeout :: "64 word \<Rightarrow> 'v test_case \<Rightarrow> 'v test_case" where
  "case_timeout n c = c\<lparr>timeout := n\<rparr>"

definition case_num :: "'v test_case \<Rightarrow> fault + nat" where
  "case_num c = (if args_num (args c) = length (arg_names c) then Inr (args_num (args c)) else Inl Aborted)"

definition case_arg_name :: "nat \<Rightarrow> 'v test_case \<Rightarrow> fault + string" where
  "case_arg_name i c = (if i < length (arg_names c) then Inr (arg_names c ! i) else Inl Aborted)"

text \<open>
  What a signal does to the process, and \<open>SetHandler\<close>: the six signals that it names all end a process
  by default.
\<close>

datatype disposition = Default_Action | Default_Handler | Named_Handler string

definition SIGABRT :: int where "SIGABRT = 6"

definition fatal_signals :: "int list" where
  "fatal_signals = [SIGABRT, 8, 4, 2, 11, 15]"

definition set_handlers :: "disposition \<Rightarrow> (int \<Rightarrow> disposition) \<Rightarrow> int \<Rightarrow> disposition" where
  "set_handlers h hs sig = (if sig \<in> set fatal_signals then h else hs sig)"

text \<open>
  \<open>Call\<close>: the indentation goes up for the time of the test function, which runs under the default
  handler of the tests; the handlers stay.
\<close>

definition case_call ::
  "nat \<Rightarrow> 'v test_case \<Rightarrow> (int \<Rightarrow> 'v list \<Rightarrow> 'r) \<Rightarrow> int \<Rightarrow> (int \<Rightarrow> disposition) \<Rightarrow> fault + 'r \<times> int \<times> (int \<Rightarrow> disposition)" where
  "case_call i c f ind hs = (let ind' = indent ind; hs' = set_handlers Default_Handler hs in
     bind_res (args_call i (args c) (f ind')) (\<lambda>r. Inr (r, unindent ind', hs')))"

text \<open>\<open>Fork\<close> in the parent, with the clock and the number of the new process.\<close>

definition insert_child :: "test_process \<Rightarrow> test_process list \<Rightarrow> test_process list" where
  "insert_child p cs = (if pid p \<in> pid ` set cs then cs else insort_key pid p cs)"

definition case_fork :: "nat \<Rightarrow> 64 word \<Rightarrow> int \<Rightarrow> 'v test_case \<Rightarrow> 'v test_case" where
  "case_fork i now p c = c\<lparr>start := now,
     children := insert_child \<lparr>tp_i = i, pid = p, status = 0, usecs = 0, buf = []\<rparr> (children c)\<rparr>"

primrec fork_all :: "nat \<Rightarrow> (nat \<Rightarrow> 64 word) \<Rightarrow> (nat \<Rightarrow> int) \<Rightarrow> 'v test_case \<Rightarrow> 'v test_case" where
  "fork_all 0 clock pids c = c"
| "fork_all (Suc n) clock pids c = case_fork n (clock n) (pids n) (fork_all n clock pids c)"

definition case_fork_all :: "(nat \<Rightarrow> 64 word) \<Rightarrow> (nat \<Rightarrow> int) \<Rightarrow> 'v test_case \<Rightarrow> fault + 'v test_case" where
  "case_fork_all clock pids c = bind_res (case_num c) (\<lambda>n. Inr (fork_all n clock pids c))"

text \<open>\<open>Flush\<close>: \<open>read\<close> gives data, nothing yet (\<^verbatim>\<open>EAGAIN\<close>), the end of the pipe, or another error.\<close>

datatype pipe_event = Data string | Again | End_Of_Pipe | Pipe_Error

fun flush_child :: "test_process \<Rightarrow> pipe_event list \<Rightarrow> (fault + test_process) option" where
  "flush_child p [] = None"
| "flush_child p (e # es) = (case e of
       Data s \<Rightarrow> if s = [] then Some (Inr p) else flush_child (p\<lparr>buf := buf p @ s\<rparr>) es
     | Again \<Rightarrow> flush_child p es
     | End_Of_Pipe \<Rightarrow> Some (Inr p)
     | Pipe_Error \<Rightarrow> Some (Inl Aborted))"

text \<open>
  \<open>Finish\<close> prints to a channel and returns the result; \<open>RUNNING\<close> is the illegal default, a message
  on \<open>FTL\<close>.
\<close>

definition finish :: "test_process \<Rightarrow> result \<Rightarrow> 'v test_case \<Rightarrow> fault + channel \<times> result" where
  "finish p r c = bind_res (case_arg_name (tp_i p) c) (\<lambda>_. case r of
       SUCCESS \<Rightarrow> Inr (OUT, r) | FAILURE \<Rightarrow> Inr (ERR, r) | TIMEOUT \<Rightarrow> Inr (ERR, r) | RUNNING \<Rightarrow> Inl Aborted)"

definition us_per_second :: "64 word" where "us_per_second = 1000000"

text \<open>
  \<open>WaitPid\<close>: \<open>reaped\<close> and \<open>st\<close> are what \<open>waitpid\<close> returned and stored (the status is left alone
  when nothing was reaped), \<open>n\<close> the clock. \<open>Begin\<close> looks the argument's name up before the
  buffered output of the child is written. The signal of a time-out is in \<open>wait_kill\<close>. Closing the child's pipe and
  its memory stream, which are not used after it, is left out.
\<close>

definition wait_pid :: "test_process \<Rightarrow> int \<Rightarrow> int \<Rightarrow> 64 word \<Rightarrow> 'v test_case \<Rightarrow> fault + test_process \<times> result" where
  "wait_pid p reaped st n c =
    (if reaped < 0 then Inl Aborted
     else let p = p\<lparr>status := (if reaped = 0 then status p else st), usecs := n - start c\<rparr> in
     if reaped = 0 \<and> usecs p < timeout c * us_per_second then Inr (p, RUNNING)
     else if reaped \<noteq> 0 \<and> reaped \<noteq> pid p then Inl Aborted
     else bind_res (case_arg_name (tp_i p) c) (\<lambda>_.
       bind_res
         (if reaped = 0 then finish p TIMEOUT c
          else if status p \<noteq> expected c then finish p FAILURE c
          else finish p SUCCESS c) (\<lambda>x. Inr (p, snd x))))"

text \<open>
  \<^verbatim>\<open>kill(child.pid, 9)\<close>: the signals that this call of \<open>WaitPid\<close> sends, with the process each goes to. Its result is not looked
  at, and the verdict does not depend on it.
\<close>

definition wait_kill :: "test_process \<Rightarrow> int \<Rightarrow> 64 word \<Rightarrow> 'v test_case \<Rightarrow> (int \<times> int) list" where
  "wait_kill p reaped n c =
    (if reaped = 0 \<and> \<not> n - start c < timeout c * us_per_second
     then (case case_arg_name (tp_i p) c of Inl _ \<Rightarrow> [] | Inr _ \<Rightarrow> [(pid p, 9)]) else [])"

text \<open>
  \<open>WaitAll\<close>: one visit of a child is the events of its pipe, the answer of \<open>waitpid\<close> and the
  clock. A pass of the inner loop visits the children in order. After \<open>_children.erase(it)\<close> the
  loop increments the erased iterator.
\<close>

record visit =
  v_pipe :: "pipe_event list"
  v_reaped :: int
  v_status :: int
  v_now :: "64 word"

definition visit_child :: "test_process \<Rightarrow> visit \<Rightarrow> 'v test_case \<Rightarrow> (fault + test_process \<times> result) option" where
  "visit_child p v c = (case flush_child p (v_pipe v) of None \<Rightarrow> None
     | Some (Inl e) \<Rightarrow> Some (Inl e)
     | Some (Inr p) \<Rightarrow> Some (wait_pid p (v_reaped v) (v_status v) (v_now v) c))"

fun wait_pass ::
  "test_process list \<Rightarrow> visit list \<Rightarrow> 'v test_case \<Rightarrow> (fault + test_process list \<times> visit list) option" where
  "wait_pass [] vs c = Some (Inr ([], vs))"
| "wait_pass (p # ps) [] c = None"
| "wait_pass (p # ps) (v # vs) c = (case visit_child p v c of None \<Rightarrow> None
     | Some (Inl e) \<Rightarrow> Some (Inl e)
     | Some (Inr (p, r)) \<Rightarrow>
         if r \<noteq> RUNNING then Some (Inl Bad_Iterator)
         else (case wait_pass ps vs c of None \<Rightarrow> None
           | Some (Inl e) \<Rightarrow> Some (Inl e)
           | Some (Inr (ps, vs)) \<Rightarrow> Some (Inr (p # ps, vs))))"

lemma wait_pass_shorter:
  "wait_pass ps vs c = Some (Inr (qs, ws)) \<Longrightarrow> length qs = length ps \<and> length vs = length ps + length ws"
proof (induction ps vs c arbitrary: qs ws rule: wait_pass.induct)
  case (3 p ps v vs c)
  then show ?case
    by (auto split: option.splits sum.splits if_splits)
qed auto

function wait_all :: "visit list \<Rightarrow> 'v test_case \<Rightarrow> (fault + bool) option" where
  "wait_all vs c = (if children c = [] then Some (Inr True)
     else case wait_pass (children c) vs c of None \<Rightarrow> None
       | Some (Inl e) \<Rightarrow> Some (Inl e)
       | Some (Inr (ps, vs)) \<Rightarrow> wait_all vs (c\<lparr>children := ps\<rparr>))"
  by pat_completeness auto
termination
  by (relation "measure (\<lambda>(vs, c). length vs)") (auto dest: wait_pass_shorter)

declare wait_all.simps [simp del]

section \<open>The registry\<close>

text \<open>
  \<open>tests()\<close>, a map from names; \<open>Register\<close> overwrites. \<open>Run\<close> of an unknown name returns false
  (after a message on \<open>BRK\<close>). A test is called with what the operating system does; in the parent
  \<open>NamedTest::operator()\<close> runs one process and returns a local it never assigned.
\<close>

type_synonym 't registry = "string \<rightharpoonup> 't"

definition register_test :: "string \<Rightarrow> 't \<Rightarrow> 't registry \<Rightarrow> 't registry" where
  "register_test name t m = m(name \<mapsto> t)"

definition run_test :: "string \<Rightarrow> ('t \<Rightarrow> (fault + bool) option) \<Rightarrow> 't registry \<Rightarrow> (fault + bool) option" where
  "run_test name call m = (case m name of None \<Rightarrow> Some (Inr False) | Some t \<Rightarrow> call t)"

definition named_test :: "'v list \<Rightarrow> 64 word \<Rightarrow> int \<Rightarrow> visit list \<Rightarrow> (fault + bool) option" where
  "named_test vs now p visits =
    (let c = case_timeout 0 (case_name ''...'' (case_args vs (new_case (length vs)))) in
     case wait_all visits (case_fork 0 now p c) of None \<Rightarrow> None
     | Some (Inl e) \<Rightarrow> Some (Inl e)
     | Some (Inr _) \<Rightarrow> Some (Inl Uninit_Read))"

section \<open>Rows of arguments\<close>

lemma args_add_nth: "length ms = length vs \<Longrightarrow> length (args_add ms vs) = length ms \<and>
    (\<forall>j < length ms. args_add ms vs ! j = ms ! j @ [vs ! j])"
proof (induction ms vs rule: args_add.induct)
  case (1 m ms v vs)
  then show ?case by (auto simp: less_Suc_eq_0_disj)
qed auto

lemma args_rows:
  assumes "\<forall>r \<in> set rows. length r = n"
  shows "fold (\<lambda>r ms. args_add ms r) rows (replicate n []) = map (\<lambda>j. map (\<lambda>r. r ! j) rows) [0..<n]"
  using assms
proof (induction rows rule: rev_induct)
  case Nil
  then show ?case by (simp add: map_replicate_const)
next
  case (snoc r rows)
  then have IH: "fold (\<lambda>r ms. args_add ms r) rows (replicate n []) = map (\<lambda>j. map (\<lambda>r. r ! j) rows) [0..<n]"
    and r: "length r = n" by simp_all
  show ?case using args_add_nth [of "map (\<lambda>j. map (\<lambda>r. r ! j) rows) [0..<n]" r] r
    by (intro nth_equalityI) (simp_all add: IH)
qed

lemma call_helper_row:
  "call_helper l ms as f = (if \<forall>m \<in> set ms. l < length m then Inr (f (as @ map (\<lambda>m. m ! l) ms)) else Inl Out_Of_Bounds)"
  by (induction ms arbitrary: as) auto

section \<open>The verdict\<close>

lemma finish_simps:
  "tp_i p < length (arg_names c) \<Longrightarrow> r \<noteq> RUNNING \<Longrightarrow> finish p r c = Inr (if r = SUCCESS then OUT else ERR, r)"
  by (cases r) (simp_all add: finish_def case_arg_name_def)

lemma flush_no_end:
  "set es \<subseteq> {Again} \<union> Data ` {s. s \<noteq> []} \<Longrightarrow> flush_child p es = None"
  by (induction es arbitrary: p) auto

section \<open>WaitAll\<close>

lemma wait_pass_running:
  "wait_pass ps vs c = Some (Inr (qs, ws)) \<Longrightarrow> ps \<noteq> [] \<Longrightarrow> qs \<noteq> []"
  using wait_pass_shorter by fastforce

lemma wait_all_never_true:
  "wait_all vs c = Some (Inr b) \<Longrightarrow> children c = []"
proof (induction vs c rule: wait_all.induct)
  case (1 vs c)
  show ?case
  proof (rule ccontr)
    assume ne: "children c \<noteq> []"
    with "1.prems" obtain ps ws where p: "wait_pass (children c) vs c = Some (Inr (ps, ws))"
      "wait_all ws (c\<lparr>children := ps\<rparr>) = Some (Inr b)"
      by (subst (asm) wait_all.simps) (auto split: option.splits sum.splits)
    then have "children (c\<lparr>children := ps\<rparr>) = []" using "1.IH" [OF ne p(1)] by auto
    then show False using wait_pass_running [OF p(1) ne] by simp
  qed
qed

text \<open>\<open>WaitPid\<close> kills the child exactly when its verdict is that the time is over, and never another process.\<close>

lemma wait_kill_timeout:
  "wait_kill p reaped n c = (if \<exists>q. wait_pid p reaped st n c = Inr (q, TIMEOUT) then [(pid p, 9)] else [])"
  by (auto simp: wait_kill_def wait_pid_def finish_def Let_def bind_res_Inr_iff split: sum.splits)

section \<open>Properties\<close>

text \<open>
  The rows of arguments come back. After any rows have been added to a case of \<open>n\<close>
  parameters (\<open>0 < n\<close>), the number of rows is counted, calling row \<open>i\<close> gives the test function
  exactly the \<open>i\<close>-th row, in the order of the parameters, restores the indentation and installs the
  default handler for the fatal signals; beyond the last row the vectors are accessed out of bounds.
\<close>

theorem case_rows:
  assumes "\<forall>r \<in> set rows. length r = n" "0 < n" "0 \<le> ind"
  shows "args_num (args (fold case_args rows (new_case n))) = length rows \<and>
    case_call i (fold case_args rows (new_case n)) f ind hs =
      (if i < length rows then Inr (f (ind + 1) (rows ! i), ind, set_handlers Default_Handler hs) else Inl Out_Of_Bounds)"
proof -
  have a: "args (fold case_args rows c) = fold (\<lambda>r ms. args_add ms r) rows (args c)" for c :: "'a test_case"
    by (induction rows arbitrary: c) (simp_all add: case_args_def)
  have cols: "args (fold case_args rows (new_case n)) = map (\<lambda>j. map (\<lambda>r. r ! j) rows) [0..<n]"
    using a args_rows [OF assms(1)] by (simp add: new_case_def)
  have "map (\<lambda>m. m ! i) (map (\<lambda>j. map (\<lambda>r. r ! j) rows) [0..<n]) = rows ! i" if "i < length rows"
  proof (rule nth_equalityI)
    show "length (map (\<lambda>m. m ! i) (map (\<lambda>j. map (\<lambda>r. r ! j) rows) [0..<n])) = length (rows ! i)"
      using assms(1) that by simp
  qed (use that in simp)
  then have "args_call i (map (\<lambda>j. map (\<lambda>r. r ! j) rows) [0..<n]) g = (if i < length rows then Inr (g (rows ! i)) else Inl Out_Of_Bounds)" for g :: "'a list \<Rightarrow> 'b"
    using assms(2) by (auto simp: args_call_def call_helper_row)
  moreover have "args_num (map (\<lambda>j. map (\<lambda>r. r ! j) rows) [0..<n]) = length rows"
    using assms(2) by (simp add: args_num_def upt_conv_Cons)
  ultimately show ?thesis using assms(3) by (simp add: cols case_call_def indent_def unindent_def Let_def)
qed

lemma case_rows_witness:
  "case_call 1 (fold case_args [[1, 2], [3, 4]] (new_case 2)) (\<lambda>ind vs. (ind, sum_list vs)) 0 (\<lambda>_. Default_Action) =
    Inr ((1, 7 :: nat), 0, set_handlers Default_Handler (\<lambda>_. Default_Action))"
  using case_rows [where rows = "[[1, 2], [3, 4 :: nat]]" and n = 2 and i = 1 and f = "\<lambda>ind vs. (ind, sum_list vs)" and ind = 0
      and hs = "\<lambda>_. Default_Action"]
  by simp

text \<open>
  C22: The verdict on a child. For a child whose argument row has a name: while it has not ended
  it is running until the time-out is over and has timed out from then on; once it has ended it
  has succeeded exactly when its wait status is the expected number, so a normal exit with the
  code \<open>e\<close> (status \<open>256 * e\<close>) matches an expected code \<open>e\<close> only for \<open>e = 0\<close>. Reaping another
  process, or a failing call, aborts.
\<close>

theorem wait_verdict:
  assumes "tp_i p < length (arg_names c)" "0 \<le> reaped"
  shows "map_sum id snd (wait_pid p reaped st n c) =
    (if reaped = 0 then Inr (if n - start c < timeout c * us_per_second then RUNNING else TIMEOUT)
     else if reaped \<noteq> pid p then Inl Aborted
     else Inr (if st = expected c then SUCCESS else FAILURE)) \<and>
   (st = 256 * e \<and> expected c = e \<and> reaped = pid p \<and> pid p \<noteq> 0 \<longrightarrow>
     map_sum id snd (wait_pid p reaped st n c) = Inr (if e = 0 then SUCCESS else FAILURE))"
  using assms by (simp add: wait_pid_def Let_def finish_simps case_arg_name_def)

lemma wait_verdict_witness:
  "map_sum id snd (wait_pid \<lparr>tp_i = 0, pid = 42, status = 0, usecs = 0, buf = []\<rparr> 42 768 5
     (case_expect 3 (case_name ''a'' (new_case 1)))) = Inr FAILURE"
proof -
  have "tp_i \<lparr>tp_i = 0, pid = 42, status = 0, usecs = 0, buf = []\<rparr> < length (arg_names (case_expect 3 (case_name ''a'' (new_case 1))))"
    by (simp add: case_expect_def case_name_def new_case_def)
  from wait_verdict [OF this, of 42 768 5 3] show ?thesis
    by (simp add: case_expect_def case_name_def new_case_def)
qed

text \<open>
  \<open>WaitAll\<close> of a case with children never returns a verdict: it waits, aborts, or increments
  an iterator whose element it has just erased, and the last is what happens at the first child
  that ends. So a \<open>NamedTest\<close> never returns a value either, the one it would return being a
  variable that was never assigned.
\<close>

theorem wait_all_erased_iterator:
  assumes "children c = p # ps" "visit_child p v c = Some (Inr (p', r))"
  shows "(r \<noteq> RUNNING \<longrightarrow> wait_all (v # vs) c = Some (Inl Bad_Iterator)) \<and>
    (\<forall>vs b. wait_all vs c \<noteq> Some (Inr b)) \<and> (\<forall>b. named_test as now q visits \<noteq> Some (Inr b))"
proof -
  have "wait_all vs c \<noteq> Some (Inr b)" for vs b using wait_all_never_true assms(1) by fastforce
  then show ?thesis using assms
    by (simp add: wait_all.simps [of "v # vs"] named_test_def Let_def split: option.splits sum.splits)
qed

lemma wait_all_erased_iterator_witness:
  "wait_all [\<lparr>v_pipe = [End_Of_Pipe], v_reaped = 42, v_status = 0, v_now = 5\<rparr>]
     (case_fork 0 1 42 (case_name ''a'' (new_case 1 :: nat test_case))) = Some (Inl Bad_Iterator)"
proof -
  let ?c = "case_fork 0 1 42 (case_name ''a'' (new_case 1 :: nat test_case))"
  let ?p = "\<lparr>tp_i = 0, pid = 42, status = 0, usecs = 0, buf = []\<rparr>"
  let ?v = "\<lparr>v_pipe = [End_Of_Pipe], v_reaped = 42, v_status = 0, v_now = 5\<rparr>"
  have c: "children ?c = [?p]" by (simp add: case_fork_def case_name_def new_case_def insert_child_def)
  obtain p' where "visit_child ?p ?v ?c = Some (Inr (p', SUCCESS))"
    by (simp add: visit_child_def wait_pid_def Let_def finish_simps case_arg_name_def case_fork_def case_name_def new_case_def)
  from wait_all_erased_iterator [OF c this, THEN conjunct1] show ?thesis by simp
qed

text \<open>
  \<open>Flush\<close> collects all that the child wrote and returns only at the end of the pipe. While a
  child keeps its end open the visit does not come to an end, whatever the clock says: such a
  child never times out.
\<close>

theorem flush_until_end:
  assumes "set es \<subseteq> {Again} \<union> Data ` {s. s \<noteq> []}"
  shows "flush_child p es = None \<and>
    flush_child p (es @ End_Of_Pipe # es') = Some (Inr (p\<lparr>buf := buf p @ concat (map (\<lambda>e. case e of Data s \<Rightarrow> s | _ \<Rightarrow> []) es)\<rparr>)) \<and>
    visit_child p \<lparr>v_pipe = es, v_reaped = r, v_status = st, v_now = n\<rparr> c = None"
proof -
  have "flush_child p (es @ End_Of_Pipe # es') = Some (Inr (p\<lparr>buf := buf p @ concat (map (\<lambda>e. case e of Data s \<Rightarrow> s | _ \<Rightarrow> []) es)\<rparr>))"
    using assms by (induction es arbitrary: p) (auto split: pipe_event.splits)
  then show ?thesis using flush_no_end [OF assms] by (simp add: visit_child_def)
qed

lemma flush_until_end_witness:
  "\<exists>p. flush_child \<lparr>tp_i = 0, pid = 42, status = 0, usecs = 0, buf = []\<rparr> [Data ''ab'', Again, Data ''c'', End_Of_Pipe] = Some (Inr p) \<and>
    buf p = ''abc''"
  using flush_until_end [of "[Data ''ab'', Again, Data ''c'']" "\<lparr>tp_i = 0, pid = 42, status = 0, usecs = 0, buf = []\<rparr>" "[]"]
  by simp

end
