(* ===== verification/Test_Fork.thy ===== *)
theory Test_Fork
  imports Test_Case
begin

text \<open>
  Both sides of \<open>Case::Fork\<close>, \<open>Case::ForkAll\<close> and \<open>TestRun\<close> of \<^verbatim>\<open>src/cases.hpp\<close>: which process runs
  which row of arguments, and which ends of the pipes each process has open. A process is
  followed through its forks: what \<^verbatim>\<open>fork\<close> returned to it is an event, a process number in the
  parent and 0 in the child. The descriptors that \<^verbatim>\<open>pipe2\<close> chose are part of the event.
\<close>

section \<open>Processes and descriptors\<close>

datatype fd_object = Read_End nat | Write_End nat | Other_File

record proc =
  fd_table :: "int \<rightharpoonup> fd_object"
  pipes :: nat                 \<comment> \<open>pipes made so far; the next one has this number\<close>
  is_parent :: bool            \<comment> \<open>\<open>TestRun::parent\<close>\<close>
  called :: "(nat \<times> nat) list" \<comment> \<open>the rows this process has run: the number of the case, the row\<close>

record fork_event =
  ev_read :: int
  ev_write :: int
  ev_pid :: int
  ev_now :: "64 word"

definition sys_close :: "int \<Rightarrow> proc \<Rightarrow> fault + proc" where
  "sys_close fd s = (case fd_table s fd of None \<Rightarrow> Inl Aborted | Some _ \<Rightarrow> Inr (s\<lparr>fd_table := (fd_table s)(fd := None)\<rparr>))"

definition sys_dup2 :: "int \<Rightarrow> int \<Rightarrow> proc \<Rightarrow> fault + proc" where
  "sys_dup2 old new s = (case fd_table s old of None \<Rightarrow> Inl Aborted | Some x \<Rightarrow> Inr (s\<lparr>fd_table := (fd_table s)(new \<mapsto> x)\<rparr>))"

definition sys_pipe2 :: "fork_event \<Rightarrow> proc \<Rightarrow> proc" where
  "sys_pipe2 e s = s\<lparr>fd_table := (fd_table s)(ev_read e \<mapsto> Read_End (pipes s), ev_write e \<mapsto> Write_End (pipes s)), pipes := pipes s + 1\<rparr>"

text \<open>
  \<open>Fork(i)\<close> of case number \<open>j\<close>. In the parent the child is recorded in the case; the child moves its end
  of the pipe to its standard output and error and calls the test. Failing system calls abort.
\<close>

definition fork_row :: "nat \<Rightarrow> nat \<Rightarrow> fork_event \<Rightarrow> 'v test_case \<times> proc \<Rightarrow> fault + 'v test_case \<times> proc" where
  "fork_row j i e = (\<lambda>(c, s). let s = sys_pipe2 e s in
     if ev_pid e < 0 then Inl Aborted
     else if ev_pid e \<noteq> 0 then
       bind_res (sys_close (ev_write e) (s\<lparr>is_parent := True\<rparr>)) (\<lambda>s.
       Inr (case_fork i (ev_now e) (ev_pid e) c, s))
     else
       bind_res (sys_close (ev_read e) (s\<lparr>is_parent := False\<rparr>)) (\<lambda>s.
       bind_res (sys_dup2 (ev_write e) 1 s) (\<lambda>s.
       bind_res (sys_dup2 1 2 s) (\<lambda>s.
       Inr (c\<lparr>start := ev_now e\<rparr>, s\<lparr>called := called s @ [(j, i)]\<rparr>)))))"

text \<open>\<open>ForkAll\<close>, from row \<open>i\<close> on: \<open>k\<close> rows are left.\<close>

fun fork_rows :: "nat \<Rightarrow> nat \<Rightarrow> nat \<Rightarrow> fork_event list \<Rightarrow> 'v test_case \<times> proc \<Rightarrow> (fault + 'v test_case \<times> proc) option" where
  "fork_rows j 0 i es x = Some (Inr x)"
| "fork_rows j (Suc k) i [] x = None"
| "fork_rows j (Suc k) i (e # es) x = (case fork_row j i e x of
       Inl f \<Rightarrow> Some (Inl f)
     | Inr x \<Rightarrow> if is_parent (snd x) then fork_rows j k (Suc i) es x else Some (Inr x))"

definition fork_all_rows :: "nat \<Rightarrow> fork_event list \<Rightarrow> 'v test_case \<times> proc \<Rightarrow> (fault + 'v test_case \<times> proc) option" where
  "fork_all_rows j es x = (case case_num (fst x) of Inl f \<Rightarrow> Some (Inl f) | Inr n \<Rightarrow> fork_rows j n 0 es x)"

section \<open>TestRun\<close>

text \<open>
  The constructor goes through the cases: it forks all rows, waits in the parent, and leaves the
  loop in a child. At the end the parent exits; a child returns from the constructor and goes on
  with whatever follows. \<open>WaitAll\<close> is called with its default, so a failed case aborts.
\<close>

datatype run_end = Exited int | Goes_On proc

record 'v planned =
  the_case :: "'v test_case"
  forks :: "fork_event list"
  visits :: "visit list"

fun test_run :: "nat \<Rightarrow> 'v planned list \<Rightarrow> proc \<Rightarrow> (fault + run_end) option" where
  "test_run j [] s = Some (Inr (if is_parent s then Exited 0 else Goes_On s))"
| "test_run j (p # ps) s = (case fork_all_rows j (forks p) (the_case p, s) of
       None \<Rightarrow> None
     | Some (Inl f) \<Rightarrow> Some (Inl f)
     | Some (Inr (c, s)) \<Rightarrow>
         if is_parent s then
           (case wait_all (visits p) c of
              None \<Rightarrow> None
            | Some (Inl f) \<Rightarrow> Some (Inl f)
            | Some (Inr success) \<Rightarrow> if success then test_run (Suc j) ps s else Some (Inl Aborted))
         else Some (Inr (Goes_On s)))"

section \<open>One fork\<close>

text \<open>What a system gives: two new descriptors, other than standard output and error.\<close>

definition fresh_fds :: "fork_event \<Rightarrow> proc \<Rightarrow> bool" where
  "fresh_fds e s \<longleftrightarrow> ev_read e \<noteq> ev_write e \<and> fd_table s (ev_read e) = None \<and> fd_table s (ev_write e) = None \<and>
     ev_read e \<notin> {1, 2} \<and> ev_write e \<notin> {1, 2}"

lemma fork_row_parent:
  assumes "fresh_fds e s" "0 < ev_pid e"
  shows "fork_row j i e (c, s) = Inr (case_fork i (ev_now e) (ev_pid e) c,
    s\<lparr>fd_table := (fd_table s)(ev_read e \<mapsto> Read_End (pipes s)), pipes := pipes s + 1, is_parent := True\<rparr>)"
  using assms by (cases s) (auto simp: fork_row_def fresh_fds_def sys_pipe2_def sys_close_def Let_def intro!: ext)

lemma fork_row_child:
  assumes "fresh_fds e s" "ev_pid e = 0"
  shows "fork_row j i e (c, s) = Inr (c\<lparr>start := ev_now e\<rparr>,
    s\<lparr>fd_table := (fd_table s)(ev_write e \<mapsto> Write_End (pipes s), 1 \<mapsto> Write_End (pipes s), 2 \<mapsto> Write_End (pipes s)),
      pipes := pipes s + 1, is_parent := False, called := called s @ [(j, i)]\<rparr>)"
  using assms
  by (cases s) (auto simp: fork_row_def fresh_fds_def sys_pipe2_def sys_close_def sys_dup2_def Let_def intro!: ext)

section \<open>All forks of a case\<close>

definition after_parent :: "fork_event \<Rightarrow> proc \<Rightarrow> proc" where
  "after_parent e s = s\<lparr>fd_table := (fd_table s)(ev_read e \<mapsto> Read_End (pipes s)), pipes := pipes s + 1, is_parent := True\<rparr>"

fun all_fresh :: "fork_event list \<Rightarrow> proc \<Rightarrow> bool" where
  "all_fresh [] s = True"
| "all_fresh (e # es) s = (fresh_fds e s \<and> all_fresh es (after_parent e s))"

fun parent_case :: "nat \<Rightarrow> fork_event list \<Rightarrow> 'v test_case \<Rightarrow> 'v test_case" where
  "parent_case i [] c = c"
| "parent_case i (e # es) c = parent_case (Suc i) es (case_fork i (ev_now e) (ev_pid e) c)"

text \<open>The path of child \<open>k\<close>: the parent's forks before it, and its own, which returned 0.\<close>

definition child_path :: "fork_event list \<Rightarrow> nat \<Rightarrow> fork_event list" where
  "child_path es k = take k es @ [(es ! k)\<lparr>ev_pid := 0\<rparr>]"

lemma fork_rows_parents:
  assumes "all_fresh es s" "\<forall>e \<in> set es. 0 < ev_pid e"
  shows "fork_rows j (length es + k) i (es @ rest) (c, s) =
    fork_rows j k (i + length es) rest (parent_case i es c, fold after_parent es s)"
  using assms
proof (induction es arbitrary: i c s)
  case (Cons e es)
  then show ?case using fork_row_parent [of e s j i c] by (simp add: after_parent_def)
qed simp

lemma parents_state:
  "called (fold after_parent es s) = called s" "pipes (fold after_parent es s) = pipes s + length es"
  "is_parent (fold after_parent es s) = (is_parent s \<or> es \<noteq> [])"
  by (induction es arbitrary: s) (simp_all add: after_parent_def)

lemma parents_writers:
  assumes "all_fresh es s"
  shows "fd_table (fold after_parent es s) x = Some (Write_End m) \<longleftrightarrow> fd_table s x = Some (Write_End m)"
  using assms
proof (induction es arbitrary: s)
  case (Cons e es)
  then show ?case by (auto simp: after_parent_def fresh_fds_def)
qed simp

lemma parents_keep: "all_fresh es s \<Longrightarrow> fd_table s x = Some y \<Longrightarrow> fd_table (fold after_parent es s) x = Some y"
proof (induction es arbitrary: s)
  case (Cons e es)
  have "fd_table (after_parent e s) x = Some y" using Cons.prems by (auto simp: after_parent_def fresh_fds_def)
  then show ?case using Cons by simp
qed simp

lemma parents_readers:
  assumes "all_fresh es s" "m < length es"
  shows "fd_table (fold after_parent es s) (ev_read (es ! m)) = Some (Read_End (pipes s + m))"
  using assms
proof (induction es arbitrary: s m)
  case (Cons e es)
  show ?case
  proof (cases m)
    case 0
    have "fd_table (after_parent e s) (ev_read e) = Some (Read_End (pipes s))" by (simp add: after_parent_def)
    then show ?thesis using Cons.prems(1) 0 parents_keep by simp
  next
    case (Suc m')
    then show ?thesis using Cons.IH [of "after_parent e s" m'] Cons.prems by (simp add: after_parent_def)
  qed
qed simp

lemma all_fresh_append: "all_fresh (es @ fs) s \<longleftrightarrow> all_fresh es s \<and> all_fresh fs (fold after_parent es s)"
  by (induction es arbitrary: s) simp_all

lemma child_rows:
  assumes "all_fresh es s" "\<forall>e \<in> set es. 0 < ev_pid e" "k < length es"
  defines "e \<equiv> es ! k" and "t \<equiv> fold after_parent (take k es) s"
  shows "fork_rows j (length es) 0 (child_path es k @ rest) (c, s) = Some (Inr ((parent_case 0 (take k es) c)\<lparr>start := ev_now e\<rparr>,
    t\<lparr>fd_table := (fd_table t)(ev_write e \<mapsto> Write_End (pipes s + k), 1 \<mapsto> Write_End (pipes s + k), 2 \<mapsto> Write_End (pipes s + k)),
      pipes := pipes s + k + 1, is_parent := False, called := called s @ [(j, k)]\<rparr>))"
proof -
  have split: "es = take k es @ e # drop (Suc k) es" using assms(3) by (simp add: e_def id_take_nth_drop)
  then have fr: "all_fresh (take k es) s" "fresh_fds e t"
    using assms(1) all_fresh_append [of "take k es" "e # drop (Suc k) es" s] by (simp_all add: t_def)
  have fr0: "fresh_fds (e\<lparr>ev_pid := 0\<rparr>) t" using fr(2) by (simp add: fresh_fds_def)
  have pos: "\<forall>e \<in> set (take k es). 0 < ev_pid e" using assms(2) by (auto dest: in_set_takeD)
  obtain r where r: "length es = length (take k es) + Suc r" using assms(3) by (metis add_Suc_right length_take less_imp_Suc_add min.absorb4)
  have "length (take k es) = k" using assms(3) by simp
  then have "fork_rows j (length es) 0 (child_path es k @ rest) (c, s) =
      fork_rows j (Suc r) k (e\<lparr>ev_pid := 0\<rparr> # rest) (parent_case 0 (take k es) c, t)"
    unfolding r child_path_def using fork_rows_parents [OF fr(1) pos, of j "Suc r" 0 "e\<lparr>ev_pid := 0\<rparr> # rest" c]
    by (simp add: e_def t_def)
  moreover have "pipes t = pipes s + k" "called t = called s" using assms(3) by (simp_all add: t_def parents_state)
  ultimately show ?thesis using fork_row_child [OF fr0, of j k "parent_case 0 (take k es) c"] by simp
qed

lemma set_insert_child:
  "pid p \<notin> pid ` set cs \<Longrightarrow> set (insert_child p cs) = insert p (set cs)"
  by (simp add: insert_child_def set_insort_key)

lemma insert_child_not_Nil: "insert_child p cs \<noteq> []"
proof (cases "pid p \<in> pid ` set cs")
  case True
  then show ?thesis by (auto simp: insert_child_def)
next
  case False
  then show ?thesis using set_insert_child [OF False] by auto
qed

text \<open>The children the parent knows: for each fork its process number and its row.\<close>

lemma parent_children:
  assumes "distinct (map ev_pid es)" "pid ` set (children c) \<inter> ev_pid ` set es = {}"
  shows "(\<lambda>p. (pid p, tp_i p)) ` set (children (parent_case i es c)) =
    (\<lambda>p. (pid p, tp_i p)) ` set (children c) \<union> (\<lambda>m. (ev_pid (es ! m), i + m)) ` {..<length es}"
  using assms
proof (induction es arbitrary: i c)
  case (Cons e es)
  let ?c = "case_fork i (ev_now e) (ev_pid e) c"
  have new: "set (children ?c) = insert \<lparr>tp_i = i, pid = ev_pid e, status = 0, usecs = 0, buf = []\<rparr> (set (children c))"
    unfolding case_fork_def using Cons.prems(2) by (simp add: set_insert_child)
  have "pid ` set (children ?c) \<inter> ev_pid ` set es = {}" using Cons.prems by (auto simp: new)
  moreover have "{..<length (e # es)} = insert 0 (Suc ` {..<length es})" by (auto simp: image_iff less_Suc_eq_0_disj)
  ultimately show ?case using Cons.IH [of ?c "Suc i"] Cons.prems(1) by (simp add: new image_image)
qed simp

text \<open>A process that has become a parent has children.\<close>

lemma fork_row_children:
  "fork_row j i e (c, s) = Inr (c', s') \<Longrightarrow> is_parent s' \<Longrightarrow> children c' \<noteq> []"
  by (auto simp: fork_row_def sys_pipe2_def sys_close_def sys_dup2_def case_fork_def insert_child_not_Nil Let_def
      split: if_splits option.splits)

lemma fork_rows_children:
  "fork_rows j k i es (c, s) = Some (Inr (c', s')) \<Longrightarrow> is_parent s' \<Longrightarrow> is_parent s \<longrightarrow> children c \<noteq> [] \<Longrightarrow> children c' \<noteq> []"
proof (induction k arbitrary: i es c s)
  case (Suc k)
  then obtain e fs where es: "es = e # fs" by (cases es) auto
  with Suc.prems obtain d t where d: "fork_row j i e (c, s) = Inr (d, t)" by (auto split: sum.splits)
  show ?case
  proof (cases "is_parent t")
    case True
    then show ?thesis using Suc.IH [of "Suc i" fs d t] Suc.prems es d fork_row_children [OF d] by simp
  next
    case False
    then show ?thesis using Suc.prems(1,2) es d by simp
  qed
qed simp

section \<open>Properties\<close>

text \<open>
  C21: Who runs what. When a process forks the \<open>n\<close> rows of a case, the parent runs none, has the
  read end of every pipe and no new write end, and knows each child with its row. Child \<open>k\<close> runs
  exactly row \<open>k\<close> and leaves the loop; its output and error go to pipe \<open>k\<close>, and it has no write end
  of any other new pipe. So each row is run in exactly one process, and the end of a child is the
  end of its pipe.
\<close>

theorem rows_run_once:
  assumes "case_num c = Inr (length es)" "all_fresh es s" "\<forall>e \<in> set es. 0 < ev_pid e" "distinct (map ev_pid es)"
    and "children c = []" "\<forall>x m. fd_table s x \<noteq> Some (Write_End m)" "k < length es"
  shows "(\<exists>c' s'. fork_all_rows j es (c, s) = Some (Inr (c', s')) \<and> called s' = called s \<and> is_parent s' \<and>
      (\<forall>m < length es. fd_table s' (ev_read (es ! m)) = Some (Read_End (pipes s + m))) \<and> (\<forall>x m. fd_table s' x \<noteq> Some (Write_End m)) \<and>
      (\<lambda>p. (pid p, tp_i p)) ` set (children c') = (\<lambda>m. (ev_pid (es ! m), m)) ` {..<length es}) \<and>
    (\<exists>c' s'. fork_all_rows j (child_path es k) (c, s) = Some (Inr (c', s')) \<and> called s' = called s @ [(j, k)] \<and> \<not> is_parent s' \<and>
      fd_table s' 1 = Some (Write_End (pipes s + k)) \<and> fd_table s' 2 = Some (Write_End (pipes s + k)) \<and>
      (\<forall>x m. fd_table s' x = Some (Write_End m) \<longrightarrow> m = pipes s + k))"
proof -
  let ?t = "fold after_parent (take k es) s"
  have "all_fresh (take k es) s" using assms(2) all_fresh_append [of "take k es" "drop k es" s] by simp
  then have w: "fd_table ?t x \<noteq> Some (Write_End m)" for x m using parents_writers assms(6) by blast
  have "fork_rows j (length es) 0 es (c, s) = Some (Inr (parent_case 0 es c, fold after_parent es s))"
    using fork_rows_parents [OF assms(2,3), of j 0 0 "[]" c] by simp
  moreover have "is_parent (fold after_parent es s)" using assms(7) by (auto simp: parents_state)
  moreover have "fd_table (fold after_parent es s) x \<noteq> Some (Write_End m)" for x m
    using parents_writers [OF assms(2)] assms(6) by blast
  ultimately have parent: "fork_all_rows j es (c, s) = Some (Inr (parent_case 0 es c, fold after_parent es s)) \<and>
      called (fold after_parent es s) = called s \<and> is_parent (fold after_parent es s) \<and>
      (\<forall>m < length es. fd_table (fold after_parent es s) (ev_read (es ! m)) = Some (Read_End (pipes s + m))) \<and>
      (\<forall>x m. fd_table (fold after_parent es s) x \<noteq> Some (Write_End m)) \<and>
      (\<lambda>p. (pid p, tp_i p)) ` set (children (parent_case 0 es c)) = (\<lambda>m. (ev_pid (es ! m), m)) ` {..<length es}"
    using assms(1,2,4,5) parents_readers parent_children [of es c 0] by (simp add: fork_all_rows_def parents_state)
  have "fork_all_rows j (child_path es k) (c, s) = Some (Inr ((parent_case 0 (take k es) c)\<lparr>start := ev_now (es ! k)\<rparr>,
    ?t\<lparr>fd_table := (fd_table ?t)(ev_write (es ! k) \<mapsto> Write_End (pipes s + k), 1 \<mapsto> Write_End (pipes s + k), 2 \<mapsto> Write_End (pipes s + k)),
      pipes := pipes s + k + 1, is_parent := False, called := called s @ [(j, k)]\<rparr>))"
    using child_rows [OF assms(2,3,7), of j "[]" c] assms(1) by (simp add: fork_all_rows_def)
  then have child: "\<exists>c' s'. fork_all_rows j (child_path es k) (c, s) = Some (Inr (c', s')) \<and> called s' = called s @ [(j, k)] \<and>
      \<not> is_parent s' \<and> fd_table s' 1 = Some (Write_End (pipes s + k)) \<and> fd_table s' 2 = Some (Write_End (pipes s + k)) \<and>
      (\<forall>x m. fd_table s' x = Some (Write_End m) \<longrightarrow> m = pipes s + k)"
    using w by simp
  show ?thesis by (rule conjI [OF _ child]) (use parent in blast)
qed

text \<open>A terminal with its three descriptors, and two forks.\<close>

definition shell :: proc where
  "shell = \<lparr>fd_table = [0 \<mapsto> Other_File, 1 \<mapsto> Other_File, 2 \<mapsto> Other_File], pipes = 0, is_parent = False, called = []\<rparr>"

definition two_forks :: "fork_event list" where
  "two_forks = [\<lparr>ev_read = 3, ev_write = 4, ev_pid = 101, ev_now = 7\<rparr>, \<lparr>ev_read = 4, ev_write = 5, ev_pid = 102, ev_now = 8\<rparr>]"

definition two_rows :: "nat test_case" where
  "two_rows = fold case_args [[5], [6]] (fold case_name [''a'', ''b''] (new_case 1))"

lemma two_rows_num: "case_num two_rows = Inr (length two_forks)" "children two_rows = []"
  by (simp_all add: two_rows_def two_forks_def case_num_def case_args_def case_name_def new_case_def args_num_def)

lemma two_forks_fresh: "all_fresh two_forks shell" "\<forall>e \<in> set two_forks. 0 < ev_pid e" "distinct (map ev_pid two_forks)"
  "\<forall>x m. fd_table shell x \<noteq> Some (Write_End m)" "1 < length two_forks"
  by (simp_all add: two_forks_def shell_def fresh_fds_def after_parent_def)

lemma rows_run_once_witness:
  "(\<exists>c s. fork_all_rows 0 two_forks (two_rows, shell) = Some (Inr (c, s)) \<and> called s = []) \<and>
   (\<exists>c s. fork_all_rows 0 (child_path two_forks 1) (two_rows, shell) = Some (Inr (c, s)) \<and> called s = [(0, 1)] \<and>
     fd_table s 1 = Some (Write_End 1))"
  using rows_run_once [OF two_rows_num(1) two_forks_fresh(1,2,3) two_rows_num(2) two_forks_fresh(4,5), of 0]
  by (auto simp: shell_def)

text \<open>
  C25: The outcome of \<open>TestRun\<close>. A child of the first case that has rows returns from the
  constructor having run its row and nothing else. The parent never gets to the \<^verbatim>\<open>exit(0)\<close> at its end:
  once it has children \<open>WaitAll\<close> does not return. A case without rows ends the loop at once, because
  the flag that marks the parent is only set by a fork: the cases after it are not run.
\<close>

theorem test_run_outcome:
  assumes "\<not> is_parent s" "\<forall>p \<in> set ps. children (the_case p) = []"
  shows "(\<forall>n. test_run j ps s \<noteq> Some (Inr (Exited n))) \<and>
    (ps = p # qs \<and> case_num (the_case p) = Inr 0 \<longrightarrow> test_run j ps s = Some (Inr (Goes_On s))) \<and>
    (ps = p # qs \<and> case_num (the_case p) = Inr (length es) \<and> all_fresh es s \<and> (\<forall>e \<in> set es. 0 < ev_pid e) \<and> k < length es \<and>
       forks p = child_path es k \<longrightarrow> (\<exists>t. test_run j ps s = Some (Inr (Goes_On t)) \<and> called t = called s @ [(j, k)]))"
proof (intro conjI allI impI)
  show "test_run j ps s \<noteq> Some (Inr (Exited n))" for n
  proof (cases ps)
    case Nil
    then show ?thesis using assms(1) by simp
  next
    case (Cons p qs)
    have "wait_all vs c \<noteq> Some (Inr b)"
      if ran: "fork_all_rows j (forks p) (the_case p, s) = Some (Inr (c, t))" and parent: "is_parent t" for c t vs b
    proof -
      obtain m where "fork_rows j m 0 (forks p) (the_case p, s) = Some (Inr (c, t))"
        using ran by (cases "case_num (the_case p)") (simp_all add: fork_all_rows_def)
      then have "children c \<noteq> []" using fork_rows_children parent assms(1) by blast
      then show ?thesis using wait_all_never_true by blast
    qed
    then show ?thesis unfolding Cons by (auto split: option.splits sum.splits if_splits)
  qed
next
  assume "ps = p # qs \<and> case_num (the_case p) = Inr 0"
  then show "test_run j ps s = Some (Inr (Goes_On s))" using assms(1) by (simp add: fork_all_rows_def)
next
  assume a: "ps = p # qs \<and> case_num (the_case p) = Inr (length es) \<and> all_fresh es s \<and> (\<forall>e \<in> set es. 0 < ev_pid e) \<and> k < length es \<and>
       forks p = child_path es k"
  then obtain c t where "fork_rows j (length es) 0 (forks p) (the_case p, s) = Some (Inr (c, t))" "\<not> is_parent t"
    "called t = called s @ [(j, k)]"
    using child_rows [of es s k j "[]" "the_case p"] by auto
  then show "\<exists>t. test_run j ps s = Some (Inr (Goes_On t)) \<and> called t = called s @ [(j, k)]"
    using a by (simp add: fork_all_rows_def)
qed

lemma test_run_outcome_witness:
  "(\<exists>t. test_run 0 [\<lparr>the_case = two_rows, forks = child_path two_forks 1, visits = []\<rparr>] shell = Some (Inr (Goes_On t)) \<and>
     called t = [(0, 1)]) \<and>
   test_run 0 [\<lparr>the_case = new_case 1, forks = [], visits = []\<rparr>, \<lparr>the_case = two_rows, forks = two_forks, visits = []\<rparr>] shell =
     Some (Inr (Goes_On shell))"
proof -
  let ?p = "\<lparr>the_case = two_rows, forks = child_path two_forks 1, visits = []\<rparr>"
  let ?q = "\<lparr>the_case = new_case 1 :: nat test_case, forks = [], visits = []\<rparr>"
  let ?r = "\<lparr>the_case = two_rows, forks = two_forks, visits = []\<rparr>"
  have s: "\<not> is_parent shell" "called shell = []" by (simp_all add: shell_def)
  have n: "case_num (new_case 1 :: nat test_case) = Inr 0" "children (new_case 1 :: nat test_case) = []"
    by (simp_all add: case_num_def new_case_def args_num_def)
  show ?thesis
    using test_run_outcome [OF s(1), of "[?p]" 0 ?p "[]" two_forks 1] test_run_outcome [OF s(1), of "[?q, ?r]" 0 ?q "[?r]"]
      two_rows_num two_forks_fresh s n by (simp del: test_run.simps)
qed

end
