(* ===== verification/Util.thy ===== *)
theory Util
  imports Process
begin

text \<open>
  \<^verbatim>\<open>src/util.h\<close>: scope guards, checked system calls, the microsecond clock, the parsing of command
  lines, and stack traces. What the operating system returns, and the demangler of the C++ run
  time, are arguments.
\<close>

section \<open>Scope guards\<close>

text \<open>\<open>Auto\<close> runs its function when the scope of the guard is left; an abort does not leave it.\<close>

definition auto_scope :: "(unit, 'm) run \<Rightarrow> ('a, 'm) run \<Rightarrow> ('a, 'm) run" where
  "auto_scope func body = bind_run body (\<lambda>x. bind_run func (\<lambda>_. return_run x))"

section \<open>Checked system calls\<close>

text \<open>
  The result of a call has the type the function declares; \<open>SysCall_\<close> converts it to \<^verbatim>\<open>ssize_t\<close> for its
  test. \<open>show_int\<close> is how a stream prints an integer.
\<close>

datatype c_value = C_Int "32 word" | C_Size "64 word" | C_Pointer "64 word"

fun to_ssize :: "c_value \<Rightarrow> int" where
  "to_ssize (C_Int w) = sint w"
| "to_ssize (C_Size w) = sint w"
| "to_ssize (C_Pointer w) = sint w"

definition show_int :: "int \<Rightarrow> string" where
  "show_int i = (if i < 0 then CHR ''-'' # digits (nat (- i)) else digits (nat i))"

definition syscall_text :: "string \<Rightarrow> int \<Rightarrow> string \<Rightarrow> string" where
  "syscall_text name errno message = ''Failed syscall('' @ name @ '')!  Error('' @ show_int errno @ ''): '' @ message"

definition sys_call :: "string \<Rightarrow> string \<Rightarrow> nat \<Rightarrow> c_value \<Rightarrow> int \<Rightarrow> string \<Rightarrow> (c_value, 'm) run" where
  "sys_call name file line ret errno message =
    (if to_ssize ret < 0
     then bind_run (say FTL file line (syscall_text name errno message)) (\<lambda>_. return_run ret)
     else return_run ret)"

section \<open>The clock\<close>

definition ns_per_sec :: "64 word" where "ns_per_sec = 1000000000"
definition us_per_sec :: "64 word" where "us_per_sec = 1000000"

text \<open>\<open>now()\<close>, from the two fields of the \<^verbatim>\<open>timespec\<close>.\<close>

definition now_us :: "64 word \<Rightarrow> 64 word \<Rightarrow> 64 word" where
  "now_us tv_sec tv_nsec = (tv_sec * ns_per_sec + tv_nsec) div (ns_per_sec div us_per_sec)"

section \<open>Command lines\<close>

text \<open>
  Arguments of the types with which \<open>parse_arguments\<close> is used: what a stream's \<open>>>\<close> stores in a
  variable with a given value. Leading white space is skipped, and nothing is stored when nothing
  else is there; a number without digits is 0, one outside of \<^verbatim>\<open>int\<close> is the nearest bound.
\<close>

datatype arg_value = Int_Arg int | Char_Arg char | String_Arg string

definition is_space :: "char \<Rightarrow> bool" where
  "is_space c \<longleftrightarrow> c \<in> {CHR '' '', CHR 0x09, newline, CHR 0x0B, CHR 0x0C, CHR 0x0D}"

definition is_digit :: "char \<Rightarrow> bool" where
  "is_digit c \<longleftrightarrow> 48 \<le> (of_char c :: nat) \<and> (of_char c :: nat) \<le> 57"

definition value_of :: "string \<Rightarrow> int" where
  "value_of ds = foldl (\<lambda>n d. 10 * n + (of_char d - 48)) 0 ds"

definition to_int32 :: "int \<Rightarrow> int" where
  "to_int32 i = max (- (2 ^ 31)) (min (2 ^ 31 - 1) i)"

definition read_int :: "string \<Rightarrow> int" where
  "read_int s = (case s of [] \<Rightarrow> 0
     | c # cs \<Rightarrow> if c = CHR ''-'' then to_int32 (- value_of (takeWhile is_digit cs))
         else if c = CHR ''+'' then to_int32 (value_of (takeWhile is_digit cs))
         else to_int32 (value_of (takeWhile is_digit s)))"

definition read_value :: "arg_value \<Rightarrow> string \<Rightarrow> arg_value" where
  "read_value t s = (case dropWhile is_space s of [] \<Rightarrow> t
     | c # cs \<Rightarrow> (case t of
           Int_Arg _ \<Rightarrow> Int_Arg (read_int (c # cs))
         | Char_Arg _ \<Rightarrow> Char_Arg c
         | String_Arg _ \<Rightarrow> String_Arg (takeWhile (\<lambda>c. \<not> is_space c) (c # cs))))"

text \<open>
  \<open>parse_arguments\<close>, with its variables as a list. \<^verbatim>\<open>argv\<close> ends with a null pointer; inserting it into a
  stream, and going beyond it, are undefined.
\<close>

definition count_condition :: "nat \<Rightarrow> string" where
  "count_condition n = (if n = 0 then ''(argc) == (1)'' else ''(argc) == (sizeof...(t) + 2)'')"

definition count_message :: "int \<Rightarrow> nat \<Rightarrow> string" where
  "count_message argc n = versus (show_int argc) (show_int (int n + 1)) ''Wrong number of arguments!''"

fun parse_arguments ::
  "string \<Rightarrow> int \<Rightarrow> string option list \<Rightarrow> arg_value list \<Rightarrow> (bool \<times> arg_value list, 'm) run" where
  "parse_arguments file argc argv [] =
     bind_run (expect_that (argc = 1) (count_condition 0) (count_message argc 0) file 56)
       (\<lambda>_. return_run (True, []))"
| "parse_arguments file argc argv (t # ts) =
     bind_run (expect_that (argc = int (length ts) + 2) (count_condition (length ts + 1))
         (count_message argc (length ts + 1)) file 63)
       (\<lambda>_. case argv of
           _ # Some s # rest \<Rightarrow> bind_run (parse_arguments file (argc - 1) (Some s # rest) ts)
             (\<lambda>(b, us). return_run (b, read_value t s # us))
         | _ # None # rest \<Rightarrow> fail_run Null_Deref
         | _ \<Rightarrow> fail_run Out_Of_Bounds)"

section \<open>Stack traces\<close>

text \<open>
  A symbol of \<^verbatim>\<open>backtrace_symbols\<close>: the last opening parenthesis and the last plus sign, then the two
  strings that are left when both are overwritten with NUL. The buffer for a name that cannot be
  demangled has 1000 bytes.
\<close>

fun scan_symbol :: "string \<Rightarrow> nat \<Rightarrow> nat option \<Rightarrow> nat option \<Rightarrow> nat option \<times> nat option" where
  "scan_symbol [] j b e = (b, e)"
| "scan_symbol (c # cs) j b e =
     (if c = CHR ''('' then scan_symbol cs (Suc j) (Some j) e
      else if c = CHR ''+'' then scan_symbol cs (Suc j) b (Some j)
      else scan_symbol cs (Suc j) b e)"

definition symbol_name :: "(string \<Rightarrow> string option) \<Rightarrow> string \<Rightarrow> fault + string" where
  "symbol_name demangle name = (case demangle name of Some r \<Rightarrow> Inr r
     | None \<Rightarrow> if length name + 3 \<le> 1000 then Inr (name @ ''()'') else Inl Out_Of_Bounds)"

definition trace_line :: "(string \<Rightarrow> string option) \<Rightarrow> string \<Rightarrow> fault + string" where
  "trace_line demangle s = (case scan_symbol s 0 None None of
       (Some b, Some e) \<Rightarrow> (let s' = s[b := nul, e := nul]
         in bind_res (symbol_name demangle (c_string (drop (Suc b) s'))) (\<lambda>f.
            Inr (c_string s' @ '':'' @ f @ [newline])))
     | _ \<Rightarrow> Inr (s @ [newline]))"

fun trace_lines :: "(string \<Rightarrow> string option) \<Rightarrow> string list \<Rightarrow> dump \<Rightarrow> fault + dump" where
  "trace_lines demangle [] d = Inr d"
| "trace_lines demangle (s # frames) d =
     bind_res (trace_line demangle s) (\<lambda>l. trace_lines demangle frames (dump_append l d))"

text \<open>\<open>print_trace\<close>: at most 100 frames, without its own.\<close>

definition print_trace :: "(string \<Rightarrow> string option) \<Rightarrow> string list \<Rightarrow> dump \<Rightarrow> fault + dump" where
  "print_trace demangle frames d = trace_lines demangle (drop 1 (take 100 frames)) d"

section \<open>Command lines parsed\<close>

text \<open>The line of the first assertion that a call with the wrong number of arguments meets.\<close>

definition wrong_count :: "string \<Rightarrow> int \<Rightarrow> nat \<Rightarrow> env \<Rightarrow> (ostream \<times> string) list" where
  "wrong_count file argc n = said BRK file (if n = 0 then 56 else 63)
     (failed_assertion (count_condition n) (count_message argc n))"

lemma expect_that_True [run_simps]: "expect_that True c x file line w = Some (Inr (), w)"
  by (simp add: expect_that_def run_simps)

lemma parse_right:
  "length as = length ts \<Longrightarrow> parse_arguments file (int (length ts) + 1) (p # map Some as @ [None]) ts w =
     Some (Inr (True, map2 read_value ts as), w)"
proof (induction ts arbitrary: p as)
  case (Cons t ts)
  then obtain a bs where as: "as = a # bs" "length bs = length ts" by (cases as) auto
  show ?case using Cons.IH [OF as(2), of "Some a"] by (simp add: as run_simps add.commute)
qed (simp add: run_simps)

text \<open>With as many confirmations as there are assertions to fail.\<close>

lemma parse_confirmed:
  assumes "length as \<noteq> length ts" "printable 63 w"
    and "stdin w = replicate (min (length as) (length ts) + 1) CHR ''y'' @ rest"
  shows "\<exists>v. parse_arguments file (int (length as) + 1) (p # map Some as @ [None]) ts w =
     Some (if length as < length ts then Inl Null_Deref else Inr (True, map2 read_value ts as), v) \<and> stdin v = rest"
  using assms
proof (induction ts arbitrary: p as w)
  case Nil
  then have "printable 56 w" by (simp add: printable_def)
  then show ?case using Nil by (auto simp: expect_that_def say_goes_on bind_run_def return_run_def)
next
  case (Cons t ts)
  let ?c = "say BRK file 63"
  have ask: "\<exists>v. ?c x w = Some (Inr (), v) \<and> printable 63 v \<and> stdin v = replicate (min (length as) (length (t # ts))) CHR ''y'' @ rest" for x
    using Cons.prems(2,3) by (auto simp: say_goes_on)
  then obtain v where v: "?c (failed_assertion (count_condition (length ts + 1)) (count_message (int (length as) + 1) (length ts + 1))) w = Some (Inr (), v)" "printable 63 v" "stdin v = replicate (min (length as) (length (t # ts))) CHR ''y'' @ rest"
    by blast
  show ?case
  proof (cases as)
    case Nil
    then show ?thesis using Cons.prems(1) v by (simp add: expect_that_def bind_run_def run_simps)
  next
    case (Cons a bs)
    then have ne: "length bs \<noteq> length ts" using Cons.prems(1) by simp
    have "stdin v = replicate (min (length bs) (length ts) + 1) CHR ''y'' @ rest" using v(3) Cons by simp
    from Cons.IH [OF ne v(2) this, of "Some a"] show ?thesis
      using v(1) ne Cons by (auto simp: expect_that_def bind_run_def return_run_def add.commute split: if_splits)
  qed
qed

section \<open>Symbols\<close>

lemma scan_symbol_append: "scan_symbol (s @ t) j b e = (case scan_symbol s j b e of (b, e) \<Rightarrow> scan_symbol t (j + length s) b e)"
  by (induction s arbitrary: j b e) auto

lemma scan_symbol_none: "CHR ''('' \<notin> set s \<Longrightarrow> fst (scan_symbol s j b e) = b"
  "CHR ''+'' \<notin> set s \<Longrightarrow> snd (scan_symbol s j b e) = e"
  by (induction s arbitrary: j b e) auto

lemma c_string_nul: "nul \<notin> set s \<Longrightarrow> c_string (s @ nul # t) = s"
  unfolding c_string_def by (simp add: takeWhile_append)

lemma trace_line_found:
  assumes "scan_symbol s 0 None None = (Some b, Some e)"
  shows "trace_line demangle s = bind_res (symbol_name demangle (c_string (drop (Suc b) (s[b := nul, e := nul]))))
    (\<lambda>f. Inr (c_string (s[b := nul, e := nul]) @ '':'' @ f @ [newline]))"
  using assms by (simp add: trace_line_def Let_def)

lemma symbol_regular:
  assumes "CHR ''('' \<notin> set (n @ r)" "CHR ''+'' \<notin> set r" "nul \<notin> set (m @ n)"
  shows "trace_line demangle (m @ ''('' @ n @ ''+'' @ r) =
    bind_res (symbol_name demangle n) (\<lambda>f. Inr (m @ '':'' @ f @ [newline]))"
proof -
  obtain b0 e0 where be: "scan_symbol m 0 None None = (b0, e0)" by fastforce
  have n: "scan_symbol n (Suc (length m)) (Some (length m)) e = (Some (length m), snd (scan_symbol n (Suc (length m)) (Some (length m)) e))" for e
    using assms(1) scan_symbol_none(1) [of n] by (metis Un_iff prod.collapse set_append)
  have r: "scan_symbol r j (Some b) (Some e) = (Some b, Some e)" for j b e
    using assms(1,2) scan_symbol_none by (metis Un_iff prod.collapse set_append)
  have s: "scan_symbol (m @ ''('' @ n @ ''+'' @ r) 0 None None = (Some (length m), Some (length m + 1 + length n))"
    by (simp add: scan_symbol_append be) (subst n, simp add: r)
  have u: "(m @ ''('' @ n @ ''+'' @ r)[length m := nul, length m + 1 + length n := nul] = m @ nul # n @ nul # r"
    by (simp add: list_update_append)
  show ?thesis unfolding trace_line_found [OF s] u using assms(3) by (simp add: c_string_nul)
qed

text \<open>A plus sign in the path, before the last parenthesis, and no offset after it.\<close>

lemma symbol_plus_in_path:
  assumes "CHR ''('' \<notin> set r" "CHR ''+'' \<notin> set (q @ r)" "nul \<notin> set (m @ q @ r)"
  shows "trace_line demangle (m @ ''+'' @ q @ ''('' @ r) =
    bind_res (symbol_name demangle r) (\<lambda>f. Inr (m @ '':'' @ f @ [newline]))"
proof -
  obtain b0 e0 where be: "scan_symbol m 0 None None = (b0, e0)" by fastforce
  have q: "scan_symbol q j b e = (fst (scan_symbol q j b e), e)" for j b e
    using assms(2) scan_symbol_none(2) [of q] by (metis Un_iff prod.collapse set_append)
  have r: "scan_symbol r j (Some b) (Some e) = (Some b, Some e)" for j b e
    using assms(1,2) scan_symbol_none by (metis Un_iff prod.collapse set_append)
  have s: "scan_symbol (m @ ''+'' @ q @ ''('' @ r) 0 None None = (Some (length m + 1 + length q), Some (length m))"
    by (simp add: scan_symbol_append be) (subst q, simp add: r)
  have u: "(m @ ''+'' @ q @ ''('' @ r)[length m + 1 + length q := nul, length m := nul] = m @ nul # q @ nul # r"
    by (simp add: list_update_append)
  have "c_string r = r" using assms(3) by (intro c_string_id) simp
  then show ?thesis unfolding trace_line_found [OF s] u using assms(3) by (simp add: c_string_nul)
qed

lemma symbol_without_offset:
  assumes "CHR ''+'' \<notin> set s \<or> CHR ''('' \<notin> set s"
  shows "trace_line demangle s = Inr (s @ [newline])"
  using assms scan_symbol_none [of s 0 None None]
  by (auto simp: trace_line_def split: prod.splits option.splits)

section \<open>Properties\<close>

text \<open>
  A checked system call returns exactly when the result is not negative as a \<^verbatim>\<open>ssize_t\<close>, and
  then with that result and nothing else changed; a negative result never reaches the caller: the
  failure is printed on \<open>FTL\<close> and the process aborts. The test knows no other failures: a null
  pointer, and any count below \<open>2 ^ 63\<close> however short, is returned as a success.
\<close>

theorem syscall_result:
  shows "(0 \<le> to_ssize ret \<longrightarrow> sys_call name file line ret errno msg w = Some (Inr ret, w)) \<and>
    (to_ssize ret < 0 \<longrightarrow> sys_call name file line ret errno msg w \<noteq> Some (Inr r, v)) \<and>
    (to_ssize ret < 0 \<and> printable line w \<longrightarrow> sys_call name file line ret errno msg w =
       Some (Inl Aborted, w\<lparr>printed := printed w @ said FTL file line (syscall_text name errno msg) (env.truncate w)\<rparr>)) \<and>
    0 \<le> to_ssize (C_Pointer 0) \<and> (unat n < 2 ^ 63 \<longrightarrow> 0 \<le> to_ssize (C_Size n))"
proof (intro conjI impI)
  have bad: "sys_call name file line ret errno msg w = bind_run (say FTL file line (syscall_text name errno msg)) (\<lambda>_. return_run ret) w"
    if "to_ssize ret < 0"
    using that by (simp only: sys_call_def if_True)
  show "sys_call name file line ret errno msg w \<noteq> Some (Inr r, v)" if "to_ssize ret < 0"
    unfolding bad [OF that] bind_run_Inr_iff by (blast dest: say_frame)
  show "sys_call name file line ret errno msg w =
      Some (Inl Aborted, w\<lparr>printed := printed w @ said FTL file line (syscall_text name errno msg) (env.truncate w)\<rparr>)"
    if "to_ssize ret < 0 \<and> printable line w"
    unfolding bad [OF conjunct1 [OF that]] by (rule bind_run_simps(2), rule say_aborts, rule conjunct2 [OF that])
  show "0 \<le> to_ssize (C_Size n)" if "unat n < 2 ^ 63"
  proof -
    have "int (unat n) < int (2 ^ 63)" using that by (simp only: of_nat_less_iff)
    then have "uint n < 2 ^ 63" by simp
    moreover have "- (2 ^ 63) \<le> uint n" by (rule order.trans [of _ 0]) simp_all
    ultimately have "sint n = uint n" by (simp only: sint_uint) (simp add: signed_take_bit_int_eq_self_iff)
    then show ?thesis by simp
  qed
qed (simp_all add: sys_call_def run_simps)

lemma syscall_result_witness:
  "sys_call ''fork'' ''f.cpp'' 10 (C_Int (- 1)) 11 ''no'' quiet_world \<noteq> Some (Inr (C_Int (- 1)), quiet_world) \<and>
   sys_call ''open_memstream'' ''f.cpp'' 10 (C_Pointer 0) 12 ''no memory'' quiet_world = Some (Inr (C_Pointer 0), quiet_world)"
  using syscall_result [of "C_Int (- 1)" "''fork''" "''f.cpp''" 10 11 "''no''" quiet_world "C_Int (- 1)" quiet_world 0]
    syscall_result [of "C_Pointer 0" "''open_memstream''" "''f.cpp''" 10 12 "''no memory''" quiet_world "C_Int (- 1)" quiet_world 0]
  by simp

text \<open>
  The clock: while the time in nanoseconds fits 64 bits (584 years), \<open>now()\<close> is the time
  rounded down to microseconds, and so never goes back; after that it wraps.
\<close>

theorem now_microseconds:
  assumes "unat sec * 10 ^ 9 + unat nsec \<le> unat sec' * 10 ^ 9 + unat nsec'" "unat sec' * 10 ^ 9 + unat nsec' < 2 ^ 64"
  shows "unat (now_us sec nsec) = (unat sec * 10 ^ 9 + unat nsec) div 1000 \<and> now_us sec nsec \<le> now_us sec' nsec' \<and>
    now_us 18446744074 0 < now_us 18446744073 0"
proof -
  have *: "unat (now_us s n) = (unat s * 10 ^ 9 + unat n) div 1000" if "unat s * 10 ^ 9 + unat n < 2 ^ 64" for s n
  proof -
    have "unat s * unat ns_per_sec < 2 ^ 64" using that by (simp add: ns_per_sec_def)
    then have "unat (s * ns_per_sec) = unat s * 10 ^ 9" by (simp add: unat_mult_no_wrap ns_per_sec_def)
    then have "unat (s * ns_per_sec + n) = unat s * 10 ^ 9 + unat n" using that by (simp add: unat_add_no_wrap)
    moreover have "ns_per_sec div us_per_sec = 1000" by (simp add: ns_per_sec_def us_per_sec_def)
    ultimately show ?thesis by (simp add: now_us_def unat_div)
  qed
  have "unat (now_us sec nsec) \<le> unat (now_us sec' nsec')" using assms by (simp add: * div_le_mono)
  moreover have "now_us 18446744074 0 < now_us 18446744073 0" by (simp add: now_us_def ns_per_sec_def us_per_sec_def)
  ultimately show ?thesis using assms by (simp add: * word_le_nat_alt)
qed

lemma now_microseconds_witness: "unat (now_us 3 (5000 :: 64 word)) = 3000005"
  using now_microseconds [of 3 5000 3 5000] by simp

text \<open>
  C38: Command lines. With one argument for each variable all are parsed, in order, nothing is
  printed and the result is true. With any other number the first assertion fails with a message:
  a user who answers n ends the process there, and with one who answers y each time, too many
  arguments parse like the first of them, while too few end in the insertion of the null pointer
  at the end of \<^verbatim>\<open>argv\<close>.
\<close>

theorem parse_arguments_outcome:
  fixes ts :: "arg_value list" and as :: "string list" and p :: "string option" and src :: string and w :: "'m world_scheme"
  assumes "printable 63 w"
  defines "run \<equiv> parse_arguments src (int (length as) + 1) (p # map Some as @ [None]) ts"
  shows "(length as = length ts \<longrightarrow> run w = Some (Inr (True, map2 read_value ts as), w)) \<and>
    (length as \<noteq> length ts \<and> stdin w = CHR ''n'' # rest \<longrightarrow>
       run w = Some (Inl Aborted, w\<lparr>printed := printed w @ wrong_count src (int (length as) + 1) (length ts) (env.truncate w)\<rparr>)) \<and>
    (length as \<noteq> length ts \<and> stdin w = replicate (min (length as) (length ts) + 1) CHR ''y'' @ rest \<longrightarrow>
       (\<exists>v. run w = Some (if length as < length ts then Inl Null_Deref else Inr (True, map2 read_value ts as), v) \<and> stdin v = rest))"
proof -
  have "run w = Some (Inl Aborted, w\<lparr>printed := printed w @ wrong_count src (int (length as) + 1) (length ts) (env.truncate w)\<rparr>)"
    if "length as \<noteq> length ts" "stdin w = CHR ''n'' # rest"
  proof (cases ts)
    case Nil
    then show ?thesis using that assms(1) say_gives_up [of 56 w rest]
      by (simp add: run_def expect_that_def bind_run_def wrong_count_def printable_def)
  next
    case (Cons t us)
    then show ?thesis using that say_gives_up [OF assms(1)]
      by (simp add: run_def expect_that_def bind_run_def wrong_count_def add.commute)
  qed
  then show ?thesis using parse_right [of as ts src p w] parse_confirmed [OF _ assms(1), of as ts rest src p] by (simp add: run_def)
qed

lemma parse_arguments_outcome_witness:
  "parse_arguments ''util.h'' 3 [Some ''prog'', Some '' -42'', Some ''abc def'', None] [Int_Arg 7, String_Arg []] quiet_world
    = Some (Inr (True, [Int_Arg (- 42), String_Arg ''abc'']), quiet_world)"
  using parse_arguments_outcome [OF quiet_world_printable [of 63], where as = "['' -42'', ''abc def'']" and ts = "[Int_Arg 7, String_Arg []]"
      and p = "Some ''prog''" and src = "''util.h''"]
  by (simp add: read_value_def is_space_def newline_def read_int_def is_digit_def value_of_def to_int32_def
      del: parse_arguments.simps)

text \<open>
  Stack traces. A symbol \<^verbatim>\<open>module(name+offset)...\<close> is printed as the module and the demangled name,
  or the name with parentheses when it cannot be demangled and has at most 997 characters (a
  longer one overflows the buffer); a symbol without a plus sign or a parenthesis is printed as it
  is. A plus sign in the path of a module whose symbol has no offset is taken for the offset: the
  rest of the path is lost, and what follows the parenthesis is shown as a name.
\<close>

theorem trace_symbols:
  fixes demangle :: "string \<Rightarrow> string option" and m :: string
  assumes "CHR ''('' \<notin> set (n @ r)" "CHR ''+'' \<notin> set (q @ r)" "nul \<notin> set (m @ n @ q @ r)"
  defines "name \<equiv> \<lambda>n. if demangle n = None \<and> 997 < length n then Inl Out_Of_Bounds
      else Inr (m @ '':'' @ (case demangle n of Some f \<Rightarrow> f | None \<Rightarrow> n @ ''()'') @ [newline])"
  shows "trace_line demangle (m @ ''('' @ n @ ''+'' @ r) = name n \<and>
    trace_line demangle (m @ ''+'' @ q @ ''('' @ r) = name r \<and>
    trace_line demangle (q @ ''('' @ r) = Inr (q @ ''('' @ r @ [newline])"
proof -
  have "bind_res (symbol_name demangle x) (\<lambda>f. Inr (m @ '':'' @ f @ [newline])) = name x" for x
    by (simp add: symbol_name_def name_def split: option.splits)
  then show ?thesis
    using assms(1-3) symbol_regular [of n r m demangle] symbol_plus_in_path [of r q m demangle]
      symbol_without_offset [of "q @ ''('' @ r" demangle] by simp
qed

lemma trace_symbols_witness:
  "trace_line (\<lambda>n. if n = ''_Zf'' then Some ''f()'' else None) ''prog(_Zf+0x1c) [0x4005]'' = Inr (''prog:f()'' @ [newline]) \<and>
   trace_line (\<lambda>n. None) ''/c++/prog() [0x4]'' = Inr (''/c+:) [0x4]()'' @ [newline])"
  using trace_symbols [of "''_Zf''" "''0x1c) [0x4005]''" "[]" "''prog''" "\<lambda>n. if n = ''_Zf'' then Some ''f()'' else None"]
    trace_symbols [of "[]" "'') [0x4]''" "''/prog''" "''/c+''" "\<lambda>n. None"] by (simp add: nul_def)

end
