(* ===== verification/Streams.thy ===== *)
theory Streams
  imports Process
begin

text \<open>
  The rest of \<^verbatim>\<open>src/output.h\<close>: the null streams, choices and prompts, captured output, and static
  initialisation, with its two uses in \<^verbatim>\<open>src/output.cpp\<close> and \<^verbatim>\<open>src/testing.cpp\<close>. What \<^verbatim>\<open>readline\<close> and
  \<^verbatim>\<open>ioctl\<close> return is an argument.
\<close>

section \<open>Null streams\<close>

text \<open>
  A \<^verbatim>\<open>streambuf\<close> has a put area, a range of its buffer: a character is stored at its beginning, or given
  to \<open>overflow\<close> when it is empty, as it is at first. Both null streams have a buffer of 64 bytes.
\<close>

record nul_buf =
  pptr :: nat
  epptr :: nat
  dummy_buffer :: string

definition nul_new :: "string \<Rightarrow> nul_buf" where
  "nul_new junk = \<lparr>pptr = 0, epptr = 0, dummy_buffer = junk\<rparr>"

definition nul_overflow :: "bool \<Rightarrow> char \<Rightarrow> nul_buf \<Rightarrow> fault + nul_buf" where
  "nul_overflow ftl c b = (if ftl then Inl Assert_Failed else Inr (b\<lparr>pptr := 0, epptr := length (dummy_buffer b)\<rparr>))"

definition nul_put :: "bool \<Rightarrow> char \<Rightarrow> nul_buf \<Rightarrow> fault + nul_buf" where
  "nul_put ftl c b = (if pptr b < epptr b
     then if pptr b < length (dummy_buffer b)
       then Inr (b\<lparr>pptr := pptr b + 1, dummy_buffer := (dummy_buffer b)[pptr b := c]\<rparr>) else Inl Out_Of_Bounds
     else nul_overflow ftl c b)"

fun nul_write :: "bool \<Rightarrow> string \<Rightarrow> nul_buf \<Rightarrow> fault + nul_buf" where
  "nul_write ftl [] b = Inr b"
| "nul_write ftl (c # cs) b = bind_res (nul_put ftl c b) (nul_write ftl cs)"

section \<open>Choices and prompts\<close>

text \<open>
  \<open>CHOICE\<close> takes the number of options from the array unless \<open>isNull\<close> is false, and \<open>isNull\<close> is true
  of an array that is not null.
\<close>

definition is_null :: "'a list option \<Rightarrow> bool" where
  "is_null ary = (ary \<noteq> None)"

definition choice_options :: "'a list option \<Rightarrow> 'a list" where
  "choice_options ary = (case ary of None \<Rightarrow> [] | Some xs \<Rightarrow> take (if is_null ary then length xs else 0) xs)"

text \<open>\<open>CHOICE(char, p, o) >> c\<close>: the prompt on standard output, then the answer.\<close>

definition choose_char :: "string \<Rightarrow> char list option \<Rightarrow> (char, 'm) run" where
  "choose_char p ary w = (case choice_read (choice_options ary) (stdin w) of None \<Rightarrow> None
     | Some (c, rest) \<Rightarrow> Some (Inr c,
         w\<lparr>printed := printed w @ [(Cout, choice_prompt p (map (\<lambda>c. [c]) (choice_options ary)))], stdin := rest\<rparr>))"

text \<open>\<open>Prompt\<close>: its constructor adds the line to the history; at the end of the input there is no line.\<close>

definition prompt_new :: "string option \<Rightarrow> string list \<Rightarrow> fault + string \<times> string list" where
  "prompt_new line history = (case line of None \<Rightarrow> Inl Null_Deref | Some l \<Rightarrow> Inr (l, history @ [l]))"

definition prompt_read :: "string \<Rightarrow> string" where
  "prompt_read line = line"

text \<open>\<open>Dump::operator>>\<close> gives the whole text that was written, and keeps it.\<close>

definition dump_read :: "dump \<Rightarrow> string" where
  "dump_read d = ss_str (ss d)"

text \<open>\<^verbatim>\<open>PRINT(x)\<close>: the expression as it is written, and its value; \<^verbatim>\<open>D\<close> is \<^verbatim>\<open>P\<close> in the default build.\<close>

definition print_macro :: "string \<Rightarrow> string \<Rightarrow> string \<Rightarrow> nat \<Rightarrow> (unit, 'm) run" where
  "print_macro expr val file line = say OUT file line (expr @ '': '' @ val)"

section \<open>Captured output\<close>

text \<open>\<open>SingleIter\<close> has one element, so the body of \<open>CAPTURE\<close> runs once, and then the \<open>Dump\<close> ends.\<close>

definition single_iter :: "'a \<Rightarrow> 'a list" where
  "single_iter x = [x]"

definition capture :: "string \<Rightarrow> nat \<Rightarrow> (dump \<Rightarrow> dump) \<Rightarrow> (unit, 'm) run" where
  "capture file line body =
     fold (\<lambda>d r. bind_run r (\<lambda>_. end_dump (body d))) (single_iter (dump_stream Given_Stream file line)) (return_run ())"

section \<open>Static initialisation\<close>

text \<open>The constructor of \<open>Init\<close> in \<open>STATIC_CALL\<close>, around the function \<open>Run\<close>.\<close>

definition running_text :: "string \<Rightarrow> string" where "running_text msg = ''Running '' @ msg"
definition success_text :: "string \<Rightarrow> string" where "success_text msg = msg @ '' successful.''"
definition failure_text :: "string \<Rightarrow> string" where "failure_text msg = msg @ '' failed!''"

definition static_call :: "string \<Rightarrow> string \<Rightarrow> nat \<Rightarrow> (bool, 'm) run \<Rightarrow> (unit, 'm) run" where
  "static_call msg file line Run =
     bind_run (if msg \<noteq> [] then say DBG file line (running_text msg) else return_run ()) (\<lambda>_.
     bind_run Run (\<lambda>success.
     if msg = [] then return_run ()
     else if success then say DBG file line (success_text msg)
     else say BRK file line (failure_text msg)))"

definition static_message :: "string \<Rightarrow> string" where
  "static_message msg = ''Static Initialization('' @ esc # ''[0;36m'' @ msg @ esc # ''[0m)''"

definition static_init :: "string \<Rightarrow> string \<Rightarrow> nat \<Rightarrow> (bool, 'm) run \<Rightarrow> (unit, 'm) run" where
  "static_init msg = static_call (static_message msg)"

text \<open>
  \<open>OutputWidth\<close>: the columns that \<^verbatim>\<open>ioctl\<close> stored, a 16-bit number; nothing is stored when standard output
  is not a terminal.
\<close>

definition output_width :: "16 word option \<Rightarrow> (bool, 'm) run" where
  "output_width columns w = (case columns of None \<Rightarrow> Some (Inl Uninit_Read, w)
     | Some n \<Rightarrow> Some (Inr True, w\<lparr>max_total := uint n\<rparr>))"

definition init_output :: "string \<Rightarrow> 16 word option \<Rightarrow> (unit, 'm) run" where
  "init_output file columns = static_init ''OutputWidth'' file 8 (output_width columns)"

section \<open>Properties\<close>

lemma nul_put_ok:
  assumes "length (dummy_buffer b) = 64" "epptr b \<le> 64"
  shows "nul_put False c b = Inr (b\<lparr>pptr := (if pptr b < epptr b then pptr b + 1 else 0),
    epptr := (if pptr b < epptr b then epptr b else 64),
    dummy_buffer := (if pptr b < epptr b then (dummy_buffer b)[pptr b := c] else dummy_buffer b)\<rparr>)"
  using assms by (simp add: nul_put_def nul_overflow_def)

lemma nul_write_ok:
  assumes "length (dummy_buffer b) = 64" "epptr b = 64" "pptr b \<le> 64"
  shows "\<exists>b'. nul_write False s b = Inr b' \<and> pptr b' = (pptr b + length s) mod 65 \<and> length (dummy_buffer b') = 64"
  using assms
proof (induction s arbitrary: b)
  case (Cons c s)
  define b1 where "b1 = b\<lparr>pptr := (if pptr b < epptr b then pptr b + 1 else 0),
    epptr := (if pptr b < epptr b then epptr b else 64),
    dummy_buffer := (if pptr b < epptr b then (dummy_buffer b)[pptr b := c] else dummy_buffer b)\<rparr>"
  have "nul_put False c b = Inr b1" using nul_put_ok [of b c] Cons.prems by (simp add: b1_def)
  moreover have "(pptr b1 + length s) mod 65 = (pptr b + length (c # s)) mod 65"
    using Cons.prems by (cases "pptr b = 64") (simp_all add: b1_def)
  moreover have "length (dummy_buffer b1) = 64" "epptr b1 = 64" "pptr b1 \<le> 64" using Cons.prems by (simp_all add: b1_def)
  note Cons.IH [OF this]
  ultimately show ?case by simp
qed simp

text \<open>
  The null streams. Writing any text to the null stream succeeds and never leaves its 64-byte
  buffer; the fatal stream accepts nothing: its assertion fails at the first character.
\<close>

theorem nul_streams:
  assumes "length junk = 64"
  shows "(\<exists>b. nul_write False s (nul_new junk) = Inr b \<and> length (dummy_buffer b) = 64 \<and> pptr b = (length s - 1) mod 65) \<and>
    nul_write True s (nul_new junk) = (if s = [] then Inr (nul_new junk) else Inl Assert_Failed)"
proof (cases s)
  case Nil
  then show ?thesis using assms by (simp add: nul_new_def)
next
  case (Cons c t)
  have "nul_put False c (nul_new junk) = Inr \<lparr>pptr = 0, epptr = 64, dummy_buffer = junk\<rparr>"
    using assms by (simp add: nul_put_def nul_overflow_def nul_new_def)
  then show ?thesis
    using nul_write_ok [of "\<lparr>pptr = 0, epptr = 64, dummy_buffer = junk\<rparr>" t] assms Cons
    by (auto simp: nul_put_def nul_overflow_def nul_new_def)
qed

lemma nul_streams_witness:
  "\<exists>b. nul_write False (replicate 100 CHR ''x'') (nul_new (replicate 64 nul)) = Inr b \<and> pptr b = 34"
  using nul_streams [of "replicate 64 nul" "replicate 100 CHR ''x''"] by auto

text \<open>What the formatted input of a character skips.\<close>

definition white :: "char set" where
  "white = {CHR '' '', CHR 0x09, newline, CHR 0x0B, CHR 0x0C, CHR 0x0D}"

lemma choice_read_iff:
  "choice_read os s = Some (c, rest) \<longleftrightarrow>
    (\<exists>pre. s = pre @ c # rest \<and> c \<in> set os - white \<and> set pre \<subseteq> white \<union> - set os)"
proof (induction os s rule: choice_read.induct)
  case (2 os d s)
  have "(\<exists>pre. d # s = pre @ c # rest \<and> c \<in> set os - white \<and> set pre \<subseteq> white \<union> - set os) \<longleftrightarrow>
      d = c \<and> s = rest \<and> c \<in> set os - white \<or>
      d \<in> white \<union> - set os \<and> (\<exists>pre. s = pre @ c # rest \<and> c \<in> set os - white \<and> set pre \<subseteq> white \<union> - set os)"
    by (auto simp: Cons_eq_append_conv)
  moreover have "choice_read os (d # s) = (if d \<in> white \<union> - set os then choice_read os s else Some (d, s))"
    by (auto simp: white_def)
  ultimately show ?case using 2 by (auto simp: white_def)
qed simp

text \<open>
  Choices. \<open>CHOICE\<close> with an array offers all its elements (although \<open>isNull\<close> is inverted, the
  macro takes its branches the other way round too), and reads the first character of the input
  that is one of them and not white space, dropping what is before it; with a null pointer, or
  when no such character comes, it waits for ever.
\<close>

theorem choice_outcome:
  "(choose_char p (Some os) w = Some (Inr c, v) \<longleftrightarrow> (\<exists>pre rest. stdin w = pre @ c # rest \<and> c \<in> set os - white \<and>
     set pre \<subseteq> white \<union> - set os \<and>
     v = w\<lparr>printed := printed w @ [(Cout, choice_prompt p (map (\<lambda>c. [c]) os))], stdin := rest\<rparr>)) \<and>
   choose_char p None w = None"
proof -
  have "choice_read [] s = None" for s by (induction "[] :: char list" s rule: choice_read.induct) simp_all
  then have "choose_char p None w = None" by (simp add: choose_char_def choice_options_def)
  moreover have "choice_options (Some os) = os" by (simp add: choice_options_def is_null_def)
  then have "choose_char p (Some os) w = Some (Inr c, v) \<longleftrightarrow> (\<exists>rest. choice_read os (stdin w) = Some (c, rest) \<and>
      v = w\<lparr>printed := printed w @ [(Cout, choice_prompt p (map (\<lambda>c. [c]) os))], stdin := rest\<rparr>)"
    by (auto simp: choose_char_def split: option.splits)
  ultimately show ?thesis unfolding choice_read_iff by blast
qed

lemma narrow_silent:
  assumes "printable line w" "\<not> nverbose w" "max_total w \<le> 27 + 2 * indentation w" "c \<noteq> BRK"
  shows "said c file line t (env.truncate w) = []"
proof -
  let ?e = "env.truncate w"
  have "dump_output (channel_name c) ?e d = Inr []" if "line_of d = line" "color_of d = channel_color c" for d
  proof -
    have *: "line_of d < 10000" "0 \<le> indentation ?e" "indentation ?e < 400" "length (channel_name c) = 3"
      using assms(1) that(1) by (simp_all add: printable_def channel_name_def split: channel.splits)
    obtain name where name: "filename (file_of d) (line_of d) = Inr name" using *(1) by (simp add: filename_exec)
    have "length name = 40" using length_filename *(1) name by blast
    then show ?thesis using assms(2,3) * prompt_exec [OF that(2) *(1,2,3,4) name]
      by (simp add: dump_output_def print_text_def visible_color(2) print_loop.simps get_chunk_def)
  qed
  then show ?thesis using assms(4)
    by (simp add: said_def dump_channel_def dump_append_def asked_def)
qed

text \<open>
  The width of the output. On a terminal the initialisation stores its columns and goes on;
  when standard output is not one, a value that was never set is read. In an output of at most 27
  columns, or two more for each level of indentation, no text of any message is printed.
\<close>

theorem output_width_outcome:
  assumes "printable 8 w" "uint n \<le> 1026"
  shows "(\<exists>ls. init_output src (Some n) w = Some (Inr (), w\<lparr>max_total := uint n, printed := ls\<rparr>)) \<and>
    (\<exists>ls. init_output src None w = Some (Inl Uninit_Read, w\<lparr>printed := ls\<rparr>)) \<and>
    (max_total v = uint n \<and> uint n \<le> 27 + 2 * indentation v \<and> printable line v \<and> \<not> nverbose v \<longrightarrow>
      say OUT src line t v = Some (Inr (), v))"
proof (intro conjI impI)
  let ?m = "static_message ''OutputWidth''"
  have init: "init_output src cs w = bind_run (say DBG src 8 (running_text ?m)) (\<lambda>_. bind_run (output_width cs)
      (\<lambda>success. if success then say DBG src 8 (success_text ?m) else say BRK src 8 (failure_text ?m))) w" for cs
    by (simp add: init_output_def static_init_def static_call_def static_message_def [of "''OutputWidth''", THEN arg_cong, of "\<lambda>m. m = []"])
  obtain u where u: "say DBG src 8 (running_text ?m) w = Some (Inr (), w\<lparr>printed := u\<rparr>)"
    using say_printed [OF assms(1), of DBG] by blast
  have room: "printable 8 (w\<lparr>printed := u, max_total := uint n\<rparr>)" using assms by (simp add: printable_def)
  obtain z where "say DBG src 8 (success_text ?m) (w\<lparr>printed := u, max_total := uint n\<rparr>) =
      Some (Inr (), w\<lparr>printed := u, max_total := uint n\<rparr>\<lparr>printed := z\<rparr>)"
    using say_printed [OF room, of DBG] by blast
  then show "\<exists>ls. init_output src (Some n) w = Some (Inr (), w\<lparr>max_total := uint n, printed := ls\<rparr>)"
    unfolding init using u by (simp add: bind_run_def output_width_def) (metis)
  show "\<exists>ls. init_output src None w = Some (Inl Uninit_Read, w\<lparr>printed := ls\<rparr>)"
    unfolding init using u by (simp add: bind_run_def output_width_def) (metis)
next
  assume v: "max_total v = uint n \<and> uint n \<le> 27 + 2 * indentation v \<and> printable line v \<and> \<not> nverbose v"
  then have "said OUT src line t (env.truncate v) = []" by (intro narrow_silent) simp_all
  then show "say OUT src line t v = Some (Inr (), v)" using say_printed [of line v OUT src t] v by simp
qed

lemma output_width_outcome_witness:
  "say OUT ''f.cpp'' 7 ''lost'' (quiet_world\<lparr>max_total := 20\<rparr>) = Some (Inr (), quiet_world\<lparr>max_total := 20\<rparr>)"
  using output_width_outcome [OF quiet_world_printable [of 8], of 20 "''f.cpp''" "quiet_world\<lparr>max_total := 20\<rparr>" 7 "''lost''"]
  by (simp add: printable_def)

end
