(* ===== verification/Test_Report.thy ===== *)
theory Test_Report
  imports Test_Case Util Streams
begin

text \<open>
  What the test runner prints and how a test dies: the reports of \<open>Case::WaitPid\<close>, \<open>Begin\<close>, \<open>Finish\<close>
  and \<open>Succeed\<close> (\<^verbatim>\<open>src/cases.hpp\<close>), the signal handlers of \<^verbatim>\<open>src/testing.h\<close>, \<^verbatim>\<open>src/testing.hpp\<close> and
  \<^verbatim>\<open>src/testing.cpp\<close>. Text written through the streams of C is an entry of its own in
  the world's output. The message of a failed \<^verbatim>\<open>ASSERT\<close> or \<^verbatim>\<open>SysCall\<close> is not modelled here, only that it
  aborts.
\<close>

section \<open>Texts\<close>

text \<open>A number of microseconds is printed as milliseconds by \<open>ms\<close>, an argument.\<close>

definition quoted :: "string \<Rightarrow> string" where
  "quoted s = CHR 0x27 # esc # ''[0;36m'' @ s @ esc # ''[0m'' @ [CHR 0x27]"

definition blue :: "string \<Rightarrow> string" where
  "blue s = esc # ''[1;34m'' @ s @ esc # ''[0m''"

definition begin_text :: "string \<Rightarrow> string \<Rightarrow> string" where
  "begin_text name argn = ''Beginning test '' @ quoted name @ '' with arguments '' @ quoted argn"

definition arguments_text :: "string \<Rightarrow> string" where
  "arguments_text argn = (if argn \<noteq> [] then '' with arguments '' @ quoted argn else [])"

definition took_text :: "string \<Rightarrow> string" where
  "took_text time = newline # CHR 0x09 # ''in '' @ blue time @ '' milliseconds ''"

definition finish_text :: "(64 word \<Rightarrow> string) \<Rightarrow> string \<Rightarrow> string \<Rightarrow> test_process \<Rightarrow> result \<Rightarrow> int \<Rightarrow> string" where
  "finish_text ms name argn p r expect = ''Test '' @ quoted name @ (case r of
       SUCCESS \<Rightarrow> '' succeeded'' @ arguments_text argn @ took_text (ms (usecs p)) @ ''with exit code '' @ blue (show_int (status p)) @ ''!''
     | FAILURE \<Rightarrow> '' '' @ esc # ''[1;31mfailed'' @ esc # ''[0m'' @ arguments_text argn @ took_text (ms (usecs p)) @
         ''with exit code '' @ esc # ''[1;14m'' @ show_int (status p) @ esc # ''[0m!'' @ newline # CHR 0x09 # ''Expected '' @
         blue (show_int expect) @ ''.''
     | TIMEOUT \<Rightarrow> '' '' @ esc # ''[1;31mtimed out'' @ esc # ''[0m'' @ arguments_text argn @ took_text (ms (usecs p))
     | RUNNING \<Rightarrow> [])"

definition succeed_text :: "(64 word \<Rightarrow> string) \<Rightarrow> string \<Rightarrow> 64 word \<Rightarrow> string" where
  "succeed_text ms name us = ''Test '' @ quoted name @ '' succeeded'' @ newline # CHR 0x09 # ''in '' @ blue (ms us) @ '' milliseconds''"

section \<open>Reports\<close>

definition put_raw :: "string \<Rightarrow> (unit, 'm) run" where
  "put_raw s w = Some (Inr (), w\<lparr>printed := printed w @ [(Cout, s)]\<rparr>)"

definition begin_case :: "string \<Rightarrow> string \<Rightarrow> nat \<Rightarrow> 'v test_case \<Rightarrow> (unit, 'm) run" where
  "begin_case file name i c = bind_run (put_raw [newline]) (\<lambda>_. bind_run (lift_res (case_arg_name i c)) (\<lambda>argn.
     say OUT file 93 (begin_text name argn)))"

text \<open>\<open>Finish\<close>; the line is that of the \<open>PIPE\<close> of each branch, and the default case aborts.\<close>

definition finish_line :: "result \<Rightarrow> nat" where
  "finish_line r = (case r of SUCCESS \<Rightarrow> 103 | FAILURE \<Rightarrow> 111 | TIMEOUT \<Rightarrow> 120 | RUNNING \<Rightarrow> 126)"

definition finish_report :: "(64 word \<Rightarrow> string) \<Rightarrow> string \<Rightarrow> string \<Rightarrow> test_process \<Rightarrow> result \<Rightarrow> 'v test_case \<Rightarrow> (result, 'm) run" where
  "finish_report ms file name p r c = bind_run (lift_res (case_arg_name (tp_i p) c)) (\<lambda>argn.
     bind_run (say (case r of SUCCESS \<Rightarrow> OUT | RUNNING \<Rightarrow> FTL | _ \<Rightarrow> ERR) file (finish_line r) (finish_text ms name argn p r (expected c)))
       (\<lambda>_. return_run r))"

definition succeed_report :: "(64 word \<Rightarrow> string) \<Rightarrow> string \<Rightarrow> string \<Rightarrow> 64 word \<Rightarrow> (unit, 'm) run" where
  "succeed_report ms file name us = say OUT file 132 (succeed_text ms name us)"

text \<open>
  \<open>WaitPid\<close> with its output: the beginning, what the child wrote, the end. The guard \<open>auto_free\<close>
  frees the buffer, which nothing observes; the signal that it sends to a child that timed out is \<open>wait_kill\<close> of \<open>Test_Case\<close>.
\<close>

definition wait_report ::
  "(64 word \<Rightarrow> string) \<Rightarrow> string \<Rightarrow> string \<Rightarrow> test_process \<Rightarrow> int \<Rightarrow> int \<Rightarrow> 64 word \<Rightarrow> 'v test_case \<Rightarrow> (test_process \<times> result, 'm) run" where
  "wait_report ms file name p reaped st n c =
    (if reaped < 0 then fail_run Aborted
     else let p = p\<lparr>status := (if reaped = 0 then status p else st), usecs := n - start c\<rparr> in
     if reaped = 0 \<and> usecs p < timeout c * us_per_second then return_run (p, RUNNING)
     else if reaped \<noteq> 0 \<and> reaped \<noteq> pid p then fail_run Aborted
     else bind_run (begin_case file name (tp_i p) c) (\<lambda>_.
       auto_scope (return_run ()) (bind_run (put_raw (buf p)) (\<lambda>_.
         bind_run
           (if reaped = 0 then finish_report ms file name p TIMEOUT c
            else if status p \<noteq> expected c then finish_report ms file name p FAILURE c
            else finish_report ms file name p SUCCESS c) (\<lambda>r. return_run (p, r))))))"

section \<open>Signals\<close>

record sig_world = world +
  handlers :: "int \<Rightarrow> disposition"

type_synonym 'a signalled = "sig_world \<Rightarrow> ((fault + 'a) \<times> sig_world) option"

definition set_handler :: "disposition \<Rightarrow> sig_world \<Rightarrow> sig_world" where
  "set_handler h w = w\<lparr>handlers := set_handlers h (handlers w)\<rparr>"

text \<open>The initialisation of \<^verbatim>\<open>testing.cpp\<close>.\<close>

definition init_signals :: "string \<Rightarrow> unit signalled" where
  "init_signals file = static_init ''Setting signal handlers'' file 5 (\<lambda>w. Some (Inr True, set_handler Default_Handler w))"

text \<open>\<open>default_handle\<close> prints a trace, gives the signal its default action and raises it: the process ends.\<close>

definition default_handle :: "(string \<Rightarrow> string option) \<Rightarrow> string list \<Rightarrow> string \<Rightarrow> int \<Rightarrow> int signalled" where
  "default_handle demangle frames file sig =
     bind_run (lift_res (bind_res (dump_channel ERR file 19) (print_trace demangle frames))) (\<lambda>d.
     bind_run (end_dump d) (\<lambda>_ w. Some (Inr sig, w\<lparr>handlers := (handlers w)(sig := Default_Action)\<rparr>)))"

definition fatal_text :: "string \<Rightarrow> string \<Rightarrow> string" where
  "fatal_text name sig = ''Test '' @ quoted name @ '' received fatal signal '' @ CHR 0x27 # esc # ''[0;31m'' @ sig @ esc # ''[0m'' @ [CHR 0x27]"

text \<open>
  The delivery of a signal; the value is the signal that ends the process. \<open>handle<A>\<close> reports on \<open>FTL\<close>,
  whose \<open>abort()\<close> raises \<open>SIGABRT\<close>: one more delivery.
\<close>

fun deliver :: "nat \<Rightarrow> (string \<Rightarrow> string option) \<Rightarrow> string list \<Rightarrow> (int \<Rightarrow> string) \<Rightarrow> string \<Rightarrow> int \<Rightarrow> int signalled" where
  "deliver 0 demangle frames strsig file sig w = None"
| "deliver (Suc k) demangle frames strsig file sig w = (case handlers w sig of
       Default_Action \<Rightarrow> Some (Inr sig, w)
     | Default_Handler \<Rightarrow> default_handle demangle frames file sig w
     | Named_Handler name \<Rightarrow> (case say FTL file 12 (fatal_text name (strsig sig)) (set_handler Default_Handler w) of
           Some (Inl Aborted, w) \<Rightarrow> deliver k demangle frames strsig file SIGABRT w
         | Some (Inl f, w) \<Rightarrow> Some (Inl f, w)
         | _ \<Rightarrow> None))"

section \<open>What a report prints\<close>

lemma begin_case_exec:
  assumes "printable m w"
  shows "begin_case file name i c w = (case case_arg_name i c of
      Inl f \<Rightarrow> Some (Inl f, w\<lparr>printed := printed w @ [(Cout, [newline])]\<rparr>)
    | Inr argn \<Rightarrow> Some (Inr (), w\<lparr>printed := printed w @ (Cout, [newline]) # said OUT file 93 (begin_text name argn) (env.truncate w)\<rparr>))"
  using printable_line [OF assms, of 93]
  by (auto simp: begin_case_def put_raw_def bind_run_def lift_res_def say_printed split: sum.splits)

lemma finish_report_exec:
  assumes "printable m w" "case_arg_name (tp_i p) c = Inr argn" "r \<noteq> RUNNING"
  shows "finish_report ms file name p r c w = Some (Inr r, w\<lparr>printed := printed w @
    said (if r = SUCCESS then OUT else ERR) file (finish_line r) (finish_text ms name argn p r (expected c)) (env.truncate w)\<rparr>)"
proof -
  have "printable (finish_line r) w" using printable_line [OF assms(1)] by (simp add: finish_line_def split: result.splits)
  then show ?thesis using assms(2,3)
    by (cases r) (simp_all add: finish_report_def bind_run_def lift_res_def return_run_def say_printed)
qed

lemma finish_value:
  assumes "case_arg_name (tp_i p) c = Inr argn" "r \<noteq> RUNNING"
  shows "finish p r c = Inr (if r = SUCCESS then OUT else ERR, r)"
  using assms by (cases r) (simp_all add: finish_def)

text \<open>What is printed for a child whose wait is over.\<close>

definition report_lines ::
  "(64 word \<Rightarrow> string) \<Rightarrow> string \<Rightarrow> string \<Rightarrow> string \<Rightarrow> test_process \<Rightarrow> result \<Rightarrow> int \<Rightarrow> env \<Rightarrow> (ostream \<times> string) list" where
  "report_lines ms file name argn p r expect e = (Cout, [newline]) # said OUT file 93 (begin_text name argn) e @ (Cout, buf p) #
     said (if r = SUCCESS then OUT else ERR) file (finish_line r) (finish_text ms name argn p r expect) e"

lemma report_exec:
  assumes "printable 126 w" "case_arg_name (tp_i q) c = Inr argn" "r \<noteq> RUNNING"
  shows "bind_run (begin_case file name (tp_i q) c) (\<lambda>_.
      auto_scope (return_run ()) (bind_run (put_raw (buf q)) (\<lambda>_. bind_run (finish_report ms file name q r c) (\<lambda>r. return_run (q, r))))) w =
    Some (Inr (q, r), w\<lparr>printed := printed w @ report_lines ms file name argn q r (expected c) (env.truncate w)\<rparr>)"
proof -
  let ?u = "w\<lparr>printed := printed w @ (Cout, [newline]) # said OUT file 93 (begin_text name argn) (env.truncate w) @ [(Cout, buf q)]\<rparr>"
  have "printable 126 ?u" using assms(1) by simp
  from finish_report_exec [OF this assms(2,3), of ms "file" name]
  have "finish_report ms file name q r c ?u = Some (Inr r, w\<lparr>printed := printed w @ report_lines ms file name argn q r (expected c) (env.truncate w)\<rparr>)"
    by (simp add: report_lines_def)
  then show ?thesis using begin_case_exec [OF assms(1), of "file" name "tp_i q" c] assms(2)
    by (simp add: bind_run_def auto_scope_def put_raw_def return_run_def)
qed

lemma wait_report_spec:
  assumes "printable 126 w"
  shows "\<exists>v. wait_report ms file name p reaped st n c w = Some (wait_pid p reaped st n c, v) \<and>
    (\<forall>p' r argn. wait_pid p reaped st n c = Inr (p', r) \<and> case_arg_name (tp_i p) c = Inr argn \<longrightarrow>
      v = w\<lparr>printed := printed w @ (if r = RUNNING then [] else report_lines ms file name argn p' r (expected c) (env.truncate w))\<rparr>)"
proof -
  define q where "q = p\<lparr>status := (if reaped = 0 then status p else st), usecs := n - start c\<rparr>"
  define r where "r = (if reaped = 0 then TIMEOUT else if status q \<noteq> expected c then FAILURE else SUCCESS)"
  have r: "r \<noteq> RUNNING" by (simp add: r_def)
  have q: "tp_i q = tp_i p" "buf q = buf p" "pid q = pid p" by (simp_all add: q_def)
  consider (failed) "reaped < 0" | (running) "reaped = 0" "usecs q < timeout c * us_per_second"
    | (wrong) "0 < reaped" "reaped \<noteq> pid p" | (ended) "\<not> reaped < 0" "\<not> (reaped = 0 \<and> usecs q < timeout c * us_per_second)"
      "reaped = 0 \<or> reaped = pid p" by linarith
  then show ?thesis
  proof cases
    case ended
    have v: "wait_pid p reaped st n c = bind_res (case_arg_name (tp_i p) c) (\<lambda>_. bind_res (finish q r c) (\<lambda>x. Inr (q, snd x)))"
      using ended by (cases "reaped = 0") (auto simp: wait_pid_def q_def Let_def r_def)
    have w: "wait_report ms file name p reaped st n c = bind_run (begin_case file name (tp_i p) c) (\<lambda>_.
        auto_scope (return_run ()) (bind_run (put_raw (buf q)) (\<lambda>_. bind_run (finish_report ms file name q r c) (\<lambda>r. return_run (q, r)))))"
      using ended by (cases "reaped = 0") (auto simp: wait_report_def q_def Let_def r_def)
    show ?thesis
    proof (cases "case_arg_name (tp_i p) c")
      case (Inl f)
      then show ?thesis using begin_case_exec [OF assms, of "file" name "tp_i p" c] by (simp add: v w bind_run_def)
    next
      case (Inr argn)
      have "wait_report ms file name p reaped st n c w =
          Some (Inr (q, r), w\<lparr>printed := printed w @ report_lines ms file name argn q r (expected c) (env.truncate w)\<rparr>)"
        using report_exec [OF assms, of q c argn r "file" name ms] Inr r by (simp add: w q)
      moreover have "wait_pid p reaped st n c = Inr (q, r)" using finish_value [of q c argn r] Inr r by (simp add: v q)
      ultimately show ?thesis using Inr r by simp
    qed
  qed (simp_all add: wait_report_def wait_pid_def q_def Let_def run_simps)
qed

section \<open>How a process dies\<close>

lemma c_string_length: "length (c_string s) \<le> length s"
  by (simp add: c_string_def length_takeWhile_le)

lemma trace_line_ok:
  assumes "length s \<le> 997"
  shows "\<exists>l. trace_line demangle s = Inr l"
proof -
  have "length (c_string (drop k (s[b := nul, e := nul]))) \<le> 997" for k b e
    by (rule order.trans [OF c_string_length]) (use assms in simp)
  then show ?thesis by (auto simp: trace_line_def Let_def symbol_name_def split: prod.splits option.splits)
qed

lemma trace_lines_ok:
  "\<forall>s \<in> set frames. length s \<le> 997 \<Longrightarrow>
    \<exists>t. trace_lines demangle frames d = Inr (d\<lparr>ss := t\<rparr>)"
proof (induction frames arbitrary: d)
  case Nil
  show ?case by (intro exI [of _ "ss d"]) simp
next
  case (Cons s frames)
  obtain l where l: "trace_line demangle s = Inr l" using trace_line_ok [of s demangle] Cons.prems by auto
  obtain t where "trace_lines demangle frames (dump_append l d) = Inr ((dump_append l d)\<lparr>ss := t\<rparr>)"
    using Cons.IH Cons.prems by auto
  then show ?case using l by (auto simp: dump_append_def)
qed

lemma end_dump_err:
  assumes "printable line w" "channel_of d = ERR" "line_of d = line" "color_of d = channel_color ERR"
  shows "\<exists>ls. end_dump d w = Some (Inr (), w\<lparr>printed := printed w @ map (Pair (os_of d)) ls\<rparr>)"
proof -
  have "printable (line_of d) (env.truncate w)" using assms(1,3) by (simp add: printable_def)
  then obtain ls where "dump_output ''ERR'' (env.truncate w) d = Inr ls"
    using dump_output_printed [OF _ assms(4), of "env.truncate w" "''ERR''"] by auto
  then show ?thesis using assms(2) by (simp add: end_dump_def flush_def print_lines_def asked_def) blast
qed

lemma default_handle_kills:
  assumes "printable 19 w" "\<forall>s \<in> set frames. length s \<le> 997"
  shows "\<exists>ls. default_handle demangle frames file sig w = Some (Inr sig,
    w\<lparr>printed := printed w @ map (Pair Cerr) ls, handlers := (handlers w)(sig := Default_Action)\<rparr>)"
proof -
  obtain d where d: "dump_channel ERR file 19 = Inr d" "channel_of d = ERR" "line_of d = 19" "color_of d = channel_color ERR" "os_of d = Cerr"
    by (simp add: dump_channel_def channel_stream_def channel_map_def)
  have "\<forall>s \<in> set (drop 1 (take 100 frames)). length s \<le> 997" using assms(2) by (meson in_set_dropD in_set_takeD)
  then obtain t where "print_trace demangle frames d = Inr (d\<lparr>ss := t\<rparr>)"
    using trace_lines_ok unfolding print_trace_def by blast
  moreover obtain ls where "end_dump (d\<lparr>ss := t\<rparr>) w = Some (Inr (), w\<lparr>printed := printed w @ map (Pair Cerr) ls\<rparr>)"
    using end_dump_err [OF assms(1), of "d\<lparr>ss := t\<rparr>"] d by auto
  ultimately show ?thesis using d(1) by (auto simp: default_handle_def bind_run_def lift_res_def)
qed

section \<open>Properties\<close>

text \<open>
  C23: \<open>WaitPid\<close> with its output implements the verdict: the result is that of \<open>wait_pid\<close>, on every
  path. When the wait is over and the row has a name, exactly this is printed, in this order: the
  beginning, all that the child wrote, and the report, on \<open>OUT\<close> for a success and on \<open>ERR\<close>
  otherwise; while the child runs nothing is printed.
\<close>

theorem wait_report_refines:
  assumes "printable 126 w"
  shows "\<exists>v. wait_report ms file name p reaped st n c w = Some (wait_pid p reaped st n c, v) \<and>
    (\<forall>p' r argn. wait_pid p reaped st n c = Inr (p', r) \<and> case_arg_name (tp_i p) c = Inr argn \<longrightarrow>
      v = w\<lparr>printed := printed w @ (if r = RUNNING then [] else report_lines ms file name argn p' r (expected c) (env.truncate w))\<rparr>)"
  by (rule wait_report_spec [OF assms])

lemma wait_report_refines_witness:
  "\<exists>v. wait_report (\<lambda>_. ''0.005'') ''t.cpp'' ''adds'' \<lparr>tp_i = 0, pid = 42, status = 0, usecs = 0, buf = ''hello''\<rparr> 42 0 5
      (case_name ''a'' (new_case 2 :: nat test_case)) quiet_world = Some (Inr (\<lparr>tp_i = 0, pid = 42, status = 0, usecs = 5, buf = ''hello''\<rparr>, SUCCESS), v) \<and>
    (Cout, ''hello'') \<in> set (printed v)"
proof -
  let ?p = "\<lparr>tp_i = 0, pid = 42, status = 0, usecs = 0, buf = ''hello''\<rparr>"
  let ?c = "case_name ''a'' (new_case 2 :: nat test_case)"
  have v: "wait_pid ?p 42 0 5 ?c = Inr (?p\<lparr>usecs := 5\<rparr>, SUCCESS)"
    by (simp add: wait_pid_def Let_def finish_simps case_arg_name_def case_name_def new_case_def)
  have a: "case_arg_name (tp_i ?p) ?c = Inr ''a''" by (simp add: case_arg_name_def case_name_def new_case_def)
  have room: "printable 126 quiet_world" by (simp add: quiet_world_printable)
  from wait_report_refines [OF room, of "\<lambda>_. ''0.005''" "''t.cpp''" "''adds''" ?p 42 0 5 ?c]
  obtain u where run: "wait_report (\<lambda>_. ''0.005'') ''t.cpp'' ''adds'' ?p 42 0 5 ?c quiet_world = Some (wait_pid ?p 42 0 5 ?c, u)"
    and u: "\<forall>p' r argn. wait_pid ?p 42 0 5 ?c = Inr (p', r) \<and> case_arg_name (tp_i ?p) ?c = Inr argn \<longrightarrow>
      u = quiet_world\<lparr>printed := printed quiet_world @ (if r = RUNNING then []
        else report_lines (\<lambda>_. ''0.005'') ''t.cpp'' ''adds'' argn p' r (expected ?c) (env.truncate quiet_world))\<rparr>" by blast
  from u [rule_format, OF conjI, OF v a] have "(Cout, ''hello'') \<in> set (printed u)" by (simp add: report_lines_def)
  then show ?thesis using run v by auto
qed

text \<open>
  How a test dies of a signal. After \<open>SetHandler(default_handle)\<close> each of the six signals is
  reported on \<open>ERR\<close> and ends the process with the same signal; under \<open>handle\<close> of a test it is reported
  on \<open>FTL\<close> and the process ends with \<open>SIGABRT\<close> whatever the signal was. Either way the wait status is
  not 0, and a case that expects 0 fails.
\<close>

theorem fatal_signals_kill:
  assumes "printable 19 w" "\<forall>s \<in> set frames. length s \<le> 997" "sig \<in> set fatal_signals"
  shows "(\<exists>v. deliver (Suc k) demangle frames strsig file sig (set_handler Default_Handler w) = Some (Inr sig, v) \<and>
      (\<exists>ls. printed v = printed w @ map (Pair Cerr) ls) \<and> handlers v sig = Default_Action) \<and>
    (\<exists>v. deliver (Suc (Suc k)) demangle frames strsig file sig (set_handler (Named_Handler name) w) = Some (Inr SIGABRT, v) \<and>
      (\<exists>ls. printed v = printed w @ said FTL file 12 (fatal_text name (strsig sig)) (env.truncate w) @ map (Pair Cerr) ls)) \<and>
    (tp_i p < length (arg_names c) \<and> expected c = 0 \<and> pid p \<noteq> 0 \<and> 0 \<le> pid p \<longrightarrow>
      map_sum id snd (wait_pid p (pid p) sig n c) = Inr FAILURE)"
proof (intro conjI impI)
  have same: "env.truncate (set_handler h w) = env.truncate w" "printed (set_handler h w) = printed w" for h
    by (simp_all add: set_handler_def env.defs)
  have room: "printable 19 (set_handler h w)" "printable 12 (set_handler h w)" for h
    using assms(1) by (simp_all add: set_handler_def printable_def)
  have default: "handlers (set_handler h w) s = h" if "s \<in> set fatal_signals" for s h using that by (simp add: set_handler_def set_handlers_def)
  have abrt: "SIGABRT \<in> set fatal_signals" by (simp add: fatal_signals_def)
  show "\<exists>v. deliver (Suc k) demangle frames strsig file sig (set_handler Default_Handler w) = Some (Inr sig, v) \<and>
      (\<exists>ls. printed v = printed w @ map (Pair Cerr) ls) \<and> handlers v sig = Default_Action"
    using default_handle_kills [OF room(1) [of Default_Handler] assms(2), of demangle "file" sig] default [OF assms(3)]
    by (auto simp: same)
  let ?w = "set_handler (Named_Handler name) w"
  let ?u = "(set_handler Default_Handler ?w)\<lparr>printed := printed w @ said FTL file 12 (fatal_text name (strsig sig)) (env.truncate w)\<rparr>"
  have twice: "set_handler Default_Handler ?w = set_handler Default_Handler w"
    by (simp add: set_handler_def set_handlers_def fun_eq_iff)
  have "say FTL file 12 (fatal_text name (strsig sig)) (set_handler Default_Handler ?w) = Some (Inl Aborted, ?u)"
    unfolding twice using say_aborts [OF room(2)] by (simp add: same)
  then have "deliver (Suc (Suc k)) demangle frames strsig file sig ?w = deliver (Suc k) demangle frames strsig file SIGABRT ?u"
    using default [OF assms(3), of "Named_Handler name"] by simp
  moreover have "printable 19 ?u" unfolding twice using room(1) by simp
  from default_handle_kills [OF this assms(2), of demangle "file" SIGABRT]
  obtain ls where "default_handle demangle frames file SIGABRT ?u = Some (Inr SIGABRT,
      ?u\<lparr>printed := printed ?u @ map (Pair Cerr) ls, handlers := (handlers ?u)(SIGABRT := Default_Action)\<rparr>)" by blast
  moreover have "handlers ?u SIGABRT = Default_Handler" unfolding twice using default [OF abrt] by simp
  ultimately show "\<exists>v. deliver (Suc (Suc k)) demangle frames strsig file sig ?w = Some (Inr SIGABRT, v) \<and>
      (\<exists>ls. printed v = printed w @ said FTL file 12 (fatal_text name (strsig sig)) (env.truncate w) @ map (Pair Cerr) ls)"
    by auto
next
  assume "tp_i p < length (arg_names c) \<and> expected c = 0 \<and> pid p \<noteq> 0 \<and> 0 \<le> pid p"
  moreover have "sig \<noteq> 0" using assms(3) by (auto simp: fatal_signals_def SIGABRT_def)
  ultimately show "map_sum id snd (wait_pid p (pid p) sig n c) = Inr FAILURE"
    by (simp add: wait_pid_def Let_def finish_simps case_arg_name_def)
qed

definition quiet_signals :: sig_world where
  "quiet_signals = \<lparr>max_total = 80, nverbose = False, ndebug = False, indentation = 0, stdin = [], printed = [], clock = 0,
     handlers = (\<lambda>_. Default_Action)\<rparr>"

lemma fatal_signals_kill_witness:
  "\<exists>v. deliver 2 (\<lambda>_. None) [''print_trace'', ''prog(_Zf+0x1c) [0x40]''] (\<lambda>_. ''Segmentation fault'') ''t.cpp'' 11
      (set_handler (Named_Handler ''adds'') quiet_signals) = Some (Inr 6, v)"
proof -
  have w: "printable 19 quiet_signals" by (simp add: printable_def quiet_signals_def)
  have "11 \<in> set fatal_signals" by (simp add: fatal_signals_def)
  from fatal_signals_kill [OF w _ this, THEN conjunct2, THEN conjunct1, of "[''print_trace'', ''prog(_Zf+0x1c) [0x40]'']" 0 "\<lambda>_. None"
      "\<lambda>_. ''Segmentation fault''" "''t.cpp''" "''adds''"]
  show ?thesis by (auto simp: numeral_2_eq_2 SIGABRT_def simp del: deliver.simps)
qed

end
