(* ===== verification/Test_Registry.thy ===== *)
theory Test_Registry
  imports Test_Fork Test_Report "HOL-Library.List_Lexorder" "HOL-Library.Char_ord"
begin

text \<open>
  The registry of \<^verbatim>\<open>src/testing.h\<close> and \<^verbatim>\<open>src/testing.hpp\<close> as the \<^verbatim>\<open>std::map\<close> it is, a list in the order of
  the names: what constructing a test registers and prints, \<open>Run\<close> with its message;
  \<open>NamedTest::operator()\<close> in both processes of its fork, with the function under test as an argument; and \<open>RunAll\<close> over
  any calls, and over those of named tests, the only ones that \<open>Create\<close> makes.
\<close>

section \<open>The map of tests\<close>

type_synonym 't tests = "(string \<times> 't) list"

fun tests_set :: "string \<Rightarrow> 't \<Rightarrow> 't tests \<Rightarrow> 't tests" where
  "tests_set n t [] = [(n, t)]"
| "tests_set n t ((m, u) # xs) =
     (if n = m then (n, t) # xs else if n < m then (n, t) # (m, u) # xs else (m, u) # tests_set n t xs)"

definition registered_text :: "string \<Rightarrow> string" where
  "registered_text name = ''Registered test: '' @ quoted name"

definition skipped_text :: "string \<Rightarrow> string" where
  "skipped_text name = ''Skipped test '' @ quoted name @ '': Does not exist!''"

text \<open>The constructor of \<open>Test\<close> calls \<open>Register\<close>.\<close>

definition test_new :: "string \<Rightarrow> string \<Rightarrow> 't \<Rightarrow> 't tests \<Rightarrow> ('t tests, 'm) run" where
  "test_new file name t m = bind_run (say DBG file 24 (registered_text name)) (\<lambda>_. return_run (tests_set name t m))"

definition run_named :: "string \<Rightarrow> string \<Rightarrow> ('t \<Rightarrow> (bool, 'm) run) \<Rightarrow> 't tests \<Rightarrow> (bool, 'm) run" where
  "run_named file name call m = (case map_of m name of
       None \<Rightarrow> bind_run (say BRK file 47 (skipped_text name)) (\<lambda>_. return_run False)
     | Some t \<Rightarrow> call t)"

fun test_new_all :: "string \<Rightarrow> 't tests \<Rightarrow> 't tests \<Rightarrow> ('t tests, 'm) run" where
  "test_new_all file [] m = return_run m"
| "test_new_all file ((n, t) # rs) m = bind_run (test_new file n t m) (test_new_all file rs)"

section \<open>A test with a name\<close>

text \<open>
  The lambda that \<open>operator()\<close> gives to its case calls the function under test and returns nothing. The
  child leaves with \<^verbatim>\<open>exit(0)\<close>; the parent returns the local \<open>success\<close>, which has no value.
\<close>

definition forget_result :: "('v list \<Rightarrow> bool) \<Rightarrow> 'v list \<Rightarrow> unit" where
  "forget_result test vs = (let _ = test vs in ())"

definition named_case :: "'v list \<Rightarrow> 'v test_case" where
  "named_case vs = case_timeout 0 (case_name ''...'' (case_args vs (new_case (length vs))))"

definition named_test_run ::
  "('v list \<Rightarrow> bool) \<Rightarrow> nat \<Rightarrow> 'v list \<Rightarrow> fork_event \<Rightarrow> visit list \<Rightarrow> int \<Rightarrow> (int \<Rightarrow> disposition) \<Rightarrow> proc \<Rightarrow> (fault + run_end \<times> proc) option" where
  "named_test_run test j vs e seen ind hs s = (case fork_row j 0 e (named_case vs, s) of
       Inl f \<Rightarrow> Some (Inl f)
     | Inr (c, s) \<Rightarrow> (case (if is_parent s then Inr ((), ind, hs) else case_call 0 c (\<lambda>_. forget_result test) ind hs) of
         Inl f \<Rightarrow> Some (Inl f)
       | Inr _ \<Rightarrow> (case wait_all seen c of
           None \<Rightarrow> None
         | Some (Inl f) \<Rightarrow> Some (Inl f)
         | Some (Inr _) \<Rightarrow> if \<not> is_parent s then Some (Inr (Exited 0, s)) else Some (Inl Uninit_Read))))"

section \<open>RunAll\<close>

text \<open>
  The call of a test gives a result, or it ends the process, or it faults, or it does not return. \<open>RunAll\<close> calls the tests in the order of
  the names, whatever those before returned, as long as they return.
\<close>

type_synonym ('t, 's) call = "'t \<Rightarrow> 's \<Rightarrow> (fault + (bool + run_end) \<times> 's) option"

fun run_tests :: "('t, 's) call \<Rightarrow> 't list \<Rightarrow> bool \<Rightarrow> 's \<Rightarrow> (fault + (bool + run_end) \<times> 's) option" where
  "run_tests call [] success s = Some (Inr (Inl success, s))"
| "run_tests call (t # ts) success s = (case call t s of
       Some (Inr (Inl b, s)) \<Rightarrow> run_tests call ts (success \<and> b) s
     | r \<Rightarrow> r)"

definition run_all :: "('t, 's) call \<Rightarrow> 't tests \<Rightarrow> 's \<Rightarrow> (fault + (bool + run_end) \<times> 's) option" where
  "run_all call tests = run_tests call (map snd tests) True"

text \<open>
  The process that calls tests, and for each fork to come what the system gives it and what the
  parent's \<open>WaitAll\<close> finds then. The virtual call of a test without parameters is that of its \<open>NamedTest\<close>, here the
  object number \<open>j\<close> with the function \<open>f\<close>; without an answer of the system it does not return.
\<close>

record tester =
  this_proc :: proc
  coming :: "(fork_event \<times> visit list) list"

definition named_call :: "int \<Rightarrow> (int \<Rightarrow> disposition) \<Rightarrow> (nat \<times> ('v list \<Rightarrow> bool), tester) call" where
  "named_call ind hs = (\<lambda>(j, f) s. case coming s of [] \<Rightarrow> None
     | (e, seen) # es \<Rightarrow> (case named_test_run f j [] e seen ind hs (this_proc s) of
         None \<Rightarrow> None
       | Some (Inl x) \<Rightarrow> Some (Inl x)
       | Some (Inr (r, p)) \<Rightarrow> Some (Inr (Inr r, s\<lparr>this_proc := p, coming := es\<rparr>))))"

section \<open>Registration\<close>

lemma tests_set_names: "set (map fst (tests_set n t m)) = insert n (set (map fst m))"
  by (induction n t m rule: tests_set.induct) auto

lemma tests_set_sorted: "sorted_wrt (<) (map fst m) \<Longrightarrow> sorted_wrt (<) (map fst (tests_set n t m))"
proof (induction n t m rule: tests_set.induct)
  case (2 n t m u xs)
  show ?case
  proof (cases "n < m \<or> n = m")
    case True
    then show ?thesis using 2 by (auto intro: less_trans)
  next
    case False
    then have "m < n" by auto
    then show ?thesis using 2 False tests_set_names [of n t xs] by auto
  qed
qed simp

lemma tests_set_map: "map_of (tests_set n t m) = (map_of m)(n \<mapsto> t)"
proof (induction n t m rule: tests_set.induct)
  case (2 n t m u xs)
  then show ?case by (auto simp: fun_eq_iff)
qed simp

text \<open>So it implements the map from names of \<open>Test_Case\<close>.\<close>

lemma tests_set_refines: "map_of (tests_set n t m) = register_test n t (map_of m)"
  by (simp add: tests_set_map register_test_def)

lemma test_new_exec:
  assumes "printable k w"
  shows "test_new src n t m w =
    Some (Inr (tests_set n t m), w\<lparr>printed := printed w @ said DBG src 24 (registered_text n) (env.truncate w)\<rparr>)"
  using say_printed [OF printable_line [OF assms, of 24]] by (simp add: test_new_def run_simps)

lemma test_new_all_exec:
  assumes "printable k w"
  shows "\<exists>ls. test_new_all src rs m w = Some (Inr (fold (\<lambda>(n, t). tests_set n t) rs m), w\<lparr>printed := printed w @ ls\<rparr>)"
  using assms
proof (induction src rs m arbitrary: w rule: test_new_all.induct)
  case (1 src m)
  then show ?case by (auto simp: run_simps intro: exI [of _ "[]"])
next
  case (2 src n t rs m)
  let ?l = "said DBG src 24 (registered_text n) (env.truncate w)"
  obtain ls where "test_new_all src rs (tests_set n t m) (w\<lparr>printed := printed w @ ?l\<rparr>) =
      Some (Inr (fold (\<lambda>(n, t). tests_set n t) rs (tests_set n t m)), w\<lparr>printed := printed w @ ?l @ ls\<rparr>)"
    using "2.IH" [of "w\<lparr>printed := printed w @ ?l\<rparr>" "tests_set n t m"] "2.prems" by auto
  then show ?case using test_new_exec [OF "2.prems", of src n t m] by (auto simp: run_simps)
qed

lemma fold_tests_set:
  "sorted_wrt (<) (map fst m) \<Longrightarrow> sorted_wrt (<) (map fst (fold (\<lambda>(n, t). tests_set n t) rs m)) \<and>
    map_of (fold (\<lambda>(n, t). tests_set n t) rs m) = map_of m ++ map_of (rev rs)"
proof (induction rs arbitrary: m)
  case (Cons r rs)
  obtain n t where r: "r = (n, t)" by (cases r)
  show ?case using Cons.IH [OF tests_set_sorted [OF Cons.prems]]
    by (simp add: r tests_set_map map_add_def fun_eq_iff split: option.splits)
qed simp

section \<open>Calls\<close>

text \<open>The results that the tests return one after the other, up to the first that returns none, and the state after them.\<close>

fun answers :: "('t, 's) call \<Rightarrow> 't list \<Rightarrow> 's \<Rightarrow> bool list \<times> 's" where
  "answers call [] s = ([], s)"
| "answers call (t # ts) s = (case call t s of
       Some (Inr (Inl b, s)) \<Rightarrow> (case answers call ts s of (bs, s) \<Rightarrow> (b # bs, s))
     | _ \<Rightarrow> ([], s))"

lemma run_tests_answers:
  "run_tests call ts b s = (case answers call ts s of (bs, s') \<Rightarrow>
     if length bs = length ts then Some (Inr (Inl (b \<and> (\<forall>x \<in> set bs. x)), s')) else call (ts ! length bs) s')"
  by (induction ts arbitrary: b s) (auto split: option.splits sum.splits prod.splits)

text \<open>A named test: its child exits, its parent gets no value. So no call of one returns.\<close>

lemma no_children: "children (named_case vs) = []"
  by (simp add: named_case_def case_timeout_def case_name_def case_args_def new_case_def)

lemma named_args: "args (named_case vs) = map (\<lambda>v. [v]) vs"
proof -
  have "args_add (replicate (length vs) []) vs = map (\<lambda>v. [v]) vs" for vs :: "'a list"
    by (induction vs) simp_all
  then show ?thesis by (simp add: named_case_def case_timeout_def case_name_def case_args_def new_case_def)
qed

lemma call_named_args: "args_call 0 (map (\<lambda>v. [v]) vs) f = Inr (f vs)"
  by (simp add: args_call_def call_helper_row comp_def)

lemma named_parent:
  assumes "fresh_fds e s" "0 < ev_pid e"
  shows "named_test_run test j vs e seen ind hs s \<noteq> Some (Inr x)"
proof -
  let ?c = "case_fork 0 (ev_now e) (ev_pid e) (named_case vs)"
  have "children ?c \<noteq> []" by (simp add: case_fork_def insert_child_def no_children)
  then have "wait_all seen ?c \<noteq> Some (Inr b)" for b using wait_all_never_true by blast
  then show ?thesis using fork_row_parent [OF assms, of j 0 "named_case vs"]
    by (auto simp: named_test_run_def split: option.splits sum.splits)
qed

lemma named_child:
  assumes "fresh_fds e s" "ev_pid e = 0"
  shows "\<exists>t. named_test_run test j vs e seen ind hs s = Some (Inr (Exited 0, t)) \<and> called t = called s @ [(j, 0)]"
  using fork_row_child [OF assms, of j 0 "named_case vs"]
  by (simp add: named_test_run_def case_call_def named_args call_named_args Let_def wait_all.simps no_children)

lemma named_call_outcome:
  assumes "coming s = (e, seen) # es" "fresh_fds e (this_proc s)"
  shows "ev_pid e = 0 \<Longrightarrow> \<exists>s'. named_call ind hs (j, f) s = Some (Inr (Inr (Exited 0), s')) \<and>
      called (this_proc s') = called (this_proc s) @ [(j, 0)]"
    and "0 < ev_pid e \<Longrightarrow> named_call ind hs (j, f) s \<noteq> Some (Inr x)"
    and "ev_pid e < 0 \<Longrightarrow> named_call ind hs (j, f) s = Some (Inl Aborted)"
proof -
  show "\<exists>s'. named_call ind hs (j, f) s = Some (Inr (Inr (Exited 0), s')) \<and>
      called (this_proc s') = called (this_proc s) @ [(j, 0)]" if "ev_pid e = 0"
    using named_child [OF assms(2) that, of f j "[]" seen ind hs] assms(1) by (auto simp: named_call_def)
  show "named_call ind hs (j, f) s \<noteq> Some (Inr x)" if "0 < ev_pid e"
    using named_parent [OF assms(2) that, of f j "[]" seen ind hs] assms(1)
    by (auto simp: named_call_def split: option.splits sum.splits)
  show "named_call ind hs (j, f) s = Some (Inl Aborted)" if "ev_pid e < 0"
    using that assms(1) by (simp add: named_call_def named_test_run_def fork_row_def Let_def)
qed

lemma named_no_value: "named_call ind hs t s \<noteq> Some (Inr (Inl b, s'))"
  by (auto simp: named_call_def split: prod.splits list.splits option.splits sum.splits)

lemma answers_named: "answers (\<lambda>t. named_call ind hs (obj t)) ts s = ([], s)"
  by (cases ts) (auto simp: named_no_value split: option.splits sum.splits)

text \<open>So \<open>RunAll\<close> calls the test with the least name and no other.\<close>

lemma run_all_named:
  "run_all (\<lambda>t. named_call ind hs (obj t)) m s =
    (if m = [] then Some (Inr (Inl True, s)) else named_call ind hs (obj (snd (hd m))) s)"
  by (cases m) (simp_all add: run_all_def run_tests_answers answers_named del: run_tests.simps)

section \<open>Properties\<close>

text \<open>
  C28: The registry. After any tests have been registered, the map is in the order of the names with one
  entry for each name, the last that was registered under it; \<open>Run\<close> calls that test, and of a name
  that is not there returns false after a question answered y. \<open>RunAll\<close>, whatever the calls do, makes them
  in the order of the names, also after one that returned false, up to the first call that does not return, which is how it ends then; when all
  return, it returns whether all succeeded. The tests of the program are named tests, whose calls
  never return: of these \<open>RunAll\<close> calls only the one with the least name, and it never returns.
\<close>

theorem registry_runs:
  fixes rs :: "'t tests" and w :: "'m world_scheme"
  assumes "printable 24 w"
  shows "\<exists>v m. test_new_all src rs [] w = Some (Inr m, v) \<and> sorted_wrt (<) (map fst m) \<and>
    set (map fst m) = set (map fst rs) \<and> map_of m = map_of (rev rs) \<and>
    (\<forall>t. map_of (rev rs) n = Some t \<longrightarrow> run_named src n call m u = call t u) \<and>
    (n \<notin> set (map fst rs) \<and> printable 47 u \<and> stdin u = CHR ''y'' # rest \<longrightarrow>
       (\<exists>ls. run_named src n call m u = Some (Inr False, u\<lparr>printed := ls, stdin := rest\<rparr>))) \<and>
    run_all vcall m s = (case answers vcall (map snd m) s of (bs, s') \<Rightarrow>
       if length bs = length m then Some (Inr (Inl (\<forall>b \<in> set bs. b), s')) else vcall (map snd m ! length bs) s') \<and>
    (rs \<noteq> [] \<longrightarrow> m \<noteq> [] \<and> run_all (\<lambda>t. named_call ind hs (obj t)) m z = named_call ind hs (obj (snd (hd m))) z \<and>
       (\<forall>b z'. run_all (\<lambda>t. named_call ind hs (obj t)) m z \<noteq> Some (Inr (Inl b, z'))))"
proof -
  define m where "m = fold (\<lambda>(n, t). tests_set n t) rs []"
  obtain ls where run: "test_new_all src rs [] w = Some (Inr m, w\<lparr>printed := printed w @ ls\<rparr>)"
    using test_new_all_exec [OF assms(1), of src rs "[]"] by (auto simp: m_def)
  have m: "sorted_wrt (<) (map fst m)" "map_of m = map_of (rev rs)"
    using fold_tests_set [of "[]" rs] by (simp_all add: m_def)
  have "dom (map_of m) = dom (map_of (rev rs))" using m(2) by simp
  then have names: "set (map fst m) = set (map fst rs)" by (simp add: dom_map_of_conv_image_fst)
  have "\<exists>ls. run_named src n call m u = Some (Inr False, u\<lparr>printed := ls, stdin := rest\<rparr>)"
    if "n \<notin> set (map fst rs)" "printable 47 u" "stdin u = CHR ''y'' # rest"
  proof -
    have "map_of m n = None" using that(1) names by (simp add: map_of_eq_None_iff)
    then show ?thesis using say_goes_on [OF that(2,3), of src "skipped_text n"] by (auto simp: run_named_def run_simps)
  qed
  moreover have "run_named src n call m u = call t u" if "map_of (rev rs) n = Some t" for t
    using that m(2) by (simp add: run_named_def)
  moreover have "run_all vcall m s = (case answers vcall (map snd m) s of (bs, s') \<Rightarrow>
       if length bs = length m then Some (Inr (Inl (\<forall>b \<in> set bs. b), s')) else vcall (map snd m ! length bs) s')"
    by (auto simp: run_all_def run_tests_answers split: prod.splits)
  moreover have "m \<noteq> [] \<and> run_all (\<lambda>t. named_call ind hs (obj t)) m z = named_call ind hs (obj (snd (hd m))) z \<and>
       (\<forall>b z'. run_all (\<lambda>t. named_call ind hs (obj t)) m z \<noteq> Some (Inr (Inl b, z')))" if "rs \<noteq> []"
  proof -
    have "m \<noteq> []" using names that by (cases rs) auto
    then show ?thesis by (simp add: run_all_named named_no_value)
  qed
  ultimately show ?thesis using run m names by blast
qed

text \<open>A process that is about to fork, in its child.\<close>

definition forking :: tester where
  "forking = \<lparr>this_proc = shell, coming = [(\<lparr>ev_read = 3, ev_write = 4, ev_pid = 0, ev_now = 7\<rparr>, [])]\<rparr>"

lemma forking_child:
  "\<exists>s'. named_call 0 (\<lambda>_. Default_Handler) (j, f) forking = Some (Inr (Inr (Exited 0), s')) \<and> called (this_proc s') = [(j, 0)]"
proof -
  have "fresh_fds \<lparr>ev_read = 3, ev_write = 4, ev_pid = 0, ev_now = 7\<rparr> (this_proc forking)" "called (this_proc forking) = []"
    by (simp_all add: fresh_fds_def forking_def shell_def)
  then show ?thesis
    using named_call_outcome(1) [of forking "\<lparr>ev_read = 3, ev_write = 4, ev_pid = 0, ev_now = 7\<rparr>" "[]" "[]" 0 "\<lambda>_. Default_Handler" j f]
    by (simp add: forking_def)
qed

lemma registry_runs_witness:
  "\<exists>v m s'. test_new_all ''t.cc'' [(''b'', 2), (''a'', 5), (''b'', 3 :: nat)] [] quiet_world = Some (Inr m, v) \<and>
    map fst m = [''a'', ''b''] \<and>
    run_named ''t.cc'' ''b'' (\<lambda>t w. Some (Inr (t = 3), w\<lparr>clock := clock w + of_nat t\<rparr>)) m quiet_world =
      Some (Inr True, quiet_world\<lparr>clock := 3\<rparr>) \<and>
    run_all (\<lambda>t. named_call 0 (\<lambda>_. Default_Handler) (t, \<lambda>_ :: nat list. False)) m forking = Some (Inr (Inr (Exited 0), s')) \<and>
    called (this_proc s') = [(5, 0)]"
proof -
  let ?rs = "[(''b'', 2), (''a'', 5), (''b'', 3 :: nat)]"
  let ?call = "\<lambda>t (w :: world). Some (Inr (t = 3) :: fault + bool, w\<lparr>clock := clock w + of_nat (t :: nat)\<rparr>)"
  let ?all = "\<lambda>m. run_all (\<lambda>t. named_call 0 (\<lambda>_. Default_Handler) (t, \<lambda>_ :: nat list. False)) m forking"
  have pr: "printable 24 quiet_world" by (simp add: quiet_world_printable)
  obtain v m where m: "test_new_all ''t.cc'' ?rs [] quiet_world = Some (Inr m, v)" "sorted_wrt (<) (map fst m)"
      "set (map fst m) = set (map fst ?rs)" "map_of m = map_of (rev ?rs)"
      "\<forall>t. map_of (rev ?rs) ''b'' = Some t \<longrightarrow> run_named ''t.cc'' ''b'' ?call m quiet_world = ?call t quiet_world"
      "?rs \<noteq> [] \<longrightarrow> m \<noteq> [] \<and> ?all m = named_call 0 (\<lambda>_. Default_Handler) (snd (hd m), \<lambda>_ :: nat list. False) forking \<and> (\<forall>b z'. ?all m \<noteq> Some (Inr (Inl b, z')))"
    using registry_runs [where call = ?call and src = "''t.cc''" and rs = ?rs and n = "''b''" and u = quiet_world and w = quiet_world
        and obj = "\<lambda>t. (t, \<lambda>_ :: nat list. False)" and z = forking and ind = 0 and hs = "\<lambda>_. Default_Handler"
        and rest = "[]" and vcall = "\<lambda>_ _. None" and s = forking, OF pr]
    by (elim exE conjE) (rule that)
  have "sorted_wrt (<) [''a'', ''b'']" "set (map fst m) = set [''a'', ''b'']" using m(3) by auto
  then have names: "map fst m = [''a'', ''b'']" using m(2) by (metis strict_sorted_equal)
  then obtain t x where t: "m = (''a'', t) # x" by (cases m) auto
  then have "map_of m ''a'' = Some t" by simp
  then have "t = 5" using m(4) by simp
  then show ?thesis using m(1,5,6) names t forking_child [of 5 "\<lambda>_ :: nat list. False"] by auto
qed

text \<open>
  C26: What a test returns is lost. In the child of a test with a name the function under test is called
  once, and the child exits with 0 whether it returned true or false; the status of such a child is
  the success that its case expects. The parent never gets a value.
\<close>

theorem named_test_outcome:
  assumes "fresh_fds e s"
  shows "(ev_pid e = 0 \<longrightarrow> (\<exists>t. named_test_run test j vs e seen ind hs s = Some (Inr (Exited 0, t)) \<and> called t = called s @ [(j, 0)])) \<and>
    (0 < ev_pid e \<longrightarrow> (\<forall>x. named_test_run test j vs e seen ind hs s \<noteq> Some (Inr x))) \<and>
    (ev_pid e = 0 \<longrightarrow> args_call 0 (args (named_case vs)) test = Inr (test vs)) \<and>
    (tp_i p = 0 \<and> 0 < pid p \<longrightarrow> map_sum id snd (wait_pid p (pid p) 0 n (named_case vs)) = Inr SUCCESS)"
proof -
  have "map_sum id snd (wait_pid p (pid p) 0 n (named_case vs)) = Inr SUCCESS" if "tp_i p = 0" "0 < pid p"
    using that by (simp add: wait_pid_def Let_def finish_simps case_arg_name_def named_case_def case_timeout_def case_name_def
        case_args_def new_case_def)
  then show ?thesis by (simp add: named_args call_named_args named_parent [OF assms] named_child [OF assms])
qed

lemma named_test_outcome_witness:
  "\<exists>t. named_test_run (\<lambda>vs. False) 0 [3 :: nat] \<lparr>ev_read = 3, ev_write = 4, ev_pid = 0, ev_now = 7\<rparr> [] 0 (\<lambda>_. Default_Handler) shell = Some (Inr (Exited 0, t)) \<and>
    called t = [(0, 0)]"
proof -
  have "fresh_fds \<lparr>ev_read = 3, ev_write = 4, ev_pid = 0, ev_now = 7\<rparr> shell" by (simp add: fresh_fds_def shell_def)
  from named_test_outcome [OF this, of "\<lambda>vs. False" 0 "[3 :: nat]" "[]" 0 "\<lambda>_. Default_Handler", THEN conjunct1] have
    "\<exists>t. named_test_run (\<lambda>vs. False) 0 [3 :: nat] \<lparr>ev_read = 3, ev_write = 4, ev_pid = 0, ev_now = 7\<rparr> [] 0 (\<lambda>_. Default_Handler) shell = Some (Inr (Exited 0, t)) \<and>
      called t = called shell @ [(0, 0)]" by simp
  moreover have "called shell = []" by (simp add: shell_def)
  ultimately show ?thesis by simp
qed

end
