(* ===== verification/Test_Arguments.thy ===== *)
theory Test_Arguments
  imports Test_Case
begin

text \<open>
  The three templates \<^verbatim>\<open>Argument<T>\<close>, \<^verbatim>\<open>Argument<T*>\<close> and \<^verbatim>\<open>Argument<T&>\<close> of \<^verbatim>\<open>src/arguments.h\<close> that
  \<open>Arguments\<close> keeps its rows in: what they store when a row is added to a case, and what the test
  function sees when the row is called, in the memory of that time.
\<close>

text \<open>
  A parameter of the test function: a value, a pointer, or a reference, which is the address of its
  object. The memory is that of the objects outside the case.
\<close>

datatype 'v param = Value 'v | Pointer_To oid | Reference_To oid

datatype 'v argument = Arg_Value 'v | Arg_Pointer oid | Arg_Reference oid

fun argument_new :: "'v param \<Rightarrow> 'v argument" where
  "argument_new (Value v) = Arg_Value v"
| "argument_new (Pointer_To a) = Arg_Pointer a"
| "argument_new (Reference_To a) = Arg_Reference a"

text \<open>The conversion operators, which \<open>CallHelper\<close>'s call of the function uses.\<close>

fun argument_get :: "'v argument \<Rightarrow> 'v param" where
  "argument_get (Arg_Value v) = Value v"
| "argument_get (Arg_Pointer a) = Pointer_To a"
| "argument_get (Arg_Reference a) = Reference_To a"

text \<open>What the function reads through a parameter, and through all.\<close>

fun seen :: "(oid \<rightharpoonup> 'v) \<Rightarrow> 'v param \<Rightarrow> fault + 'v" where
  "seen mem (Value v) = Inr v"
| "seen mem (Pointer_To a) = (case mem a of None \<Rightarrow> Inl Use_After_Free | Some v \<Rightarrow> Inr v)"
| "seen mem (Reference_To a) = (case mem a of None \<Rightarrow> Inl Use_After_Free | Some v \<Rightarrow> Inr v)"

fun seen_all :: "(oid \<rightharpoonup> 'v) \<Rightarrow> 'v param list \<Rightarrow> fault + 'v list" where
  "seen_all mem [] = Inr []"
| "seen_all mem (x # xs) = bind_res (seen mem x) (\<lambda>v. bind_res (seen_all mem xs) (\<lambda>vs. Inr (v # vs)))"

definition add_row :: "'v param list \<Rightarrow> 'v argument test_case \<Rightarrow> 'v argument test_case" where
  "add_row xs = case_args (map argument_new xs)"

definition call_row :: "nat \<Rightarrow> (oid \<rightharpoonup> 'v) \<Rightarrow> 'v argument test_case \<Rightarrow> int \<Rightarrow> fault + 'v list" where
  "call_row i mem c ind = bind_res (case_call i c (\<lambda>_ xs. seen_all mem (map argument_get xs)) ind (\<lambda>_. Default_Handler)) (\<lambda>(r, _). r)"

lemma argument_get_new [simp]: "argument_get (argument_new x) = x"
  by (cases x) simp_all

lemma seen_all_values: "seen_all mem (map Value vs) = Inr vs"
  by (induction vs) simp_all

lemma seen_all_dangling: "Reference_To a \<in> set xs \<Longrightarrow> mem a = None \<Longrightarrow> \<exists>e. seen_all mem xs = Inl e"
proof (induction xs)
  case (Cons x xs)
  show ?case
  proof (cases "seen mem x")
    case (Inr v)
    then have "x \<noteq> Reference_To a" using Cons.prems(2) by auto
    then obtain e where "seen_all mem xs = Inl e" using Cons by auto
    then show ?thesis using Inr by simp
  qed simp
qed simp

lemma row_columns:
  assumes "\<forall>r \<in> set rows. length r = n"
  shows "args (fold add_row rows (new_case n)) = map (\<lambda>j. map (\<lambda>r. argument_new (r ! j)) rows) [0..<n]"
proof -
  have "args (fold add_row rows c) = fold (\<lambda>r ms. args_add ms r) (map (map argument_new) rows) (args c)"
    for c :: "'a argument test_case"
    by (induction rows arbitrary: c) (simp_all add: add_row_def case_args_def)
  then have "args (fold add_row rows (new_case n)) =
      map (\<lambda>j. map (\<lambda>r. r ! j) (map (map argument_new) rows)) [0..<n]"
    using args_rows [of "map (map argument_new) rows" n] assms by (simp add: new_case_def)
  also have "\<dots> = map (\<lambda>j. map (\<lambda>r. argument_new (r ! j)) rows) [0..<n]"
    using assms by simp
  finally show ?thesis .
qed

text \<open>
  A row by value is what it was when it was added, whatever happened to the memory; a row of
  references shows the objects as they are when the test runs, and a reference to an object that is
  gone, such as a temporary of the declaration of the case, dangles.
\<close>

lemma row_seen:
  assumes "\<forall>r \<in> set rows. length r = n" "i < length rows"
  shows "call_row i mem (fold add_row rows (new_case n)) ind = seen_all mem (rows ! i)"
    "rows ! i = map Value vs \<Longrightarrow> call_row i mem (fold add_row rows (new_case n)) ind = Inr vs"
    "Reference_To a \<in> set (rows ! i) \<Longrightarrow> mem a = None \<Longrightarrow> \<exists>e. call_row i mem (fold add_row rows (new_case n)) ind = Inl e"
proof -
  have "map (\<lambda>m. m ! i) (map (\<lambda>j. map (\<lambda>r. argument_new (r ! j)) rows) [0..<n]) = map argument_new (rows ! i)"
    using assms by (intro nth_equalityI) simp_all
  then have "args_call i (args (fold add_row rows (new_case n))) f = Inr (f (map argument_new (rows ! i)))" for f :: "_ \<Rightarrow> fault + 'a list"
    using assms(2) by (simp add: row_columns [OF assms(1)] args_call_def call_helper_row)
  then show all: "call_row i mem (fold add_row rows (new_case n)) ind = seen_all mem (rows ! i)"
    by (simp add: call_row_def case_call_def Let_def comp_def)
  show "rows ! i = map Value vs \<Longrightarrow> call_row i mem (fold add_row rows (new_case n)) ind = Inr vs"
    unfolding all by (simp add: seen_all_values)
  show "Reference_To a \<in> set (rows ! i) \<Longrightarrow> mem a = None \<Longrightarrow> \<exists>e. call_row i mem (fold add_row rows (new_case n)) ind = Inl e"
    unfolding all by (rule seen_all_dangling)
qed

end
