(* ===== verification/Test_Declare.thy ===== *)
theory Test_Declare
  imports Macros Test_Registry Test_Arguments
begin

text \<open>
  How tests and cases are declared: the macro \<^verbatim>\<open>CASE\<close> of \<^verbatim>\<open>src/cases.h\<close> with the rows of arguments it is
  given, the expression it expands to and the case that this expression makes; and the macros \<^verbatim>\<open>TEST\<close>,
  \<^verbatim>\<open>DECLARE_TEST\<close>, \<^verbatim>\<open>TEST_CASE\<close> and \<^verbatim>\<open>EXPECT_STREAM\<close> of \<^verbatim>\<open>src/testing.h\<close>, with the static initialisation of several units that they
  rely on.

  Macro text is that of \<open>Macros\<close>. The stringizing operator \<open>#\<close> (\<open>str\<close>, its spacing is the preprocessor's)
  and the evaluation of the expressions in a row (\<open>ev\<close>) are arguments.
\<close>

section \<open>The rows of a case\<close>

definition open_paren :: token where "open_paren = Word ''(''"
definition close_paren :: token where "close_paren = Word '')''"

text \<open>How deep in parentheses the text is after a token, and the arguments of a macro call: the text between the commas outside of parentheses.\<close>

definition deeper :: "nat \<Rightarrow> token \<Rightarrow> nat" where
  "deeper d t = (if t = open_paren then d + 1 else if t = close_paren then d - 1 else d)"

fun split_args :: "nat \<Rightarrow> mtext \<Rightarrow> mtext \<Rightarrow> mtext list" where
  "split_args d a [] = [a]"
| "split_args d a (t # ts) =
     (if t = Comma \<and> d = 0 then a # split_args 0 [] ts else split_args (deeper d t) (a @ [t]) ts)"

text \<open>\<^verbatim>\<open>ARGS__MAP(a)\<close>, and the list of rows; without rows there is the row \<open>()\<close>.\<close>

definition args_map :: "(mtext \<Rightarrow> string) \<Rightarrow> mtext \<Rightarrow> mtext" where
  "args_map str a = [Word ''['', Word (str a), Word '']''] @ a"

definition case_rows_macro :: "(mtext \<Rightarrow> string) \<Rightarrow> mtext list \<Rightarrow> mtext option" where
  "case_rows_macro str rows = Option.bind (default_macro [open_paren, close_paren] rows)
     (\<lambda>t. map_reduce (args_map str) space_separate (split_args 0 [] t))"

text \<open>
  \<^verbatim>\<open>CASE_(name, params, ...)\<close>: the call of \<open>createCase\<close> (its first argument gives the types of the parameters), the
  rows, and the function.
\<close>

definition case_macro :: "(mtext \<Rightarrow> string) \<Rightarrow> mtext \<Rightarrow> mtext \<Rightarrow> mtext list \<Rightarrow> mtext option" where
  "case_macro str title params rows = map_option (\<lambda>t.
     [Word ''::Tester::createCase'', open_paren, Word ''::Tester::lambdaFunc'', open_paren, Word ''[]''] @ params @
     [Word ''{}'', close_paren, Comma, Word (str title), Word (str params), close_paren] @ t @ [Word ''*'', Word ''[&]''] @ params)
     (case_rows_macro str rows)"

section \<open>The expression\<close>

text \<open>The operators applied to the new case: a name in brackets, a row in parentheses.\<close>

datatype suffix = Index string | Apply mtext

fun take_row :: "nat \<Rightarrow> mtext \<Rightarrow> (mtext \<times> mtext) option" where
  "take_row d [] = None"
| "take_row d (t # ts) = (if deeper d t = 0 then Some ([t], ts)
     else map_option (\<lambda>(a, r). (t # a, r)) (take_row (deeper d t) ts))"

lemma take_row_length: "take_row d ts = Some (a, r) \<Longrightarrow> length r < length ts"
  by (induction d ts arbitrary: a rule: take_row.induct) (fastforce split: if_splits)+

function suffixes :: "mtext \<Rightarrow> (suffix list \<times> mtext) option" where
  "suffixes [] = Some ([], [])"
| "suffixes (t # us) =
     (if t = Word ''['' then (case us of
          Word n # y # vs \<Rightarrow> if y = Word '']'' then map_option (\<lambda>(ss, r). (Index n # ss, r)) (suffixes vs) else None
        | _ \<Rightarrow> None)
      else if t = open_paren then
        (case take_row 0 (t # us) of None \<Rightarrow> None
         | Some (a, r) \<Rightarrow> map_option (\<lambda>(ss, r). (Apply a # ss, r)) (suffixes r))
      else Some ([], t # us))"
  by pat_completeness auto
termination
  by (relation "measure length") (auto dest!: take_row_length simp del: take_row.simps)

declare suffixes.simps(2) [simp del]

text \<open>
  A case with what \<open>test_case\<close> leaves out, its name and its function; \<open>createCase\<close>, \<open>operator*\<close>, and the
  whole expression.
\<close>

record ('v, 'r) declared =
  the_case :: "'v test_case"
  title :: string
  func :: "('v list \<Rightarrow> 'r) option"

definition create_case :: "string \<Rightarrow> nat \<Rightarrow> ('v, 'r) declared" where
  "create_case name n = \<lparr>the_case = new_case n, title = name, func = None\<rparr>"

definition case_func :: "('v list \<Rightarrow> 'r) \<Rightarrow> ('v, 'r) declared \<Rightarrow> ('v, 'r) declared" where
  "case_func f c = c\<lparr>func := Some f\<rparr>"

fun apply_suffix :: "(mtext \<Rightarrow> 'v list) \<Rightarrow> suffix \<Rightarrow> 'v test_case \<Rightarrow> 'v test_case" where
  "apply_suffix ev (Index n) c = case_name n c"
| "apply_suffix ev (Apply a) c = case_args (ev a) c"

definition case_expression ::
  "(mtext \<Rightarrow> string) \<Rightarrow> (mtext \<Rightarrow> 'v list) \<Rightarrow> mtext \<Rightarrow> mtext \<Rightarrow> nat \<Rightarrow> ('v list \<Rightarrow> 'r) \<Rightarrow> mtext list \<Rightarrow> ('v, 'r) declared option" where
  "case_expression str ev name params n f rows = Option.bind (case_rows_macro str rows) (\<lambda>t.
     Option.bind (suffixes t) (\<lambda>(ss, r). if r = [] then
       Some (case_func f ((create_case (str name @ str params) n)\<lparr>the_case := fold (apply_suffix ev) ss (new_case n)\<rparr>)) else None))"

text \<open>\<open>Call\<close> of a declared case on one row; a function that was never given is an empty \<^verbatim>\<open>std::function\<close>, which throws.\<close>

definition declared_call :: "nat \<Rightarrow> ('v, 'r) declared \<Rightarrow> fault + 'r" where
  "declared_call i c = (case func c of None \<Rightarrow> Inl Aborted | Some f \<Rightarrow> args_call i (args (the_case c)) f)"

section \<open>Rows of text\<close>

text \<open>A row is text in one pair of parentheses.\<close>

definition is_row :: "mtext \<Rightarrow> bool" where
  "is_row a \<longleftrightarrow> (\<exists>b. a = open_paren # b) \<and> take_row 0 a = Some (a, [])"

lemma take_row_append: "take_row d a = Some (b, r) \<Longrightarrow> take_row d (a @ c) = Some (b, r @ c)"
  by (induction d a arbitrary: b rule: take_row.induct) (auto split: if_splits)

lemma take_row_is_row: "is_row a \<Longrightarrow> take_row 0 (a @ c) = Some (a, c)"
  using take_row_append [of 0 a a "[]" c] by (simp add: is_row_def)

lemma split_args_row:
  "take_row d a = Some (a, []) \<Longrightarrow> 0 < d \<Longrightarrow> split_args d x (a @ ts) = split_args 0 (x @ a) ts"
proof (induction d a arbitrary: x rule: take_row.induct)
  case (2 d t ts')
  show ?case
  proof (cases "deeper d t = 0")
    case True
    then show ?thesis using 2 by simp
  next
    case False
    then have "take_row (deeper d t) ts' = Some (ts', [])" using 2(2) by (auto split: if_splits)
    then show ?thesis using 2(1) [OF False, of "x @ [t]"] 2(3) False by simp
  qed
qed simp

lemma split_args_is_row:
  assumes "is_row a"
  shows "split_args 0 [] (a @ ts) = split_args 0 a ts"
proof -
  obtain b where b: "a = open_paren # b" using assms by (auto simp: is_row_def)
  then have "take_row 1 b = Some (b, [])" using assms by (auto simp: is_row_def deeper_def)
  then show ?thesis using split_args_row [of 1 b "[open_paren]" ts] b by (simp add: deeper_def open_paren_def)
qed

lemma split_comma_list: "rows \<noteq> [] \<Longrightarrow> \<forall>a \<in> set rows. is_row a \<Longrightarrow> split_args 0 [] (comma_list rows) = rows"
proof (induction rows)
  case (Cons a rows)
  show ?case
  proof (cases rows)
    case Nil
    then show ?thesis using Cons.prems split_args_is_row [of a "[]"] by (simp add: comma_list_def)
  next
    case (Cons b bs)
    then have "comma_list (a # rows) = a @ Comma # comma_list rows" by (intro comma_list_Cons) simp
    then show ?thesis using Cons.IH Cons.prems Cons split_args_is_row [of a "Comma # comma_list rows"] by simp
  qed
qed simp

lemma suffixes_row:
  assumes "is_row a"
  shows "suffixes (args_map str a @ ts) = map_option (\<lambda>(ss, r). (Index (str a) # Apply a # ss, r)) (suffixes ts)"
proof -
  obtain b where b: "a = open_paren # b" using assms by (auto simp: is_row_def)
  have "take_row 0 (open_paren # (b @ ts)) = Some (a, ts)" using take_row_is_row [OF assms, of ts] b by simp
  then have "suffixes (a @ ts) = map_option (\<lambda>(ss, r). (Apply a # ss, r)) (suffixes ts)"
    by (simp add: b suffixes.simps(2) [of open_paren] del: take_row.simps) (simp add: open_paren_def)
  then show ?thesis by (simp add: args_map_def suffixes.simps(2) option.map_comp comp_def case_prod_unfold)
qed

fun row_suffixes :: "(mtext \<Rightarrow> string) \<Rightarrow> mtext list \<Rightarrow> suffix list" where
  "row_suffixes str [] = []"
| "row_suffixes str (a # as) = Index (str a) # Apply a # row_suffixes str as"

lemma fold_text_rows: "fold_text (args_map str) space_separate as = concat (map (args_map str) as)"
  by (induction "args_map str" space_separate as rule: fold_text.induct) (simp_all add: space_separate_def)

lemma suffixes_rows: "\<forall>a \<in> set as. is_row a \<Longrightarrow> suffixes (concat (map (args_map str) as)) = Some (row_suffixes str as, [])"
  by (induction as) (simp_all add: suffixes_row)

definition shown_rows :: "mtext list \<Rightarrow> mtext list" where
  "shown_rows rows = (if rows = [] then [[open_paren, close_paren]] else rows)"

lemma shown_rows_rows: "\<forall>a \<in> set rows. is_row a \<Longrightarrow> \<forall>a \<in> set (shown_rows rows). is_row a"
  by (auto simp: shown_rows_def is_row_def deeper_def open_paren_def close_paren_def)

text \<open>A row is not one word, so that no row is taken for a number or an answer.\<close>

lemma is_row_no_word:
  assumes "is_row a"
  shows "a \<noteq> []" "pasted_number (Own a) = None" "pasted_answer (Own a) = None"
proof -
  have long: "a \<noteq> [Word w]" for w using assms by (auto simp: is_row_def deeper_def open_paren_def)
  show "a \<noteq> []" using assms by (auto simp: is_row_def)
  show "pasted_number (Own a) = None" by (cases "Own a" rule: pasted_number.cases) (use long in auto)
  show "pasted_answer (Own a) = None" by (cases "Own a" rule: pasted_answer.cases) (use long in auto)
qed

lemma case_rows_text:
  assumes "\<forall>a \<in> set rows. is_row a"
  shows "case_rows_macro str rows =
    (if length rows \<le> 43 then Some (concat (map (args_map str) (shown_rows rows))) else None)"
proof (cases "length rows \<le> 43")
  case True
  have "\<not> is_row []" by (simp add: is_row_def)
  then have one: "rows \<noteq> [[]]" "shown_rows rows \<noteq> [[]]" using assms by (auto simp: shown_rows_def)
  have "split_args 0 [] (comma_list (shown_rows rows)) = shown_rows rows"
    using shown_rows_rows [OF assms] by (intro split_comma_list) (auto simp: shown_rows_def)
  moreover have "default_macro [open_paren, close_paren] rows = Some (comma_list (shown_rows rows))"
    using True one(1) by (auto simp: list_macros(3) shown_rows_def comma_list_def)
  moreover have "length (shown_rows rows) \<le> 43" using True by (simp add: shown_rows_def)
  ultimately show ?thesis using True one(2) by (simp add: case_rows_macro_def map_reduce_fold(1) fold_text_rows)
next
  case False
  then have "pasted_answer (Own (rows ! 43)) = None" using assms by (intro is_row_no_word(3)) auto
  then show ?thesis using False by (auto simp: case_rows_macro_def list_macros(3))
qed

lemma fold_row_suffixes:
  "fold (apply_suffix ev) (row_suffixes str as) c =
    c\<lparr>args := fold (\<lambda>a ms. args_add ms (ev a)) as (args c), arg_names := arg_names c @ map str as\<rparr>"
  by (induction as arbitrary: c) (simp_all add: case_name_def case_args_def)

section \<open>Declared cases\<close>

lemma args_add_rows:
  assumes "\<forall>a \<in> set as. length (ev a) = n"
  shows "fold (\<lambda>a ms. args_add ms (ev a)) as (replicate n []) = map (\<lambda>j. map (\<lambda>a. ev a ! j) as) [0..<n]"
proof -
  have "fold (\<lambda>a ms. args_add ms (ev a)) as ms = fold (\<lambda>r ms. args_add ms r) (map ev as) ms" for ms
    by (simp add: fold_map comp_def)
  then show ?thesis using args_rows [of "map ev as" n] assms by (simp add: comp_def)
qed

lemma case_expression_exec:
  assumes "\<forall>a \<in> set rows. is_row a" "length rows \<le> 43"
  shows "case_expression str ev name params n f rows = Some \<lparr>the_case =
    (new_case n)\<lparr>args := fold (\<lambda>a ms. args_add ms (ev a)) (shown_rows rows) (replicate n []), arg_names := map str (shown_rows rows)\<rparr>,
    title = str name @ str params, func = Some f\<rparr>"
  using case_rows_text [OF assms(1), of str] assms(2) suffixes_rows [OF shown_rows_rows [OF assms(1)], of str]
  by (simp add: case_expression_def fold_row_suffixes case_func_def create_case_def new_case_def)

text \<open>
  C29: what \<^verbatim>\<open>CASE(name, params, rows...)\<close> declares. With up to 43 rows the text it expands to is the chain of operators that
  gives each row's spelling as its name and then the row; the case has one name for each row, in order, and its call on row \<open>i\<close> calls
  the function on the values of that row. Without parameters the case has one row, so that two rows or more are an assertion that
  fails. With 44 rows or more the macro does not expand.
\<close>

theorem case_declares:
  assumes rows: "\<forall>a \<in> set rows. is_row a" and arity: "\<forall>a \<in> set (shown_rows rows). length (ev a) = n"
  shows "(length rows \<le> 43 \<longrightarrow> (\<exists>c. case_expression str ev name params n f rows = Some c \<and>
      title c = str name @ str params \<and>
      (0 < n \<or> length rows \<le> 1 \<longrightarrow> case_num (the_case c) = Inr (length (shown_rows rows))) \<and>
      (n = 0 \<and> 1 < length rows \<longrightarrow> case_num (the_case c) = Inl Aborted) \<and>
      (\<forall>i < length (shown_rows rows). case_arg_name i (the_case c) = Inr (str (shown_rows rows ! i)) \<and>
         declared_call i c = Inr (f (ev (shown_rows rows ! i)))))) \<and>
    (43 < length rows \<longrightarrow> case_expression str ev name params n f rows = None)"
proof (intro conjI impI)
  assume l: "length rows \<le> 43"
  define c where "c = \<lparr>the_case = (new_case n)\<lparr>args := map (\<lambda>j. map (\<lambda>a. ev a ! j) (shown_rows rows)) [0..<n],
    arg_names := map str (shown_rows rows)\<rparr>, title = str name @ str params, func = Some f\<rparr>"
  have e: "case_expression str ev name params n f rows = Some c"
    by (simp add: case_expression_exec [OF rows l] args_add_rows [OF arity] c_def)
  have num: "args_num (args (the_case c)) = (if n = 0 then 1 else length (shown_rows rows))"
    by (cases n) (simp_all add: c_def args_num_def upt_rec)
  have "map (\<lambda>m. m ! i) (args (the_case c)) = ev (shown_rows rows ! i)" if "i < length (shown_rows rows)" for i
    using that arity by (intro nth_equalityI) (simp_all add: c_def)
  then have call: "declared_call i c = Inr (f (ev (shown_rows rows ! i)))" if "i < length (shown_rows rows)" for i
    using that by (simp add: declared_call_def args_call_def call_helper_row c_def)
  show "\<exists>c. case_expression str ev name params n f rows = Some c \<and> title c = str name @ str params \<and>
      (0 < n \<or> length rows \<le> 1 \<longrightarrow> case_num (the_case c) = Inr (length (shown_rows rows))) \<and>
      (n = 0 \<and> 1 < length rows \<longrightarrow> case_num (the_case c) = Inl Aborted) \<and>
      (\<forall>i < length (shown_rows rows). case_arg_name i (the_case c) = Inr (str (shown_rows rows ! i)) \<and>
         declared_call i c = Inr (f (ev (shown_rows rows ! i))))"
  proof (intro exI conjI allI impI)
    show "case_expression str ev name params n f rows = Some c" by (rule e)
    show "title c = str name @ str params" by (simp add: c_def)
    show "case_num (the_case c) = Inr (length (shown_rows rows))" if "0 < n \<or> length rows \<le> 1"
      unfolding case_num_def num using that by (auto simp: c_def shown_rows_def le_Suc_eq)
    show "case_num (the_case c) = Inl Aborted" if "n = 0 \<and> 1 < length rows"
      unfolding case_num_def num using that by (auto simp: c_def shown_rows_def)
    fix i assume i: "i < length (shown_rows rows)"
    then show "case_arg_name i (the_case c) = Inr (str (shown_rows rows ! i))" by (simp add: c_def case_arg_name_def)
    show "declared_call i c = Inr (f (ev (shown_rows rows ! i)))" by (rule call [OF i])
  qed
next
  assume "43 < length rows"
  then show "case_expression str ev name params n f rows = None"
    using case_rows_text [OF rows, of str] by (simp add: case_expression_def)
qed

text \<open>Two rows of two numbers.\<close>

definition number :: "token \<Rightarrow> nat list" where
  "number t = (if t = Word ''1'' then [1] else if t = Word ''2'' then [2] else [])"

theorem case_declares_witness:
  "\<exists>c. case_expression (\<lambda>a. concat (map (\<lambda>t. case t of Word w \<Rightarrow> w | _ \<Rightarrow> '', '') a)) (\<lambda>a. concat (map number a))
      [Word ''add''] [Word ''(int a, int b)''] 2 sum_list
      [[Word ''('', Word ''1'', Comma, Word ''2'', Word '')''], [Word ''('', Word ''2'', Comma, Word ''2'', Word '')'']] = Some c \<and>
    case_arg_name 0 (the_case c) = Inr ''(1, 2)'' \<and> declared_call 0 c = Inr 3"
proof -
  let ?str = "\<lambda>a. concat (map (\<lambda>t. case t of Word w \<Rightarrow> w | _ \<Rightarrow> '', '') a)" and ?ev = "\<lambda>a. concat (map number a)"
  let ?rows = "[[Word ''('', Word ''1'', Comma, Word ''2'', Word '')''], [Word ''('', Word ''2'', Comma, Word ''2'', Word '')'']]"
  have "\<forall>a \<in> set ?rows. is_row a" "\<forall>a \<in> set (shown_rows ?rows). length (?ev a) = 2"
    by (simp_all add: is_row_def deeper_def open_paren_def close_paren_def shown_rows_def number_def)
  from case_declares [OF this, of ?str "[Word ''add'']" "[Word ''(int a, int b)'']" sum_list, THEN conjunct1]
  obtain c where c: "case_expression ?str ?ev [Word ''add''] [Word ''(int a, int b)''] 2 sum_list ?rows = Some c"
    "\<forall>i < length (shown_rows ?rows). case_arg_name i (the_case c) = Inr (?str (shown_rows ?rows ! i)) \<and>
         declared_call i c = Inr (sum_list (?ev (shown_rows ?rows ! i)))" by auto
  have "0 < length (shown_rows ?rows)" by (simp add: shown_rows_def)
  then have "case_arg_name 0 (the_case c) = Inr ''(1, 2)'' \<and> declared_call 0 c = Inr 3"
    using c(2) by (auto simp: shown_rows_def number_def)
  then show ?thesis using c(1) by blast
qed

section \<open>Declared tests\<close>

text \<open>
  What the macros give to \<open>Create\<close>: the name under which the test is registered, the types of its parameters as they are spelled, and the
  function \<open>body\<close>. \<^verbatim>\<open>TEST(n, params)\<close> is a declaration and a definition under its own name; \<^verbatim>\<open>TEST_CASE(test, case_, vals)\<close> has no
  parameters and calls the body of the test with the values.
\<close>

record 'v test_decl =
  reg_name :: string
  params :: string
  body :: "'v list \<Rightarrow> bool"

definition declare_test :: "string \<Rightarrow> string \<Rightarrow> ('v list \<Rightarrow> bool) \<Rightarrow> 'v test_decl" where
  "declare_test n ps f = \<lparr>reg_name = n, params = ps, body = f\<rparr>"

definition test_case_alias :: "string \<Rightarrow> string \<Rightarrow> string" where
  "test_case_alias t c = t @ ''::'' @ c"

definition declare_case :: "string \<Rightarrow> string \<Rightarrow> 'v list \<Rightarrow> 'v test_decl \<Rightarrow> 'v test_decl" where
  "declare_case t c vals d = \<lparr>reg_name = test_case_alias t c, params = [], body = (\<lambda>_. body d vals)\<rparr>"

text \<open>
  The tests of a program: the objects that \<open>Create\<close> has made, and for each list of parameters the registry \<open>Test<Args...>::tests()\<close>,
  which points to them. (\<open>Run\<close> is a copy of the object, which is not registered.)
\<close>

record 'v suite =
  tests_made :: "(string \<times> ('v list \<Rightarrow> bool)) list"
  registries :: "string \<Rightarrow> nat tests"

definition no_tests :: "'v suite" where
  "no_tests = \<lparr>tests_made = [], registries = (\<lambda>_. [])\<rparr>"

definition create_test :: "string \<Rightarrow> 'v test_decl \<Rightarrow> 'v suite \<Rightarrow> ('v suite, 'm) run" where
  "create_test src d s = bind_run (test_new src (reg_name d) (length (tests_made s)) (registries s (params d)))
     (\<lambda>m. return_run (s\<lparr>tests_made := tests_made s @ [(reg_name d, body d)], registries := (registries s)(params d := m)\<rparr>))"

text \<open>
  Static initialisation: each unit creates the tests whose declaration it contains, in order; a declaration in a header
  is in each unit that includes it.
\<close>

fun init_tests :: "string \<Rightarrow> 'v test_decl list \<Rightarrow> 'v suite \<Rightarrow> ('v suite, 'm) run" where
  "init_tests src [] s = return_run s"
| "init_tests src (d # ds) s = bind_run (create_test src d s) (init_tests src ds)"

fun init_units :: "string \<Rightarrow> 'v test_decl list list \<Rightarrow> 'v suite \<Rightarrow> ('v suite, 'm) run" where
  "init_units src [] s = return_run s"
| "init_units src (u # us) s = bind_run (init_tests src u s) (init_units src us)"

text \<open>\<open>RunAll\<close> of the program: the registry of the tests without parameters, each called as the \<open>NamedTest\<close> that \<open>Create\<close> made of it.\<close>

definition run_suite :: "int \<Rightarrow> (int \<Rightarrow> disposition) \<Rightarrow> 'v suite \<Rightarrow> tester \<Rightarrow> (fault + (bool + run_end) \<times> tester) option" where
  "run_suite ind hs s = run_all (\<lambda>i. named_call ind hs (i, snd (tests_made s ! i))) (registries s [])"

text \<open>\<^verbatim>\<open>EXPECT_STREAM\<close> and \<^verbatim>\<open>EXPECT_STREAM_NOT\<close>: the rest of the body is only reached when the stream has (or has not) the text.\<close>

definition expect_stream :: "(mtext \<Rightarrow> string) \<Rightarrow> dump \<Rightarrow> mtext \<Rightarrow> bool \<Rightarrow> bool" where
  "expect_stream str d out k = (if \<not> dump_expect (str out) d then False else k)"

definition expect_stream_not :: "(mtext \<Rightarrow> string) \<Rightarrow> dump \<Rightarrow> mtext \<Rightarrow> bool \<Rightarrow> bool" where
  "expect_stream_not str d out k = (if dump_expect (str out) d then False else k)"

text \<open>The text is what is written in the macro, quotes included: an expected string literal is never what a stream holds that was given it.\<close>

lemma expect_stream_literal:
  assumes "str [Word (CHR 0x22 # t @ [CHR 0x22])] = CHR 0x22 # t @ [CHR 0x22]" "ss_str (ss d) = t"
  shows "\<not> expect_stream str d [Word (CHR 0x22 # t @ [CHR 0x22])] k"
proof -
  have "length (CHR 0x22 # t @ [CHR 0x22]) \<noteq> length t" by simp
  then show ?thesis using assms by (metis dump_expect_def expect_stream_def)
qed

section \<open>The registries after static initialisation\<close>

definition add_test :: "'v test_decl \<Rightarrow> 'v suite \<Rightarrow> 'v suite" where
  "add_test d s = s\<lparr>tests_made := tests_made s @ [(reg_name d, body d)],
     registries := (registries s)(params d := tests_set (reg_name d) (length (tests_made s)) (registries s (params d)))\<rparr>"

lemma create_test_exec:
  assumes "printable k w"
  shows "\<exists>ls. create_test src d s w = Some (Inr (add_test d s), w\<lparr>printed := printed w @ ls\<rparr>)"
  using test_new_exec [OF assms, of src "reg_name d" "length (tests_made s)" "registries s (params d)"]
  by (auto simp: create_test_def add_test_def run_simps)

lemma init_tests_exec:
  assumes "printable k w"
  shows "\<exists>ls. init_tests src ds s w = Some (Inr (fold add_test ds s), w\<lparr>printed := printed w @ ls\<rparr>)"
  using assms
proof (induction ds arbitrary: s w)
  case Nil
  then show ?case by (auto simp: run_simps intro: exI [of _ "[]"])
next
  case (Cons d ds)
  obtain ls where 1: "create_test src d s w = Some (Inr (add_test d s), w\<lparr>printed := printed w @ ls\<rparr>)"
    using create_test_exec [OF Cons.prems, of src d s] by blast
  obtain ms where "init_tests src ds (add_test d s) (w\<lparr>printed := printed w @ ls\<rparr>) =
      Some (Inr (fold add_test ds (add_test d s)), w\<lparr>printed := (printed w @ ls) @ ms\<rparr>)"
    using Cons.IH [of "w\<lparr>printed := printed w @ ls\<rparr>" "add_test d s"] Cons.prems by auto
  then show ?case using 1 by (auto simp: run_simps)
qed

lemma init_units_exec:
  assumes "printable k w"
  shows "\<exists>ls. init_units src us s w = Some (Inr (fold add_test (concat us) s), w\<lparr>printed := printed w @ ls\<rparr>)"
  using assms
proof (induction us arbitrary: s w)
  case Nil
  then show ?case by (auto simp: run_simps intro: exI [of _ "[]"])
next
  case (Cons u us)
  obtain ls where 1: "init_tests src u s w = Some (Inr (fold add_test u s), w\<lparr>printed := printed w @ ls\<rparr>)"
    using init_tests_exec [OF Cons.prems, of src u s] by blast
  obtain ms where "init_units src us (fold add_test u s) (w\<lparr>printed := printed w @ ls\<rparr>) =
      Some (Inr (fold add_test (concat us) (fold add_test u s)), w\<lparr>printed := (printed w @ ls) @ ms\<rparr>)"
    using Cons.IH [of "w\<lparr>printed := printed w @ ls\<rparr>" "fold add_test u s"] Cons.prems by auto
  then show ?case using 1 by (auto simp: run_simps)
qed

text \<open>The names that a registry was given, with the numbers of the objects.\<close>

fun numbered :: "string \<Rightarrow> nat \<Rightarrow> 'v test_decl list \<Rightarrow> (string \<times> nat) list" where
  "numbered p k [] = []"
| "numbered p k (d # ds) = (if params d = p then [(reg_name d, k)] else []) @ numbered p (Suc k) ds"

lemma numbered_snoc:
  "numbered p k (ds @ [d]) = numbered p k ds @ (if params d = p then [(reg_name d, k + length ds)] else [])"
  by (induction ds arbitrary: k) simp_all

lemma fold_add_test:
  "tests_made (fold add_test ds s) = tests_made s @ map (\<lambda>d. (reg_name d, body d)) ds"
  "registries (fold add_test ds s) p = fold (\<lambda>(n, t). tests_set n t) (numbered p (length (tests_made s)) ds) (registries s p)"
  by (induction ds arbitrary: s) (simp_all add: add_test_def)

text \<open>The last declaration with a name and parameters.\<close>

definition last_declared :: "'v test_decl list \<Rightarrow> string \<Rightarrow> string \<Rightarrow> nat \<Rightarrow> bool" where
  "last_declared ds p n i \<longleftrightarrow> i < length ds \<and> params (ds ! i) = p \<and> reg_name (ds ! i) = n \<and>
     (\<forall>j < length ds. i < j \<longrightarrow> \<not> (params (ds ! j) = p \<and> reg_name (ds ! j) = n))"

lemma numbered_last: "map_of (rev (numbered p 0 ds)) n = Some i \<longleftrightarrow> last_declared ds p n i"
proof (induction ds rule: rev_induct)
  case Nil
  then show ?case by (simp add: last_declared_def)
next
  case (snoc d ds)
  show ?case
  proof (cases "params d = p \<and> reg_name d = n")
    case True
    then have "last_declared (ds @ [d]) p n i \<longleftrightarrow> i = length ds"
      by (auto simp: last_declared_def nth_append less_Suc_eq)
    then show ?thesis using True by (auto simp: numbered_snoc)
  next
    case False
    then have "last_declared (ds @ [d]) p n i \<longleftrightarrow> last_declared ds p n i"
      by (auto simp: last_declared_def nth_append less_Suc_eq)
    then show ?thesis using False snoc by (auto simp: numbered_snoc)
  qed
qed

lemma numbered_names: "fst ` set (numbered p k ds) = {reg_name d | d. d \<in> set ds \<and> params d = p}"
proof (induction ds arbitrary: k)
  case (Cons d ds)
  have "{reg_name e | e. e \<in> set (d # ds) \<and> params e = p} =
      (if params d = p then {reg_name d} else {}) \<union> {reg_name e | e. e \<in> set ds \<and> params e = p}" by auto
  then show ?case using Cons [of "Suc k"] by (simp add: image_Un)
qed simp

text \<open>The first entry of a registry is the one with the least name.\<close>

lemma sorted_least:
  fixes m :: "(string \<times> 't) list"
  assumes "sorted_wrt (<) (map fst m)" "n \<in> set (map fst m)" "\<forall>k \<in> set (map fst m). n \<le> k"
  shows "m \<noteq> [] \<and> fst (hd m) = n"
  using assms by (cases m) (auto dest: leD)

text \<open>
  C27: the tests of a program after static initialisation, whatever units declare whatever tests: an object for each declaration of
  each unit; the registry for a list of parameters is in the order of the names, has the names that were declared with these
  parameters, once each, and points to the last object with its name. \<open>RunAll\<close> returns true when no test without parameters is
  declared. Otherwise it calls one object only, the last that was declared with the least of these names: when the \<open>fork\<close> of that call fails it aborts, the
  child runs its row and exits with 0, and in the parent \<open>RunAll\<close> gives no value.
\<close>

theorem tests_declared:
  fixes w :: "'m world_scheme" and us :: "'v test_decl list list" and z :: tester
  assumes "printable 24 w" and fork: "coming z = (e, ws) # es" "fresh_fds e (this_proc z)"
  shows "\<exists>s v. init_units src us no_tests w = Some (Inr s, v) \<and>
    tests_made s = map (\<lambda>d. (reg_name d, body d)) (concat us) \<and>
    (\<forall>p. sorted_wrt (<) (map fst (registries s p)) \<and>
       set (map fst (registries s p)) = {reg_name d | d. d \<in> set (concat us) \<and> params d = p}) \<and>
    (\<forall>p n i. map_of (registries s p) n = Some i \<longleftrightarrow> last_declared (concat us) p n i) \<and>
    ((\<forall>d \<in> set (concat us). params d \<noteq> []) \<longrightarrow> run_suite ind hs s z = Some (Inr (Inl True, z))) \<and>
    (\<forall>n i. last_declared (concat us) [] n i \<and> (\<forall>d \<in> set (concat us). params d = [] \<longrightarrow> n \<le> reg_name d) \<longrightarrow>
       run_suite ind hs s z = named_call ind hs (i, body (concat us ! i)) z \<and>
       (ev_pid e < 0 \<longrightarrow> run_suite ind hs s z = Some (Inl Aborted)) \<and>
       (ev_pid e = 0 \<longrightarrow> (\<exists>z'. run_suite ind hs s z = Some (Inr (Inr (Exited 0), z')) \<and>
          called (this_proc z') = called (this_proc z) @ [(i, 0)])) \<and>
       (0 < ev_pid e \<longrightarrow> (\<forall>x. run_suite ind hs s z \<noteq> Some (Inr x))))"
proof -
  define s where "s = fold add_test (concat us) (no_tests :: 'v suite)"
  obtain ls where init: "init_units src us no_tests w = Some (Inr s, w\<lparr>printed := printed w @ ls\<rparr>)"
    using init_units_exec [OF assms(1), of src us no_tests] by (auto simp: s_def)
  have r: "registries s p = fold (\<lambda>(n, t). tests_set n t) (numbered p 0 (concat us)) []" for p
    by (simp add: s_def fold_add_test(2) no_tests_def)
  have m: "sorted_wrt (<) (map fst (registries s p))" "map_of (registries s p) = map_of (rev (numbered p 0 (concat us)))" for p
    using fold_tests_set [of "[]" "numbered p 0 (concat us)"] by (simp_all add: r)
  have "dom (map_of (registries s p)) = dom (map_of (rev (numbered p 0 (concat us))))" for p by (simp add: m(2))
  then have names: "set (map fst (registries s p)) = {reg_name d | d. d \<in> set (concat us) \<and> params d = p}" for p
    unfolding dom_map_of_conv_image_fst set_rev numbered_names by simp
  have objs: "map_of (registries s p) n = Some i \<longleftrightarrow> last_declared (concat us) p n i" for p n i
    unfolding m(2) by (rule numbered_last)
  have made: "tests_made s = map (\<lambda>d. (reg_name d, body d)) (concat us)" by (simp add: s_def fold_add_test(1) no_tests_def)
  have none: "run_suite ind hs s z = Some (Inr (Inl True, z))" if "\<forall>d \<in> set (concat us). params d \<noteq> []"
  proof -
    have "set (map fst (registries s [])) = {}" unfolding names using that by auto
    then show ?thesis by (simp add: run_suite_def run_all_named)
  qed
  have first: "run_suite ind hs s z = named_call ind hs (i, body (concat us ! i)) z"
    if i: "last_declared (concat us) [] n i" and least: "\<forall>d \<in> set (concat us). params d = [] \<longrightarrow> n \<le> reg_name d" for n i
  proof -
    have n: "map_of (registries s []) n = Some i" using objs i by blast
    then have "n \<in> set (map fst (registries s []))" by (metis map_of_eq_None_iff option.distinct(1) set_map)
    moreover have "n \<le> k" if "k \<in> set (map fst (registries s []))" for k using that least unfolding names by blast
    ultimately have "registries s [] \<noteq> [] \<and> fst (hd (registries s [])) = n" using sorted_least [OF m(1)] by blast
    then have "snd (hd (registries s [])) = i" "registries s [] \<noteq> []" using n by (cases "registries s []"; auto)+
    moreover have "snd (tests_made s ! i) = body (concat us ! i)" using i by (simp add: made last_declared_def)
    ultimately show ?thesis by (simp add: run_suite_def run_all_named)
  qed
  have out: "run_suite ind hs s z = named_call ind hs (i, body (concat us ! i)) z \<and>
       (ev_pid e < 0 \<longrightarrow> run_suite ind hs s z = Some (Inl Aborted)) \<and>
       (ev_pid e = 0 \<longrightarrow> (\<exists>z'. run_suite ind hs s z = Some (Inr (Inr (Exited 0), z')) \<and>
          called (this_proc z') = called (this_proc z) @ [(i, 0)])) \<and>
       (0 < ev_pid e \<longrightarrow> (\<forall>x. run_suite ind hs s z \<noteq> Some (Inr x)))"
    if "last_declared (concat us) [] n i \<and> (\<forall>d \<in> set (concat us). params d = [] \<longrightarrow> n \<le> reg_name d)" for n i
    unfolding first [OF conjunct1 [OF that] conjunct2 [OF that]]
    using named_call_outcome [OF fork, of ind hs i "body (concat us ! i)"] by simp
  show ?thesis
  proof (intro exI conjI)
    show "init_units src us no_tests w = Some (Inr s, w\<lparr>printed := printed w @ ls\<rparr>)" by (rule init)
    show "tests_made s = map (\<lambda>d. (reg_name d, body d)) (concat us)" by (rule made)
    show "\<forall>p. sorted_wrt (<) (map fst (registries s p)) \<and>
       set (map fst (registries s p)) = {reg_name d | d. d \<in> set (concat us) \<and> params d = p}" using m(1) names by blast
    show "\<forall>p n i. map_of (registries s p) n = Some i \<longleftrightarrow> last_declared (concat us) p n i" using objs by blast
    show "(\<forall>d \<in> set (concat us). params d \<noteq> []) \<longrightarrow> run_suite ind hs s z = Some (Inr (Inl True, z))" using none by blast
  qed (intro allI impI, rule out)
qed

text \<open>The test of a header in two units, and a test with a parameter: \<open>RunAll\<close> calls the second object of the first and no other.\<close>

theorem tests_declared_witness:
  "\<exists>s v z. init_units ''t.cc'' [[declare_test ''a'' [] (\<lambda>_. True)], [declare_test ''a'' [] (\<lambda>_. True), declare_test ''b'' ''int'' (\<lambda>_. False)]]
      no_tests quiet_world = Some (Inr (s :: nat suite), v) \<and>
    run_suite 0 (\<lambda>_. Default_Handler) s forking = Some (Inr (Inr (Exited 0), z)) \<and> called (this_proc z) = [(1, 0)]"
proof -
  let ?us = "[[declare_test ''a'' [] (\<lambda>_. True)], [declare_test ''a'' [] (\<lambda>_. True), declare_test ''b'' ''int'' (\<lambda>_ :: nat list. False)]]"
  have pr: "printable 24 quiet_world" by (simp add: quiet_world_printable)
  have f: "coming forking = (\<lparr>ev_read = 3, ev_write = 4, ev_pid = 0, ev_now = 7\<rparr>, []) # []"
    "fresh_fds \<lparr>ev_read = 3, ev_write = 4, ev_pid = 0, ev_now = 7\<rparr> (this_proc forking)" "called (this_proc forking) = []"
    by (simp_all add: fresh_fds_def forking_def shell_def)
  have ev: "ev_pid \<lparr>ev_read = 3, ev_write = 4, ev_pid = 0, ev_now = 7\<rparr> = 0" by simp
  have l: "last_declared (concat ?us) [] ''a'' 1" "\<forall>d \<in> set (concat ?us). params d = [] \<longrightarrow> ''a'' \<le> reg_name d"
    by (auto simp: last_declared_def declare_test_def nth_Cons' split: if_splits)
  obtain s v where s: "init_units ''t.cc'' ?us no_tests quiet_world = Some (Inr s, v)"
    "\<forall>n i. last_declared (concat ?us) [] n i \<and> (\<forall>d \<in> set (concat ?us). params d = [] \<longrightarrow> n \<le> reg_name d) \<longrightarrow>
       (\<exists>z'. run_suite 0 (\<lambda>_. Default_Handler) s forking = Some (Inr (Inr (Exited 0), z')) \<and>
          called (this_proc z') = called (this_proc forking) @ [(i, 0)])"
    using tests_declared [where src = "''t.cc''" and us = ?us and ind = 0 and hs = "\<lambda>_. Default_Handler", OF pr f(1,2)]
      ev by (elim exE conjE) (rule that, assumption, blast)
  from s(2) l have "\<exists>z'. run_suite 0 (\<lambda>_. Default_Handler) s forking = Some (Inr (Inr (Exited 0), z')) \<and>
      called (this_proc z') = called (this_proc forking) @ [(1, 0)]" by blast
  then show ?thesis using s(1) f(3) by auto
qed

end
