(* ===== verification/Semaphore.thy ===== *)
theory Semaphore
  imports Prelude
begin

text \<open>
  The counting semaphore of \<^verbatim>\<open>src/semaphore.h\<close> and its test \<^verbatim>\<open>SemaphoreTest\<close> of
  \<^verbatim>\<open>src/semaphore.cpp\<close>, for any interleaving of the threads that use it.

  Each step is one critical section of \<open>mutex_\<close>. A thread inside \<open>condition_.wait\<close> is in
  \<open>asleep\<close> until \<open>notify_one\<close>, \<open>notify_all\<close> or a spurious wakeup moves it to \<open>awake\<close>; an awake
  thread locks the mutex again and evaluates the predicate. The fields \<open>sem_count\<close>, a
  \<open>uint64_t\<close>, and \<open>sem_running\<close> are \<^verbatim>\<open>count_\<close> and \<^verbatim>\<open>running_\<close>, written only with the mutex held.
\<close>

section \<open>State and operations\<close>

type_synonym tid = nat

record sem =
  sem_count :: "64 word"
  sem_running :: bool
  asleep :: "tid set"
  awake :: "tid set"

definition semaphore :: "64 word \<Rightarrow> sem" where
  "semaphore n = \<lparr>sem_count = n, sem_running = True, asleep = {}, awake = {}\<rparr>"

text \<open>
  The predicate given to \<open>condition_.wait\<close>, and one evaluation of it by the thread \<open>t\<close>: when it
  holds, \<open>wait()\<close> decrements the count and returns \<open>sem_running\<close> (\<open>Some\<close>), otherwise the thread
  goes to sleep and gives up the mutex (\<open>None\<close>).
\<close>

definition may_pass :: "sem \<Rightarrow> bool" where
  "may_pass s \<longleftrightarrow> \<not> sem_running s \<or> 0 < sem_count s"

definition wait_check :: "tid \<Rightarrow> sem \<Rightarrow> sem \<times> bool option" where
  "wait_check t s = (if may_pass s
     then (s\<lparr>sem_count := sem_count s - 1, awake := awake s - {t}\<rparr>, Some (sem_running s))
     else (s\<lparr>asleep := insert t (asleep s), awake := awake s - {t}\<rparr>, None))"

text \<open>
  \<open>bool wait()\<close> from its beginning: the assertion \<^verbatim>\<open>ASSERT(count_ >= 0)\<close> of the count, read as the
  unsigned number it is, then the first evaluation of the predicate.
\<close>

definition sem_wait :: "tid \<Rightarrow> sem \<Rightarrow> fault + (sem \<times> bool option)" where
  "sem_wait t s = (if 0 \<le> sem_count s then Inr (wait_check t s) else Inl Assert_Failed)"

text \<open>\<open>notify_one\<close> wakes one sleeping thread, the argument, if there is any.\<close>

definition wake_one :: "tid option \<Rightarrow> sem \<Rightarrow> sem" where
  "wake_one w s = (case w of None \<Rightarrow> s
     | Some t \<Rightarrow> s\<lparr>asleep := asleep s - {t}, awake := insert t (awake s)\<rparr>)"

definition wakes :: "tid option \<Rightarrow> sem \<Rightarrow> bool" where
  "wakes w s = (case w of None \<Rightarrow> asleep s = {} | Some t \<Rightarrow> t \<in> asleep s)"

definition sem_notify :: "tid option \<Rightarrow> sem \<Rightarrow> sem" where
  "sem_notify w s = wake_one w (s\<lparr>sem_count := sem_count s + 1\<rparr>)"

definition sem_teardown :: "sem \<Rightarrow> sem" where
  "sem_teardown s = s\<lparr>sem_running := False, asleep := {}, awake := awake s \<union> asleep s\<rparr>"

section \<open>Interleavings\<close>

datatype sem_event =
    Passed tid bool       \<comment> \<open>\<open>wait()\<close> of the thread returns the flag\<close>
  | Blocked tid           \<comment> \<open>the thread goes to sleep\<close>
  | Notified "tid option" \<comment> \<open>\<open>notify()\<close>, with the thread it wakes\<close>
  | Spurious tid
  | Torn_Down

inductive sem_step :: "sem \<Rightarrow> sem_event \<Rightarrow> sem \<Rightarrow> bool" where
  Enter: "t \<notin> asleep s \<Longrightarrow> t \<notin> awake s \<Longrightarrow> sem_wait t s = Inr (s', r) \<Longrightarrow>
    e = (case r of Some b \<Rightarrow> Passed t b | None \<Rightarrow> Blocked t) \<Longrightarrow> sem_step s e s'"
| Resume: "t \<in> awake s \<Longrightarrow> wait_check t s = (s', r) \<Longrightarrow>
    e = (case r of Some b \<Rightarrow> Passed t b | None \<Rightarrow> Blocked t) \<Longrightarrow> sem_step s e s'"
| Notify: "wakes w s \<Longrightarrow> sem_step s (Notified w) (sem_notify w s)"
| Wakeup: "t \<in> asleep s \<Longrightarrow> sem_step s (Spurious t) (wake_one (Some t) s)"
| Teardown: "sem_step s Torn_Down (sem_teardown s)"

inductive sem_run :: "sem \<Rightarrow> sem_event list \<Rightarrow> sem \<Rightarrow> bool" where
  Start: "sem_run s [] s"
| Step: "sem_run s es s' \<Longrightarrow> sem_step s' e s'' \<Longrightarrow> sem_run s (es @ [e]) s''"

text \<open>What a history contains.\<close>

definition notified :: "sem_event list \<Rightarrow> nat" where
  "notified es = length (filter (\<lambda>e. \<exists>w. e = Notified w) es)"

definition passed :: "sem_event list \<Rightarrow> nat" where
  "passed es = length (filter (\<lambda>e. \<exists>t b. e = Passed t b) es)"

lemma counts_simps [simp]:
  "notified [] = 0" "passed [] = 0"
  "notified (es @ [Notified w]) = Suc (notified es)" "passed (es @ [Notified w]) = passed es"
  "notified (es @ [Passed t b]) = notified es" "passed (es @ [Passed t b]) = Suc (passed es)"
  "notified (es @ [Blocked t]) = notified es" "passed (es @ [Blocked t]) = passed es"
  "notified (es @ [Spurious t]) = notified es" "passed (es @ [Spurious t]) = passed es"
  "notified (es @ [Torn_Down]) = notified es" "passed (es @ [Torn_Down]) = passed es"
  by (simp_all add: notified_def passed_def)

section \<open>The state after each step\<close>

lemma wait_check_cases:
  obtains "may_pass s" "wait_check t s = (s\<lparr>sem_count := sem_count s - 1, awake := awake s - {t}\<rparr>, Some (sem_running s))"
  | "\<not> may_pass s" "wait_check t s = (s\<lparr>asleep := insert t (asleep s), awake := awake s - {t}\<rparr>, None)"
  by (cases "may_pass s") (simp_all add: wait_check_def)

lemma sem_wait_never_asserts: "sem_wait t s = Inr (wait_check t s)"
  by (simp add: sem_wait_def)

text \<open>A step is an evaluation of the predicate, a notification, a wakeup or the teardown.\<close>

lemma sem_step_cases [consumes 1, case_names pass block notify wakeup teardown]:
  assumes "sem_step s e s'"
  obtains t where "e = Passed t (sem_running s)" "may_pass s" "t \<notin> asleep s \<or> t \<in> awake s"
      "s' = s\<lparr>sem_count := sem_count s - 1, awake := awake s - {t}\<rparr>"
  | t where "e = Blocked t" "\<not> may_pass s" "t \<notin> asleep s \<or> t \<in> awake s"
      "s' = s\<lparr>asleep := insert t (asleep s), awake := awake s - {t}\<rparr>"
  | w where "e = Notified w" "wakes w s" "s' = sem_notify w s"
  | t where "e = Spurious t" "t \<in> asleep s" "s' = wake_one (Some t) s"
  | "e = Torn_Down" "s' = sem_teardown s"
  using assms
proof cases
  case (Enter t r)
  then show ?thesis using that(1,2) by (cases t s rule: wait_check_cases [case_names pass block])
      (auto simp: sem_wait_never_asserts)
next
  case (Resume t r)
  then show ?thesis using that(1,2) by (cases t s rule: wait_check_cases [case_names pass block]) auto
qed (use that in auto)

lemma sem_notify_simps [simp]:
  "sem_count (sem_notify w s) = sem_count s + 1" "sem_running (sem_notify w s) = sem_running s"
  "sem_count (wake_one w s) = sem_count s" "sem_running (wake_one w s) = sem_running s"
  by (auto simp: sem_notify_def wake_one_def split: option.splits)

lemma sem_teardown_simps [simp]:
  "sem_count (sem_teardown s) = sem_count s" "\<not> sem_running (sem_teardown s)" "asleep (sem_teardown s) = {}"
  "awake (sem_teardown s) = awake s \<union> asleep s"
  by (simp_all add: sem_teardown_def)

text \<open>
  The invariant: the sets of sleeping and of woken threads are finite and disjoint, nobody
  sleeps after the teardown, and while anybody sleeps there is a woken thread for each permit.
\<close>

definition sem_inv :: "sem \<Rightarrow> bool" where
  "sem_inv s \<longleftrightarrow> finite (asleep s) \<and> finite (awake s) \<and> asleep s \<inter> awake s = {} \<and>
     (asleep s \<noteq> {} \<longrightarrow> sem_running s \<and> unat (sem_count s) \<le> card (awake s))"

lemma sem_inv_semaphore: "sem_inv (semaphore n)"
  by (simp add: sem_inv_def semaphore_def)

lemma unat_inc_le: "unat ((x :: 64 word) + 1) \<le> Suc (unat x)"
  by (simp add: unat_word_ariths mod_le_divisor order_trans [OF mod_less_eq_dividend])

lemma wake_inv:
  assumes "sem_inv s" "t \<in> asleep s" "unat n \<le> Suc (unat (sem_count s))"
  shows "sem_inv (wake_one (Some t) (s\<lparr>sem_count := n\<rparr>))"
proof -
  have "card (insert t (awake s)) = Suc (card (awake s))"
    using assms(1,2) by (intro card_insert_disjoint) (auto simp: sem_inv_def)
  then show ?thesis using assms by (auto simp: sem_inv_def wake_one_def)
qed

lemma notify_inv:
  assumes "sem_inv s" "wakes w s"
  shows "sem_inv (sem_notify w s)"
proof (cases w)
  case None
  then show ?thesis using assms by (simp add: sem_inv_def sem_notify_def wake_one_def wakes_def)
next
  case (Some t)
  then show ?thesis using assms wake_inv [of s t "sem_count s + 1"] unat_inc_le
    by (simp add: sem_notify_def wakes_def)
qed

lemma pass_inv:
  assumes "sem_inv s" "may_pass s"
  shows "sem_inv (s\<lparr>sem_count := sem_count s - 1, awake := awake s - {t}\<rparr>)"
proof -
  have "unat (sem_count s - 1) \<le> card (awake s - {t})" if "asleep s \<noteq> {}"
  proof -
    have "sem_count s \<noteq> 0" "unat (sem_count s) \<le> card (awake s)" "finite (awake s)"
      using assms that by (auto simp: sem_inv_def may_pass_def)
    then have "unat (sem_count s - 1) = unat (sem_count s) - 1" "card (awake s) - 1 \<le> card (awake s - {t})"
      by (simp add: unat_dec) (cases "t \<in> awake s"; simp)
    then show ?thesis using \<open>unat (sem_count s) \<le> card (awake s)\<close> by linarith
  qed
  then show ?thesis using assms(1) by (auto simp: sem_inv_def)
qed

lemma block_inv:
  assumes "sem_inv s" "\<not> may_pass s"
  shows "sem_inv (s\<lparr>asleep := insert t (asleep s), awake := awake s - {t}\<rparr>)"
  using assms by (auto simp: sem_inv_def may_pass_def word_gt_0)

lemma teardown_inv: "sem_inv s \<Longrightarrow> sem_inv (sem_teardown s)"
  by (simp add: sem_inv_def)

lemma sem_step_inv: "sem_step s e s' \<Longrightarrow> sem_inv s \<Longrightarrow> sem_inv s'"
  by (cases s e s' rule: sem_step_cases)
    (auto intro: pass_inv block_inv notify_inv teardown_inv dest: wake_inv [of _ _ "sem_count s"])

interpretation sems: invariant_system "\<lambda>s. \<exists>n. s = semaphore n" "\<lambda>s s'. \<exists>e. sem_step s e s'" sem_inv
  by unfold_locales (auto intro: sem_step_inv sem_inv_semaphore)

lemma sem_run_steps: "sem_run s es s' \<Longrightarrow> (\<lambda>s s'. \<exists>e. sem_step s e s')\<^sup>*\<^sup>* s s'"
  by (induction rule: sem_run.induct) (auto intro: rtranclp.rtrancl_into_rtrancl)

lemma sem_run_inv: "sem_run (semaphore n) es s \<Longrightarrow> sem_inv s"
  using sems.inv_reachable sem_run_steps by blast

section \<open>Histories\<close>

lemma sem_run_accounting:
  "sem_run s0 es s \<Longrightarrow> sem_count s = sem_count s0 + of_nat (notified es) - of_nat (passed es)"
proof (induction rule: sem_run.induct)
  case (Step s es s' e s'')
  from Step.hyps(2) Step.IH show ?case by (cases rule: sem_step_cases) (simp_all add: algebra_simps)
qed simp

lemma sem_run_permits:
  assumes "sem_run s0 es s" "sem_running s" "unat (sem_count s0) + notified es < 2 ^ 64"
  shows "unat (sem_count s) + passed es = unat (sem_count s0) + notified es"
  using assms
proof (induction rule: sem_run.induct)
  case (Step s0 es s e s')
  from Step.hyps(2) show ?case
  proof (cases rule: sem_step_cases)
    case (pass t)
    then have "sem_running s" "sem_count s \<noteq> 0" using Step.prems by (auto simp: may_pass_def)
    moreover have "unat (sem_count s) \<noteq> 0" using \<open>sem_count s \<noteq> 0\<close> by (simp add: unat_eq_0)
    ultimately show ?thesis using Step.IH Step.prems pass by (simp add: unat_dec)
  next
    case (notify w)
    then have "unat (sem_count s) + passed es = unat (sem_count s0) + notified es"
      using Step.IH Step.prems by simp
    then show ?thesis using notify Step.prems by (simp add: unat_inc)
  qed (use Step in auto)
qed simp

lemma sem_run_torn: "sem_run s0 es s \<Longrightarrow> sem_running s \<longleftrightarrow> sem_running s0 \<and> Torn_Down \<notin> set es"
proof (induction rule: sem_run.induct)
  case (Step s0 es s e s')
  from Step.hyps(2) Step.IH show ?case by (cases rule: sem_step_cases) auto
qed simp

text \<open>
  The verdict of each \<open>wait()\<close> says whether the teardown came before it, and nobody goes to
  sleep after the teardown.
\<close>

definition verdict_at :: "sem_event list \<Rightarrow> sem_event \<Rightarrow> bool" where
  "verdict_at es e = (case e of Passed t b \<Rightarrow> b = (Torn_Down \<notin> set es)
     | Blocked t \<Rightarrow> Torn_Down \<notin> set es | _ \<Rightarrow> True)"

definition verdicts_ok :: "sem_event list \<Rightarrow> bool" where
  "verdicts_ok es \<longleftrightarrow> (\<forall>i < length es. verdict_at (take i es) (es ! i))"

lemma verdicts_ok_snoc: "verdicts_ok (es @ [e]) \<longleftrightarrow> verdicts_ok es \<and> verdict_at es e"
  by (auto simp: verdicts_ok_def nth_append less_Suc_eq)

lemma sem_run_verdicts: "sem_run (semaphore n) es s \<Longrightarrow> verdicts_ok es"
proof (induction "semaphore n" es s rule: sem_run.induct)
  case (Step es s e s')
  have "sem_running s \<longleftrightarrow> Torn_Down \<notin> set es"
    using sem_run_torn [OF Step.hyps(1)] by (simp add: semaphore_def)
  with Step.hyps(3,2) show ?case
    by (cases rule: sem_step_cases) (auto simp: verdicts_ok_snoc verdict_at_def may_pass_def)
qed (simp add: verdicts_ok_def)

section \<open>Properties of the semaphore\<close>

text \<open>
  C8: Permits are conserved. In every run of a semaphore made with \<open>n\<close> permits, whatever the
  threads and the wakeups, the count is \<open>n\<close> plus the notifications minus the waits that
  returned, modulo \<open>2 ^ 64\<close>; until the teardown, and while that sum does not overflow, the
  equation holds of the numbers themselves, so no more waits return than permits were given.
\<close>

theorem sem_permits:
  assumes "sem_run (semaphore n) es s"
  shows "sem_count s = n + of_nat (notified es) - of_nat (passed es) \<and>
    (sem_running s \<and> unat n + notified es < 2 ^ 64 \<longrightarrow>
      unat (sem_count s) + passed es = unat n + notified es)"
  using sem_run_accounting [OF assms] sem_run_permits [OF assms] by (simp add: semaphore_def)

text \<open>
  The witness is also the wrap-around: a thread that leaves after the teardown takes a permit
  that is not there, and the count of an empty semaphore becomes the largest number.
\<close>

lemma sem_permits_witness:
  "\<exists>es s. sem_run (semaphore 0) es s \<and> \<not> sem_running s \<and> sem_count s = 2 ^ 64 - 1"
proof -
  have "sem_run (semaphore 0) ([] @ [Torn_Down]) (sem_teardown (semaphore 0))"
    by (intro Step [OF Start] Teardown)
  then have r: "sem_run (semaphore 0) (([] @ [Torn_Down]) @ [Passed 1 False])
      (sem_teardown (semaphore 0)\<lparr>sem_count := 0 - 1, awake := {}\<rparr>)"
    by (rule Step) (rule Enter [where r = "Some False" and t = 1], simp_all add: sem_wait_def
        wait_check_def may_pass_def semaphore_def sem_teardown_def)
  let ?s = "sem_teardown (semaphore 0)\<lparr>sem_count := 0 - 1, awake := {}\<rparr>"
  have "sem_count ?s = 2 ^ 64 - 1" using sem_permits [OF r] by (simp add: notified_def passed_def)
  moreover have "\<not> sem_running ?s" by (simp add: sem_teardown_def)
  ultimately show ?thesis using r by blast
qed

text \<open>
  C7: No wakeup is lost. In every state a semaphore can reach, while a thread sleeps there are
  at least as many woken threads as permits; so when a permit is free and a thread sleeps, some
  woken thread can take the permit.
\<close>

theorem sem_no_lost_wakeup:
  assumes "sem_run (semaphore n) es s" "asleep s \<noteq> {}"
  shows "unat (sem_count s) \<le> card (awake s) \<and>
    (sem_count s \<noteq> 0 \<longrightarrow> (\<exists>t s'. t \<in> awake s \<and> sem_step s (Passed t True) s'))"
proof -
  have inv: "sem_running s" "unat (sem_count s) \<le> card (awake s)" "finite (awake s)"
    using sem_run_inv [OF assms(1)] assms(2) by (auto simp: sem_inv_def)
  have "\<exists>t s'. t \<in> awake s \<and> sem_step s (Passed t True) s'" if "sem_count s \<noteq> 0"
  proof -
    have "card (awake s) \<noteq> 0" using that inv(2) unat_eq_0 [of "sem_count s"] by linarith
    then obtain t where t: "t \<in> awake s" using inv(3) by (metis card.empty ex_in_conv)
    have "wait_check t s = (s\<lparr>sem_count := sem_count s - 1, awake := awake s - {t}\<rparr>, Some True)"
      using that inv(1) by (simp add: wait_check_def may_pass_def word_gt_0)
    then show ?thesis using t Resume [OF t] by fastforce
  qed
  then show ?thesis using inv(2) by blast
qed

lemma sem_no_lost_wakeup_witness:
  "\<exists>es s. sem_run (semaphore 0) es s \<and> asleep s = {2} \<and>
    (\<exists>t s'. t \<in> awake s \<and> sem_step s (Passed t True) s')"
proof -
  let ?s = "\<lambda>c a w. \<lparr>sem_count = c, sem_running = True, asleep = a, awake = w\<rparr>"
  have "sem_run (semaphore 0) ([] @ [Blocked 1]) (?s 0 {1} {})"
    by (rule Step [OF Start], rule Enter [where t = 1 and r = None])
      (simp_all add: semaphore_def sem_wait_def wait_check_def may_pass_def)
  then have "sem_run (semaphore 0) (([] @ [Blocked 1]) @ [Blocked 2]) (?s 0 {2, 1} {})"
    by (rule Step, intro Enter [where t = 2 and r = None])
      (simp_all add: sem_wait_def wait_check_def may_pass_def)
  then have r: "sem_run (semaphore 0) ((([] @ [Blocked 1]) @ [Blocked 2]) @ [Notified (Some 1)])
      (sem_notify (Some 1) (?s 0 {2, 1} {}))"
    by (rule Step) (rule Notify, simp add: wakes_def)
  have s: "asleep (sem_notify (Some 1) (?s 0 {2, 1} {})) = {2}"
    by (auto simp: sem_notify_def wake_one_def)
  then show ?thesis using sem_no_lost_wakeup [OF r] r by auto
qed

text \<open>
  C10: The teardown releases everybody. In every run the waits that return before the teardown
  return \<open>true\<close>, those that return after it \<open>false\<close>, and after it nobody is or goes to sleep:
  \<open>wait()\<close> returns at once, for every thread.
\<close>

theorem sem_teardown_verdicts:
  assumes "sem_run (semaphore n) es s"
  shows "verdicts_ok es \<and> (Torn_Down \<in> set es \<longrightarrow> asleep s = {} \<and>
    (\<forall>t. \<exists>s'. sem_wait t s = Inr (s', Some False) \<and> sem_count s' = sem_count s - 1))"
  using sem_run_verdicts [OF assms] sem_run_torn [OF assms] sem_run_inv [OF assms]
  by (auto simp: sem_wait_never_asserts wait_check_def may_pass_def sem_inv_def)

lemma sem_teardown_verdicts_witness:
  "\<exists>s. sem_run (semaphore 3) [Torn_Down] s \<and> asleep s = {}"
proof -
  have "sem_run (semaphore 3) ([] @ [Torn_Down]) (sem_teardown (semaphore 3))"
    by (intro Step [OF Start] Teardown)
  then show ?thesis using sem_teardown_verdicts [of 3 "[Torn_Down]"] by force
qed

section \<open>SemaphoreTest\<close>

text \<open>
  The test starts 100 threads over a semaphore of 5 permits, sleeps, tears the semaphore down
  and joins. The program point of a thread is the statement it executes next; \<open>At_Exit\<close> is the
  end of the loop. \<open>failed\<close> records a violated \<^verbatim>\<open>ASSERT(c >= 0)\<close>. The atomic \<open>int\<close> counter is
  an \<open>int\<close>: it stays between 0 and 5.
\<close>

datatype pc = At_Wait | At_Dec | At_Assert | At_Inc | At_Notify | At_Exit

record sem_test =
  test_sem :: sem
  c_val :: int
  pcs :: "tid \<Rightarrow> pc"
  failed :: bool

definition nthreads :: nat where "nthreads = 100"

definition sem_test_start :: sem_test where
  "sem_test_start = \<lparr>test_sem = semaphore 5, c_val = 5,
     pcs = (\<lambda>t. if t < nthreads then At_Wait else At_Exit), failed = False\<rparr>"

definition goto :: "tid \<Rightarrow> pc \<Rightarrow> sem_test \<Rightarrow> sem_test" where
  "goto t l x = x\<lparr>pcs := (pcs x)(t := l)\<rparr>"

lemma goto_simps [simp]:
  "test_sem (goto t l x) = test_sem x" "c_val (goto t l x) = c_val x" "failed (goto t l x) = failed x"
  "pcs (goto t l x) = (pcs x)(t := l)"
  by (simp_all add: goto_def)

inductive test_step :: "sem_test \<Rightarrow> sem_test \<Rightarrow> bool" where
  Wait_Returns: "pcs x t = At_Wait \<Longrightarrow> sem_step (test_sem x) (Passed t b) s \<Longrightarrow>
    test_step x (goto t (if b then At_Dec else At_Exit) (x\<lparr>test_sem := s\<rparr>))"
| Wait_Blocks: "pcs x t = At_Wait \<Longrightarrow> sem_step (test_sem x) (Blocked t) s \<Longrightarrow>
    test_step x (x\<lparr>test_sem := s\<rparr>)"
| Wait_Wakes: "sem_step (test_sem x) (Spurious t) s \<Longrightarrow> test_step x (x\<lparr>test_sem := s\<rparr>)"
| Dec: "pcs x t = At_Dec \<Longrightarrow> test_step x (goto t At_Assert (x\<lparr>c_val := c_val x - 1\<rparr>))"
| Assert: "pcs x t = At_Assert \<Longrightarrow> test_step x (goto t At_Inc (x\<lparr>failed := failed x \<or> c_val x < 0\<rparr>))"
| Inc: "pcs x t = At_Inc \<Longrightarrow> test_step x (goto t At_Notify (x\<lparr>c_val := c_val x + 1\<rparr>))"
| Give_Back: "pcs x t = At_Notify \<Longrightarrow> sem_step (test_sem x) (Notified w) s \<Longrightarrow>
    test_step x (goto t At_Wait (x\<lparr>test_sem := s\<rparr>))"
| Main_Teardown: "sem_running (test_sem x) \<Longrightarrow> sem_step (test_sem x) Torn_Down s \<Longrightarrow>
    test_step x (x\<lparr>test_sem := s\<rparr>)"

text \<open>The threads that hold a permit, and those between the decrement and the increment.\<close>

definition at :: "sem_test \<Rightarrow> pc set \<Rightarrow> tid set" where
  "at x L = points nthreads (pcs x) L"

definition holding :: "pc set" where "holding = {At_Dec, At_Assert, At_Inc, At_Notify}"
definition counted :: "pc set" where "counted = {At_Assert, At_Inc}"

definition test_inv :: "sem_test \<Rightarrow> bool" where
  "test_inv x \<longleftrightarrow> \<not> failed x \<and> (\<forall>t. pcs x t \<noteq> At_Exit \<longrightarrow> t < nthreads) \<and>
     c_val x = 5 - int (card (at x counted)) \<and> card (at x holding) \<le> 5 \<and>
     (sem_running (test_sem x) \<longrightarrow> unat (sem_count (test_sem x)) + card (at x holding) = 5) \<and>
     sem_inv (test_sem x)"

lemma finite_at [simp]: "finite (at x L)"
  by (simp add: at_def)

lemma at_update [simp]:
  "at (x\<lparr>test_sem := s\<rparr>) L = at x L" "at (x\<lparr>c_val := c\<rparr>) L = at x L" "at (x\<lparr>failed := f\<rparr>) L = at x L"
  "at (goto t l (x\<lparr>test_sem := s\<rparr>)) L = at (goto t l x) L" "at (goto t l (x\<lparr>c_val := c\<rparr>)) L = at (goto t l x) L"
  "at (goto t l (x\<lparr>failed := f\<rparr>)) L = at (goto t l x) L"
  by (simp_all add: at_def)

lemma holding_simps [simp]:
  "At_Wait \<notin> holding" "At_Exit \<notin> holding" "At_Dec \<in> holding" "At_Assert \<in> holding" "At_Inc \<in> holding"
  "At_Notify \<in> holding" "At_Wait \<notin> counted" "At_Exit \<notin> counted" "At_Dec \<notin> counted" "At_Assert \<in> counted"
  "At_Inc \<in> counted" "At_Notify \<notin> counted"
  by (simp_all add: holding_def counted_def)

text \<open>How a jump of one thread changes the number of threads in a part of the program.\<close>

lemma card_goto:
  assumes "t < nthreads"
  shows "card (at (goto t l x) L) + (if pcs x t \<in> L then 1 else 0) = card (at x L) + (if l \<in> L then 1 else 0)"
  by (simp only: at_def goto_simps card_points_update [OF assms])

lemma counted_le_holding: "card (at x counted) \<le> card (at x holding)"
  unfolding at_def by (rule card_points_mono) (auto simp: counted_def holding_def)

lemma test_inv_start: "test_inv sem_test_start"
  by (simp add: test_inv_def sem_test_start_def at_def points_def counted_def holding_def sem_inv_semaphore
      if_distrib cong: if_cong) (simp add: semaphore_def)

lemma test_step_inv:
  assumes "test_step x y" "test_inv x"
  shows "test_inv y"
proof -
  have below: "pcs x t \<noteq> At_Exit \<Longrightarrow> t < nthreads" for t using assms(2) by (simp add: test_inv_def)
  have sinv: "sem_step (test_sem x) e s \<Longrightarrow> sem_inv s" for e s
    using sem_step_inv assms(2) by (simp add: test_inv_def)
  from assms(1) show ?thesis
  proof cases
    case (Wait_Returns t b s)
    have t: "t < nthreads" using Wait_Returns below by simp
    from Wait_Returns(3) have s: "b = sem_running (test_sem x)" "may_pass (test_sem x)"
      "sem_count s = sem_count (test_sem x) - 1" "sem_running s = sem_running (test_sem x)"
      by (cases rule: sem_step_cases; simp)+
    have "sem_running (test_sem x) \<Longrightarrow> unat (sem_count s) + 1 = unat (sem_count (test_sem x))"
      using s by (simp add: may_pass_def unat_dec word_gt_0 unat_eq_0 Suc_leI unat_gt_0)
    then show ?thesis using assms(2) Wait_Returns s sinv card_goto [OF t, of At_Dec x holding] card_goto [OF t, of At_Dec x counted]
        card_goto [OF t, of At_Exit x holding] card_goto [OF t, of At_Exit x counted]
      by (cases b) (auto simp: test_inv_def)
  next
    case (Give_Back t w s)
    have t: "t < nthreads" using Give_Back below by simp
    from Give_Back(3) have s: "sem_count s = sem_count (test_sem x) + 1" "sem_running s = sem_running (test_sem x)"
      by (cases rule: sem_step_cases; simp)+
    then have "unat (sem_count (test_sem x)) \<le> 5 \<Longrightarrow> unat (sem_count s) = unat (sem_count (test_sem x)) + 1"
      by (simp add: unat_inc)
    then show ?thesis using assms(2) Give_Back s sinv card_goto [OF t, of At_Wait x holding] card_goto [OF t, of At_Wait x counted]
      by (auto simp: test_inv_def)
  next
    case (Wait_Blocks t s)
    from Wait_Blocks(3) have "sem_count s = sem_count (test_sem x)" "sem_running s = sem_running (test_sem x)"
      by (cases rule: sem_step_cases; simp)+
    then show ?thesis using assms(2) Wait_Blocks sinv by (simp add: test_inv_def)
  next
    case (Wait_Wakes t s)
    from Wait_Wakes(2) have "sem_count s = sem_count (test_sem x)" "sem_running s = sem_running (test_sem x)"
      by (cases rule: sem_step_cases; simp)+
    then show ?thesis using assms(2) Wait_Wakes sinv by (simp add: test_inv_def)
  next
    case (Main_Teardown s)
    from Main_Teardown(3) have "\<not> sem_running s" by (cases rule: sem_step_cases) simp_all
    then show ?thesis using assms(2) Main_Teardown sinv by (simp add: test_inv_def)
  next
    case (Dec t)
    then show ?thesis using assms(2) below card_goto [of t At_Assert x holding] card_goto [of t At_Assert x counted]
      by (auto simp: test_inv_def)
  next
    case (Assert t)
    then show ?thesis using assms(2) below counted_le_holding [of x]
        card_goto [of t At_Inc x holding] card_goto [of t At_Inc x counted]
      by (auto simp: test_inv_def)
  next
    case (Inc t)
    then show ?thesis using assms(2) below card_goto [of t At_Notify x holding] card_goto [of t At_Notify x counted]
      by (auto simp: test_inv_def)
  qed
qed

interpretation sem_test: invariant_system "\<lambda>x. x = sem_test_start" test_step test_inv
  by unfold_locales (auto intro: test_inv_start test_step_inv)

text \<open>
  \<open>SemaphoreTest\<close> cannot fail. In every state that any interleaving of its threads can
  reach no assertion has failed, the counter is between 0 and 5, and at most five threads are
  between their \<open>wait()\<close> and their \<open>notify()\<close>.
\<close>

theorem semaphore_test_passes:
  assumes "test_step\<^sup>*\<^sup>* sem_test_start x"
  shows "\<not> failed x \<and> 0 \<le> c_val x \<and> c_val x \<le> 5 \<and> card (at x holding) \<le> 5"
  using sem_test.inv_reachable [OF refl assms] counted_le_holding [of x] by (auto simp: test_inv_def)

lemma semaphore_test_passes_witness:
  "\<exists>x. test_step\<^sup>*\<^sup>* sem_test_start x \<and> pcs x 7 = At_Dec \<and> \<not> failed x"
proof -
  let ?s = "semaphore 5\<lparr>sem_count := 5 - 1, awake := {} - {7}\<rparr>"
  have "sem_step (semaphore 5) (Passed 7 True) ?s"
    by (rule Enter [where t = 7 and r = "Some True"])
      (simp_all add: semaphore_def sem_wait_def wait_check_def may_pass_def word_gt_0)
  then have "test_step sem_test_start (goto 7 (if True then At_Dec else At_Exit) (sem_test_start\<lparr>test_sem := ?s\<rparr>))"
    by (intro Wait_Returns) (simp_all add: sem_test_start_def nthreads_def)
  then have "test_step\<^sup>*\<^sup>* sem_test_start (goto 7 At_Dec (sem_test_start\<lparr>test_sem := ?s\<rparr>))" by simp
  then show ?thesis using semaphore_test_passes by fastforce
qed

text \<open>The statements a thread still executes after the teardown.\<close>

fun steps_left :: "pc \<Rightarrow> nat" where
  "steps_left At_Dec = 5"
| "steps_left At_Assert = 4"
| "steps_left At_Inc = 3"
| "steps_left At_Notify = 2"
| "steps_left At_Wait = 1"
| "steps_left At_Exit = 0"

definition work :: "sem_test \<Rightarrow> nat" where
  "work x = (\<Sum>t < nthreads. steps_left (pcs x t))"

lemma work_update [simp]:
  "work (goto t l (x\<lparr>test_sem := s\<rparr>)) = work (goto t l x)" "work (goto t l (x\<lparr>c_val := c\<rparr>)) = work (goto t l x)"
  "work (goto t l (x\<lparr>failed := f\<rparr>)) = work (goto t l x)"
  by (simp_all add: work_def)

lemma work_goto:
  assumes "t < nthreads" "steps_left l < steps_left (pcs x t)"
  shows "work (goto t l x) < work x"
proof -
  have "(\<Sum>u < nthreads. steps_left (pcs (goto t l x) u)) < (\<Sum>u < nthreads. steps_left (pcs x u))"
    using assms by (intro sum_strict_mono_ex1) auto
  then show ?thesis by (simp add: work_def)
qed

lemma torn_down_step:
  assumes "test_step x y" "test_inv x" "\<not> sem_running (test_sem x)"
  shows "\<not> sem_running (test_sem y) \<and> work y < work x"
proof -
  have below: "pcs x t \<noteq> At_Exit \<Longrightarrow> t < nthreads" for t using assms(2) by (simp add: test_inv_def)
  have noone: "asleep (test_sem x) = {}" using assms(2,3) by (auto simp: test_inv_def sem_inv_def)
  from assms(1) show ?thesis
  proof cases
    case (Wait_Returns t b s)
    from Wait_Returns(3) have "\<not> sem_running s" "\<not> b"
      by (cases rule: sem_step_cases; use assms(3) in simp)+
    then show ?thesis using Wait_Returns below by (simp add: work_goto)
  next
    case (Wait_Blocks t s)
    from Wait_Blocks(3) have False by (cases rule: sem_step_cases) (use assms(3) in \<open>simp_all add: may_pass_def\<close>)
    then show ?thesis ..
  next
    case (Wait_Wakes t s)
    from Wait_Wakes(2) have False by (cases rule: sem_step_cases) (use noone in simp_all)
    then show ?thesis ..
  next
    case (Give_Back t w s)
    from Give_Back(3) have "\<not> sem_running s" by (cases rule: sem_step_cases) (use assms(3) in simp_all)
    then show ?thesis using Give_Back below by (simp add: work_goto)
  qed (use assms(3) below in \<open>simp_all add: work_goto\<close>)
qed

lemma torn_down_enabled:
  assumes "test_inv x" "\<not> sem_running (test_sem x)" "pcs x t \<noteq> At_Exit"
  shows "\<exists>y. test_step x y"
proof (cases "pcs x t")
  case At_Wait
  let ?s = "test_sem x\<lparr>sem_count := sem_count (test_sem x) - 1, awake := awake (test_sem x) - {t}\<rparr>"
  have noone: "asleep (test_sem x) = {}" using assms(1,2) by (auto simp: test_inv_def sem_inv_def)
  have w: "wait_check t (test_sem x) = (?s, Some False)" using assms(2) by (simp add: wait_check_def may_pass_def)
  have "sem_step (test_sem x) (Passed t False) ?s"
  proof (cases "t \<in> awake (test_sem x)")
    case True
    then show ?thesis by (rule Resume [OF _ w]) simp
  next
    case False
    then show ?thesis using noone w
      by (intro Enter [where t = t and r = "Some False"]) (simp_all add: sem_wait_never_asserts)
  qed
  then show ?thesis using Wait_Returns [OF At_Wait] by blast
next
  case At_Notify
  have "wakes None (test_sem x)" using assms(1,2) by (auto simp: test_inv_def sem_inv_def wakes_def)
  then show ?thesis using Give_Back [OF At_Notify] Notify by blast
qed (use assms(3) in \<open>auto intro: test_step.intros\<close>)

text \<open>
  \<open>SemaphoreTest\<close> ends. After the teardown each step of any thread brings the end nearer
  (\<open>work\<close> counts the statements left), the semaphore stays torn down, and as long as a thread
  has not left its loop some thread can take a step: every \<open>join\<close> returns.
\<close>

theorem semaphore_test_joins:
  assumes "test_step\<^sup>*\<^sup>* sem_test_start x" "\<not> sem_running (test_sem x)"
  shows "(\<forall>y. test_step x y \<longrightarrow> \<not> sem_running (test_sem y) \<and> work y < work x) \<and>
    ((\<exists>t. pcs x t \<noteq> At_Exit) \<longrightarrow> (\<exists>y. test_step x y))"
  using sem_test.inv_reachable [OF refl assms(1)] assms(2) torn_down_step torn_down_enabled by blast

lemma semaphore_test_joins_witness:
  "\<exists>x y. test_step\<^sup>*\<^sup>* sem_test_start x \<and> pcs x 0 = At_Wait \<and> test_step x y \<and> work y < work x"
proof -
  let ?x = "sem_test_start\<lparr>test_sem := sem_teardown (semaphore 5)\<rparr>"
  have "test_step sem_test_start ?x"
    by (intro Main_Teardown) (simp_all add: sem_test_start_def semaphore_def Teardown)
  then have r: "test_step\<^sup>*\<^sup>* sem_test_start ?x" by simp
  moreover have x: "pcs ?x 0 = At_Wait" "\<not> sem_running (test_sem ?x)"
    by (simp_all add: sem_test_start_def nthreads_def)
  moreover obtain y where "test_step ?x y" "work y < work ?x"
    using semaphore_test_joins [OF r x(2)] x(1) by (metis pc.distinct(9))
  ultimately show ?thesis by blast
qed

end
