(* ===== verification/Task_Master.thy ===== *)
theory Task_Master
  imports Semaphore
begin

text \<open>
  The thread pool of \<^verbatim>\<open>src/taskmaster.h\<close>, \<^verbatim>\<open>TaskMaster<T>\<close>, for any number of workers and any
  interleaving of the workers and of the thread that owns the pool.

  The program point of a worker is where it is in \<^verbatim>\<open>worker()\<close> and \<^verbatim>\<open>obey()\<close>; the point of the owner
  is where it is in \<^verbatim>\<open>assign()\<close>, \<^verbatim>\<open>occupy()\<close> or \<^verbatim>\<open>cleanup()\<close>. \<open>holder\<close> says who holds
  \<^verbatim>\<open>lock_\<close> between two steps: \<^verbatim>\<open>assign()\<close> and \<^verbatim>\<open>occupy()\<close> keep it over the push and the
  notification, \<^verbatim>\<open>cleanup()\<close> between reading \<^verbatim>\<open>waiting_\<close> and reading the queue. The semaphore is
  that of \<open>Semaphore\<close>. The task function is code of the client: while a worker is at
  \<open>W_Run\<close> it may call \<^verbatim>\<open>assign()\<close> and \<^verbatim>\<open>occupy()\<close> any number of times and then returns.

  \<open>taken\<close> and \<open>finished\<close> are the history: the tasks in the order they left the queue, and how
  many calls of the task function have returned. The wait of \<^verbatim>\<open>cleanup()\<close> on \<^verbatim>\<open>no_tasks_\<close> has a
  timeout and is followed by the same test again, so it only delays; the model polls.
\<close>

section \<open>State\<close>

datatype worker =
    W_Begin        \<comment> \<open>\<open>obey()\<close> before \<open>waiting_++\<close>\<close>
  | W_Wait         \<comment> \<open>in \<open>sem_.wait()\<close>\<close>
  | W_Granted      \<comment> \<open>before \<open>waiting_--\<close>\<close>
  | W_Pop          \<comment> \<open>before the lock and the pop\<close>
  | W_Run          \<comment> \<open>in \<open>func_\<close>\<close>
  | W_Notify       \<comment> \<open>in \<open>func_\<close>, in \<open>assign()\<close> or \<open>occupy()\<close>, before \<open>sem_.notify()\<close>\<close>
  | W_Exit

datatype owner =
    O_Busy         \<comment> \<open>outside the pool's functions\<close>
  | O_Notify       \<comment> \<open>in \<open>assign()\<close> or \<open>occupy()\<close>, before \<open>sem_.notify()\<close>\<close>
  | O_Cleanup      \<comment> \<open>\<open>cleanup()\<close>, before the lock\<close>
  | O_Check        \<comment> \<open>\<open>waiting_ == threads_.size()\<close> was true, the lock is held\<close>
  | O_Teardown     \<comment> \<open>after the loop\<close>
  | O_Join
  | O_Done

datatype who = Owner | Worker tid

record 'a pool =
  psem :: sem
  tasks :: "'a list"
  waiting :: int
  nworkers :: nat
  workers :: "tid \<Rightarrow> worker"
  owner :: owner
  holder :: "who option"
  assigned :: "'a list"
  taken :: "'a list"
  finished :: nat

definition new_pool :: "'a pool" where
  "new_pool = \<lparr>psem = semaphore 0, tasks = [], waiting = 0, nworkers = 0, workers = (\<lambda>_. W_Exit),
     owner = O_Busy, holder = None, assigned = [], taken = [], finished = 0\<rparr>"

definition wgoto :: "tid \<Rightarrow> worker \<Rightarrow> 'a pool \<Rightarrow> 'a pool" where
  "wgoto t l x = x\<lparr>workers := (workers x)(t := l)\<rparr>"

section \<open>Operations\<close>

text \<open>\<open>spawn()\<close>: one more worker, at the beginning of its loop.\<close>

definition spawn :: "'a pool \<Rightarrow> 'a pool" where
  "spawn x = wgoto (nworkers x) W_Begin (x\<lparr>nworkers := Suc (nworkers x)\<rparr>)"

text \<open>
  The thread that \<open>spawn()\<close> makes is given the number of threads plus one, and \<open>worker()\<close> stores it in its thread's \<open>id\<close>: the
  workers of a pool have the numbers from 1 on. (Those of two pools are not distinct.)
\<close>

definition spawn_id :: "'a pool \<Rightarrow> int" where
  "spawn_id x = int (nworkers x) + 1"

fun worker_ids :: "nat \<Rightarrow> 'a pool \<Rightarrow> int list" where
  "worker_ids 0 x = []"
| "worker_ids (Suc n) x = spawn_id x # worker_ids n (spawn x)"

lemma worker_ids_upt: "worker_ids n x = map (\<lambda>k. int (nworkers x) + 1 + int k) [0..<n]"
proof (induction n arbitrary: x)
  case (Suc n)
  have "[0..<Suc n] = 0 # map Suc [0..<n]" by (simp add: upt_conv_Cons map_Suc_upt [symmetric] del: upt_Suc)
  then show ?case using Suc [of "spawn x"] by (simp add: spawn_id_def spawn_def wgoto_def del: upt_Suc)
qed simp

text \<open>The two halves of \<open>assign()\<close>: lock and push, then notify and unlock.\<close>

definition assign_push :: "who \<Rightarrow> 'a \<Rightarrow> 'a pool \<Rightarrow> 'a pool" where
  "assign_push p a x = x\<lparr>tasks := tasks x @ [a], holder := Some p, assigned := assigned x @ [a]\<rparr>"

definition assign_notify :: "tid option \<Rightarrow> 'a pool \<Rightarrow> 'a pool" where
  "assign_notify w x = x\<lparr>psem := sem_notify w (psem x), holder := None\<rparr>"

text \<open>\<open>occupied()\<close>, and the test of \<open>occupy()\<close>, which pushes as \<open>assign()\<close> does when the pool is not occupied.\<close>

definition occupied :: "'a pool \<Rightarrow> bool" where
  "occupied x \<longleftrightarrow> length (tasks x) > nworkers x"

definition occupy_push :: "who \<Rightarrow> 'a \<Rightarrow> 'a pool \<Rightarrow> 'a pool \<times> bool" where
  "occupy_push p a x = (if length (tasks x) \<le> nworkers x then (assign_push p a x, True) else (x, False))"

text \<open>
  The steps of \<open>obey()\<close>: the counter, one evaluation of the semaphore's predicate, the counter
  again, and the pop. \<open>front()\<close> and \<open>pop()\<close> of an empty queue have no meaning.
\<close>

definition obey_enter :: "tid \<Rightarrow> 'a pool \<Rightarrow> 'a pool" where
  "obey_enter t x = wgoto t W_Wait (x\<lparr>waiting := waiting x + 1\<rparr>)"

definition obey_wait :: "tid \<Rightarrow> 'a pool \<Rightarrow> 'a pool" where
  "obey_wait t x = (case wait_check t (psem x) of (s, r) \<Rightarrow>
     (case r of None \<Rightarrow> x\<lparr>psem := s\<rparr>
      | Some True \<Rightarrow> wgoto t W_Granted (x\<lparr>psem := s\<rparr>)
      | Some False \<Rightarrow> wgoto t W_Exit (x\<lparr>psem := s\<rparr>)))"

definition obey_leave :: "tid \<Rightarrow> 'a pool \<Rightarrow> 'a pool" where
  "obey_leave t x = wgoto t W_Pop (x\<lparr>waiting := waiting x - 1\<rparr>)"

definition obey_pop :: "tid \<Rightarrow> 'a pool \<Rightarrow> fault + 'a pool" where
  "obey_pop t x = (case tasks x of [] \<Rightarrow> Inl Out_Of_Bounds
     | a # as \<Rightarrow> Inr (wgoto t W_Run (x\<lparr>tasks := as, taken := taken x @ [a]\<rparr>)))"

text \<open>\<open>cleanup()\<close>: the test of the loop in two reads, the teardown, the joins.\<close>

definition cleanup_test_waiting :: "'a pool \<Rightarrow> 'a pool" where
  "cleanup_test_waiting x = (if waiting x = int (nworkers x)
     then x\<lparr>owner := O_Check, holder := Some Owner\<rparr> else x)"

definition cleanup_test_tasks :: "'a pool \<Rightarrow> 'a pool" where
  "cleanup_test_tasks x = x\<lparr>owner := (if tasks x = [] then O_Teardown else O_Cleanup), holder := None\<rparr>"

definition cleanup_teardown :: "'a pool \<Rightarrow> 'a pool" where
  "cleanup_teardown x = x\<lparr>psem := sem_teardown (psem x), owner := O_Join\<rparr>"

section \<open>Interleavings\<close>

definition can_check :: "tid \<Rightarrow> 'a pool \<Rightarrow> bool" where
  "can_check t x \<longleftrightarrow> workers x t = W_Wait \<and> t \<notin> asleep (psem x)"

inductive pool_step :: "'a pool \<Rightarrow> 'a pool \<Rightarrow> bool" where
  Spawn: "owner x = O_Busy \<Longrightarrow> pool_step x (spawn x)"
| Owner_Assign: "owner x = O_Busy \<Longrightarrow> holder x = None \<Longrightarrow>
    pool_step x (assign_push Owner a x\<lparr>owner := O_Notify\<rparr>)"
| Owner_Occupy: "owner x = O_Busy \<Longrightarrow> holder x = None \<Longrightarrow> occupy_push Owner a x = (y, b) \<Longrightarrow>
    pool_step x (if b then y\<lparr>owner := O_Notify\<rparr> else y)"
| Owner_Notify: "owner x = O_Notify \<Longrightarrow> wakes w (psem x) \<Longrightarrow>
    pool_step x (assign_notify w x\<lparr>owner := O_Busy\<rparr>)"
| Enter: "workers x t = W_Begin \<Longrightarrow> pool_step x (obey_enter t x)"
| Wait: "can_check t x \<Longrightarrow> pool_step x (obey_wait t x)"
| Spurious: "t \<in> asleep (psem x) \<Longrightarrow> pool_step x (x\<lparr>psem := wake_one (Some t) (psem x)\<rparr>)"
| Leave: "workers x t = W_Granted \<Longrightarrow> pool_step x (obey_leave t x)"
| Pop: "workers x t = W_Pop \<Longrightarrow> holder x = None \<Longrightarrow> obey_pop t x = Inr y \<Longrightarrow> pool_step x y"
| Task_Assign: "workers x t = W_Run \<Longrightarrow> holder x = None \<Longrightarrow>
    pool_step x (wgoto t W_Notify (assign_push (Worker t) a x))"
| Task_Occupy: "workers x t = W_Run \<Longrightarrow> holder x = None \<Longrightarrow> occupy_push (Worker t) a x = (y, b) \<Longrightarrow>
    pool_step x (if b then wgoto t W_Notify y else y)"
| Task_Notify: "workers x t = W_Notify \<Longrightarrow> wakes w (psem x) \<Longrightarrow>
    pool_step x (wgoto t W_Run (assign_notify w x))"
| Task_Return: "workers x t = W_Run \<Longrightarrow> pool_step x (wgoto t W_Begin (x\<lparr>finished := Suc (finished x)\<rparr>))"
| Cleanup: "owner x = O_Busy \<Longrightarrow> pool_step x (x\<lparr>owner := O_Cleanup\<rparr>)"
| Test_Waiting: "owner x = O_Cleanup \<Longrightarrow> holder x = None \<Longrightarrow> pool_step x (cleanup_test_waiting x)"
| Test_Tasks: "owner x = O_Check \<Longrightarrow> pool_step x (cleanup_test_tasks x)"
| Teardown: "owner x = O_Teardown \<Longrightarrow> pool_step x (cleanup_teardown x)"
| Join: "owner x = O_Join \<Longrightarrow> (\<And>t. workers x t = W_Exit) \<Longrightarrow> pool_step x (x\<lparr>owner := O_Done\<rparr>)"

section \<open>The invariant\<close>

text \<open>
  The invariant, in parts: the queue is a first-in first-out buffer; \<^verbatim>\<open>lock_\<close> is held exactly at
  the program points between its acquisition and its release; before the teardown each task in
  the queue has a permit, a worker on its way to it, or an \<^verbatim>\<open>assign()\<close> about to notify; the
  counter \<^verbatim>\<open>waiting_\<close> counts the workers in and just behind \<^verbatim>\<open>sem_.wait()\<close>; each task taken is
  finished or running; and \<^verbatim>\<open>cleanup()\<close> passes its loop only when all the work is done.
\<close>

definition numw :: "worker set \<Rightarrow> 'a pool \<Rightarrow> nat" where
  "numw L x = card (points (nworkers x) (workers x) L)"

definition pushing :: "'a pool \<Rightarrow> nat" where
  "pushing x = numw {W_Notify} x + (if owner x = O_Notify then 1 else 0)"

definition lock_inv :: "'a pool \<Rightarrow> bool" where
  "lock_inv x \<longleftrightarrow> (\<forall>t. holder x = Some (Worker t) \<longleftrightarrow> workers x t = W_Notify) \<and>
     (holder x = Some Owner \<longleftrightarrow> owner x \<in> {O_Notify, O_Check})"

definition count_inv :: "'a pool \<Rightarrow> bool" where
  "count_inv x \<longleftrightarrow> assigned x = taken x @ tasks x \<and>
     waiting x = int (numw {W_Wait, W_Granted, W_Exit} x) \<and>
     length (taken x) = finished x + numw {W_Run, W_Notify} x \<and>
     (sem_running (psem x) \<longrightarrow>
       unat (sem_count (psem x)) + numw {W_Granted, W_Pop} x + pushing x = length (tasks x))"

definition phase_inv :: "'a pool \<Rightarrow> bool" where
  "phase_inv x \<longleftrightarrow> (\<forall>t. workers x t \<noteq> W_Exit \<longrightarrow> t < nworkers x) \<and>
     (sem_running (psem x) \<longleftrightarrow> owner x \<notin> {O_Join, O_Done}) \<and>
     (sem_running (psem x) \<longrightarrow> (\<forall>t < nworkers x. workers x t \<noteq> W_Exit)) \<and>
     (owner x = O_Check \<longrightarrow> (\<forall>t < nworkers x. workers x t \<in> {W_Wait, W_Granted, W_Pop})) \<and>
     (owner x = O_Teardown \<longrightarrow> (\<forall>t < nworkers x. workers x t = W_Wait) \<and> tasks x = []) \<and>
     (owner x \<in> {O_Join, O_Done} \<longrightarrow> (\<forall>t < nworkers x. workers x t \<in> {W_Wait, W_Exit}) \<and> tasks x = []) \<and>
     (owner x = O_Done \<longrightarrow> (\<forall>t < nworkers x. workers x t = W_Exit))"

definition waiters_inv :: "'a pool \<Rightarrow> bool" where
  "waiters_inv x \<longleftrightarrow> sem_inv (psem x) \<and> (\<forall>t \<in> asleep (psem x) \<union> awake (psem x). workers x t = W_Wait)"

definition pool_inv :: "'a pool \<Rightarrow> bool" where
  "pool_inv x \<longleftrightarrow> length (assigned x) < 2 ^ 64 \<longrightarrow>
     lock_inv x \<and> count_inv x \<and> phase_inv x \<and> waiters_inv x"

lemma wgoto_simps [simp]:
  "psem (wgoto t l x) = psem x" "tasks (wgoto t l x) = tasks x" "waiting (wgoto t l x) = waiting x"
  "nworkers (wgoto t l x) = nworkers x" "workers (wgoto t l x) = (workers x)(t := l)"
  "owner (wgoto t l x) = owner x" "holder (wgoto t l x) = holder x" "assigned (wgoto t l x) = assigned x"
  "taken (wgoto t l x) = taken x" "finished (wgoto t l x) = finished x"
  by (simp_all add: wgoto_def)

lemma numw_update:
  assumes "t < nworkers x"
  shows "numw L (wgoto t l x) + (if workers x t \<in> L then 1 else 0) = numw L x + (if l \<in> L then 1 else 0)"
  by (simp only: numw_def wgoto_simps card_points_update [OF assms])

lemma numw_cong:
  "nworkers y = nworkers x \<Longrightarrow> workers y = workers x \<Longrightarrow> numw L y = numw L x"
  by (simp add: numw_def)

lemma numw_wgoto_cong:
  "nworkers y = nworkers x \<Longrightarrow> workers y = workers x \<Longrightarrow> numw L (wgoto t l y) = numw L (wgoto t l x)"
  by (simp add: numw_def)

lemma numw_spawn: "W_Begin \<notin> L \<Longrightarrow> numw L (spawn x) = numw L x"
  by (simp add: numw_def spawn_def points_def) (metis less_Suc_eq less_irrefl)

lemma pool_inv_start: "pool_inv new_pool"
  by (simp add: pool_inv_def new_pool_def lock_inv_def count_inv_def phase_inv_def waiters_inv_def
      pushing_def numw_def points_def sem_inv_semaphore) (simp add: semaphore_def)

lemma assigned_grows: "pool_step x y \<Longrightarrow> length (assigned x) \<le> length (assigned y)"
  by (induction rule: pool_step.induct)
    (auto simp: spawn_def assign_push_def assign_notify_def occupy_push_def obey_enter_def obey_wait_def
      obey_leave_def obey_pop_def cleanup_test_waiting_def cleanup_test_tasks_def cleanup_teardown_def
      split: if_splits option.splits prod.splits list.splits bool.splits)

lemma obey_wait_cases [case_names granted exit block]:
  obtains "sem_running (psem x)" "sem_count (psem x) \<noteq> 0"
      "obey_wait t x = wgoto t W_Granted (x\<lparr>psem := psem x\<lparr>sem_count := sem_count (psem x) - 1,
        awake := awake (psem x) - {t}\<rparr>\<rparr>)"
  | "\<not> sem_running (psem x)"
      "obey_wait t x = wgoto t W_Exit (x\<lparr>psem := psem x\<lparr>sem_count := sem_count (psem x) - 1,
        awake := awake (psem x) - {t}\<rparr>\<rparr>)"
  | "sem_running (psem x)" "sem_count (psem x) = 0" "\<not> may_pass (psem x)"
      "obey_wait t x = x\<lparr>psem := psem x\<lparr>asleep := insert t (asleep (psem x)), awake := awake (psem x) - {t}\<rparr>\<rparr>"
  by (cases "sem_running (psem x)"; cases "sem_count (psem x) = 0")
    (simp_all add: obey_wait_def wait_check_def may_pass_def word_gt_0)

lemmas pool_ops = assign_push_def assign_notify_def occupy_push_def obey_enter_def
  obey_leave_def obey_pop_def cleanup_test_waiting_def cleanup_test_tasks_def cleanup_teardown_def

lemma lock_step: "pool_step x y \<Longrightarrow> lock_inv x \<Longrightarrow> phase_inv x \<Longrightarrow> lock_inv y"
proof (induction rule: pool_step.induct)
  case (Wait t x)
  then show ?case by (cases rule: obey_wait_cases [where x = x and t = t]) (auto simp: lock_inv_def can_check_def)
next
  case (Spawn x)
  then have "workers x (nworkers x) = W_Exit" by (auto simp: phase_inv_def)
  then show ?case using Spawn by (auto simp: lock_inv_def spawn_def)
next
  case (Task_Notify x t w)
  then have "workers x u = W_Notify \<longleftrightarrow> u = t" for u
    by (metis lock_inv_def option.inject who.inject)
  moreover have "owner x \<notin> {O_Notify, O_Check}"
    using Task_Notify by (metis lock_inv_def option.inject who.distinct(1))
  ultimately show ?case by (auto simp: lock_inv_def assign_notify_def)
qed (auto simp: lock_inv_def pool_ops split: if_splits list.splits)

lemma waiters_step: "pool_step x y \<Longrightarrow> waiters_inv x \<Longrightarrow> phase_inv x \<Longrightarrow> waiters_inv y"
proof (induction rule: pool_step.induct)
  case (Wait t x)
  then have inv: "sem_inv (psem x)" "\<forall>t \<in> asleep (psem x) \<union> awake (psem x). workers x t = W_Wait"
    "workers x t = W_Wait" "t \<notin> asleep (psem x)"
    by (auto simp: waiters_inv_def can_check_def)
  show ?case
  proof (cases rule: obey_wait_cases [where x = x and t = t])
    case granted
    then show ?thesis using inv pass_inv [OF inv(1), of t] by (auto simp: waiters_inv_def may_pass_def word_gt_0)
  next
    case exit
    then show ?thesis using inv pass_inv [OF inv(1), of t] by (auto simp: waiters_inv_def may_pass_def)
  next
    case block
    then show ?thesis using inv block_inv [OF inv(1), of t] by (auto simp: waiters_inv_def)
  qed
next
  case (Spurious t x)
  then show ?case using wake_inv [of "psem x" t "sem_count (psem x)"]
    by (auto simp: waiters_inv_def wake_one_def)
next
  case (Owner_Notify x w)
  then show ?case using notify_inv [of "psem x" w]
    by (auto simp: waiters_inv_def assign_notify_def sem_notify_def wake_one_def wakes_def split: option.splits)
next
  case (Task_Notify x t w)
  then show ?case using notify_inv [of "psem x" w]
    by (auto simp: waiters_inv_def assign_notify_def sem_notify_def wake_one_def wakes_def split: option.splits)
next
  case (Teardown x)
  then show ?case using teardown_inv [of "psem x"] by (auto simp: waiters_inv_def cleanup_teardown_def)
next
  case (Pop x t y)
  then show ?case by (auto simp: obey_pop_def waiters_inv_def split: list.splits)
next
  case (Spawn x)
  then have "workers x (nworkers x) = W_Exit" by (auto simp: phase_inv_def)
  then show ?case using Spawn by (auto simp: waiters_inv_def spawn_def)
qed (auto simp: pool_ops waiters_inv_def split: if_splits)

text \<open>The parts of the invariant that say which operation can happen where.\<close>

lemma phase_below: "phase_inv x \<Longrightarrow> workers x t \<noteq> W_Exit \<Longrightarrow> t < nworkers x"
  by (simp add: phase_inv_def)

lemma count_no_permit:
  assumes "count_inv x" "sem_running (psem x)" "tasks x = []"
  shows "sem_count (psem x) = 0" "t < nworkers x \<Longrightarrow> workers x t \<notin> {W_Granted, W_Pop}"
    "t < nworkers x \<Longrightarrow> workers x t \<noteq> W_Notify" "owner x \<noteq> O_Notify"
proof -
  have "unat (sem_count (psem x)) + numw {W_Granted, W_Pop} x + pushing x = 0"
    using assms by (simp add: count_inv_def)
  then have z: "unat (sem_count (psem x)) = 0" "numw {W_Granted, W_Pop} x = 0" "numw {W_Notify} x = 0"
    "owner x \<noteq> O_Notify" by (auto simp: pushing_def split: if_splits)
  show "sem_count (psem x) = 0" using z(1) by (simp add: unat_eq_0)
  show "t < nworkers x \<Longrightarrow> workers x t \<notin> {W_Granted, W_Pop}" "t < nworkers x \<Longrightarrow> workers x t \<noteq> W_Notify"
    using z(2,3) by (auto simp: numw_def card_points_eq_0)
  show "owner x \<noteq> O_Notify" by (rule z(4))
qed

text \<open>The program points that a phase of \<open>cleanup()\<close> allows.\<close>

definition allowed :: "owner \<Rightarrow> worker set" where
  "allowed p = (case p of O_Check \<Rightarrow> {W_Wait, W_Granted, W_Pop} | O_Teardown \<Rightarrow> {W_Wait}
     | O_Join \<Rightarrow> {W_Wait, W_Exit} | O_Done \<Rightarrow> {W_Exit} | _ \<Rightarrow> UNIV - {W_Exit})"

lemma phase_inv_alt:
  "phase_inv x \<longleftrightarrow> (\<forall>t. workers x t \<noteq> W_Exit \<longrightarrow> t < nworkers x) \<and>
     (sem_running (psem x) \<longleftrightarrow> owner x \<notin> {O_Join, O_Done}) \<and>
     (\<forall>t < nworkers x. workers x t \<in> allowed (owner x)) \<and>
     (owner x \<in> {O_Teardown, O_Join, O_Done} \<longrightarrow> tasks x = [])"
  by (cases "owner x") (auto simp: phase_inv_def allowed_def)

lemma phase_move:
  assumes "phase_inv x" "workers x t \<noteq> W_Exit" "workers y = (workers x)(t := l)" "nworkers y = nworkers x"
    "owner y = owner x" "sem_running (psem y) = sem_running (psem x)" "l \<in> allowed (owner x)"
    "owner x \<in> {O_Teardown, O_Join, O_Done} \<Longrightarrow> tasks y = []"
  shows "phase_inv y"
  using assms unfolding phase_inv_alt by auto

lemma phase_at: "phase_inv x \<Longrightarrow> workers x t \<noteq> W_Exit \<Longrightarrow> workers x t \<in> allowed (owner x)"
  by (simp add: phase_inv_alt)

lemma phase_tasks: "phase_inv x \<Longrightarrow> owner x \<in> {O_Teardown, O_Join, O_Done} \<Longrightarrow> tasks x = []"
  by (auto simp: phase_inv_alt)

lemma phase_keep:
  assumes "phase_inv x" "workers y = workers x" "nworkers y = nworkers x" "tasks y = tasks x"
    "sem_running (psem y) = sem_running (psem x)" "owner y = owner x"
  shows "phase_inv y"
  using assms by (simp add: phase_inv_alt)

lemma phase_owner:
  assumes "phase_inv x" "workers y = workers x" "nworkers y = nworkers x"
    "sem_running (psem y) \<longleftrightarrow> owner y \<notin> {O_Join, O_Done}"
    "\<And>t. t < nworkers x \<Longrightarrow> workers x t \<in> allowed (owner x) \<Longrightarrow> workers x t \<in> allowed (owner y)"
    "owner y \<in> {O_Teardown, O_Join, O_Done} \<Longrightarrow> tasks y = []"
  shows "phase_inv y"
  using assms unfolding phase_inv_alt by auto

lemma phase_step: "pool_step x y \<Longrightarrow> phase_inv x \<Longrightarrow> lock_inv x \<Longrightarrow> count_inv x \<Longrightarrow> phase_inv y"
proof (induction rule: pool_step.induct)
  case (Wait t x)
  have w: "workers x t = W_Wait" using Wait by (simp add: can_check_def)
  note at = phase_at [OF Wait.prems(1), of t, unfolded w]
  show ?case
  proof (cases rule: obey_wait_cases [where x = x and t = t])
    case granted
    then have "tasks x \<noteq> []" using count_no_permit(1) Wait by blast
    then have "owner x \<notin> {O_Teardown, O_Join, O_Done}" using phase_tasks Wait.prems(1) by blast
    then have "W_Granted \<in> allowed (owner x)" by (cases "owner x") (auto simp: allowed_def)
    then show ?thesis using granted w phase_tasks [OF Wait.prems(1)]
      by (intro phase_move [OF Wait.prems(1), of t]) auto
  next
    case exit
    then have "owner x = O_Join \<or> owner x = O_Done" using Wait.prems(1) by (auto simp: phase_inv_alt)
    then have "W_Exit \<in> allowed (owner x)" by (auto simp: allowed_def)
    then show ?thesis using exit w phase_tasks [OF Wait.prems(1)]
      by (intro phase_move [OF Wait.prems(1), of t]) auto
  next
    case block
    then show ?thesis by (intro phase_keep [OF Wait.prems(1)]) simp_all
  qed
next
  case (Spawn x)
  then show ?case by (auto simp: phase_inv_alt spawn_def less_Suc_eq allowed_def)
next
  case (Test_Waiting x)
  have "workers x t \<in> {W_Wait, W_Granted}" if "waiting x = int (nworkers x)" "t < nworkers x" for t
  proof -
    have "numw {W_Wait, W_Granted, W_Exit} x = nworkers x" using that(1) Test_Waiting by (simp add: count_inv_def)
    then have "workers x t \<in> {W_Wait, W_Granted, W_Exit}" using that(2) by (simp add: numw_def card_points_eq_n)
    moreover have "workers x t \<in> allowed (owner x)" using Test_Waiting that(2) by (simp add: phase_inv_alt)
    ultimately show ?thesis using Test_Waiting by (auto simp: allowed_def)
  qed
  then show ?case using Test_Waiting
    by (cases "waiting x = int (nworkers x)")
      (auto simp: cleanup_test_waiting_def phase_inv_alt allowed_def)
next
  case (Test_Tasks x)
  have "workers x t = W_Wait" if "tasks x = []" "t < nworkers x" for t
  proof -
    have "workers x t \<in> allowed (owner x)" "sem_running (psem x)"
      using Test_Tasks that(2) by (auto simp: phase_inv_alt)
    then show ?thesis using count_no_permit(2) [OF _ _ that] Test_Tasks by (auto simp: allowed_def)
  qed
  moreover have "sem_running (psem x)" using Test_Tasks by (auto simp: phase_inv_alt)
  ultimately show ?case using Test_Tasks
    by (intro phase_owner [OF Test_Tasks.prems(1)])
      (auto simp: cleanup_test_tasks_def allowed_def split: if_splits)
next
  case (Pop x t y)
  then have "owner x \<notin> {O_Notify, O_Check}" by (simp add: lock_inv_def)
  moreover have "tasks x \<noteq> []" using Pop by (auto simp: obey_pop_def)
  then have "owner x \<notin> {O_Teardown, O_Join, O_Done}" using phase_tasks Pop.prems(1) by blast
  ultimately have "W_Run \<in> allowed (owner x)" by (cases "owner x") (auto simp: allowed_def)
  then show ?case using Pop phase_tasks [OF Pop.prems(1)]
    by (intro phase_move [OF Pop.prems(1), of t _ W_Run]) (auto simp: obey_pop_def split: list.splits)
next
  case (Join x)
  then show ?case by (intro phase_owner [OF Join.prems(1)]) (auto simp: phase_inv_alt allowed_def)
next
  case (Enter x t)
  then show ?case using phase_at [OF Enter.prems(1), of t] phase_tasks [OF Enter.prems(1)]
    by (intro phase_move [OF Enter.prems(1), of t _ W_Wait])
      (auto simp: obey_enter_def allowed_def split: owner.splits)
next
  case (Leave x t)
  then show ?case using phase_at [OF Leave.prems(1), of t] phase_tasks [OF Leave.prems(1)]
    by (intro phase_move [OF Leave.prems(1), of t _ W_Pop])
      (auto simp: obey_leave_def allowed_def split: owner.splits)
next
  case (Task_Assign x t a)
  then show ?case using phase_at [OF Task_Assign.prems(1), of t]
    by (intro phase_move [OF Task_Assign.prems(1), of t _ W_Notify])
      (auto simp: assign_push_def allowed_def split: owner.splits)
next
  case (Task_Occupy x t a y b)
  then show ?case using phase_at [OF Task_Occupy.prems(1), of t] 
    by (cases b) (auto simp: assign_push_def occupy_push_def allowed_def split: owner.splits if_splits
        intro!: phase_move [OF Task_Occupy.prems(1), of t _ W_Notify])
next
  case (Task_Notify x t w)
  then show ?case using phase_at [OF Task_Notify.prems(1), of t] phase_tasks [OF Task_Notify.prems(1)]
    by (intro phase_move [OF Task_Notify.prems(1), of t _ W_Run])
      (auto simp: assign_notify_def allowed_def split: owner.splits)
next
  case (Task_Return x t)
  then show ?case using phase_at [OF Task_Return.prems(1), of t] phase_tasks [OF Task_Return.prems(1)]
    by (intro phase_move [OF Task_Return.prems(1), of t _ W_Begin])
      (auto simp: allowed_def split: owner.splits)
next
  case (Spurious t x)
  then show ?case by (intro phase_keep [OF Spurious.prems(1)]) simp_all
next
  case (Owner_Occupy x a y b)
  then show ?case
    by (cases b) (auto simp: assign_push_def occupy_push_def allowed_def phase_inv_alt split: if_splits)
qed (auto simp: pool_ops allowed_def phase_inv_alt)

text \<open>The counting invariant after the move of one worker.\<close>

lemma count_move:
  assumes inv: "count_inv x" and t: "t < nworkers x"
    and y: "workers y = (workers x)(t := l)" "nworkers y = nworkers x" "owner y = owner x"
    and fifo: "assigned y = taken y @ tasks y"
    and wait: "waiting y + (if workers x t \<in> {W_Wait, W_Granted, W_Exit} then 1 else 0)
      = waiting x + (if l \<in> {W_Wait, W_Granted, W_Exit} then 1 else 0)"
    and runs: "length (taken y) + finished x + (if workers x t \<in> {W_Run, W_Notify} then 1 else 0)
      = length (taken x) + finished y + (if l \<in> {W_Run, W_Notify} then 1 else 0)"
    and sem: "sem_running (psem y) \<Longrightarrow> sem_running (psem x) \<and> unat (sem_count (psem y))
        + (if l \<in> {W_Granted, W_Pop} then 1 else 0) + (if l \<in> {W_Notify} then 1 else 0) + length (tasks x)
      = unat (sem_count (psem x)) + (if workers x t \<in> {W_Granted, W_Pop} then 1 else 0)
        + (if workers x t \<in> {W_Notify} then 1 else 0) + length (tasks y)"
  shows "count_inv y"
proof -
  have num: "numw L y + (if workers x t \<in> L then 1 else 0) = numw L x + (if l \<in> L then 1 else 0)" for L
    unfolding numw_def y by (rule card_points_update [OF t])
  have int_if: "int (if b then 1 else 0) = (if b then 1 else 0)" for b by simp
  have "waiting y = int (numw {W_Wait, W_Granted, W_Exit} y)"
    using inv wait arg_cong [OF num [of "{W_Wait, W_Granted, W_Exit}"], of int]
    unfolding count_inv_def of_nat_add int_if by linarith
  moreover have "length (taken y) = finished y + numw {W_Run, W_Notify} y"
    using inv runs num [of "{W_Run, W_Notify}"] unfolding count_inv_def by linarith
  moreover have "unat (sem_count (psem y)) + numw {W_Granted, W_Pop} y + pushing y = length (tasks y)"
    if r: "sem_running (psem y)"
  proof -
    have "unat (sem_count (psem x)) + numw {W_Granted, W_Pop} x + pushing x = length (tasks x)"
      using inv sem [OF r] unfolding count_inv_def by blast
    then show ?thesis
      using conjunct2 [OF sem [OF r]] num [of "{W_Granted, W_Pop}"] num [of "{W_Notify}"]
      unfolding pushing_def y(3) by linarith
  qed
  ultimately show ?thesis using fifo unfolding count_inv_def by blast
qed

lemma count_permits:
  "count_inv x \<Longrightarrow> sem_running (psem x) \<Longrightarrow> unat (sem_count (psem x)) \<le> length (assigned x)"
  by (simp add: count_inv_def)

text \<open>A notification adds a permit for the task that was just pushed; the count cannot wrap.\<close>

lemma notify_room:
  assumes "count_inv x" "length (assigned x) < 2 ^ 64" "0 < pushing x" "sem_running (psem x)"
  shows "unat (sem_count (psem x) + 1) = unat (sem_count (psem x)) + 1"
proof -
  have "unat (sem_count (psem x)) + 1 \<le> length (tasks x)" using assms(1,3,4) by (simp add: count_inv_def)
  also have "\<dots> \<le> length (assigned x)" using assms(1) by (simp add: count_inv_def)
  finally show ?thesis using assms(2) by (intro unat_inc) linarith
qed

lemma pushing_notify: "t < nworkers x \<Longrightarrow> workers x t = W_Notify \<Longrightarrow> 0 < pushing x"
  using card_points_eq_0 [of "nworkers x" "workers x" "{W_Notify}"] by (fastforce simp: pushing_def numw_def)

lemma count_keep:
  assumes "count_inv x" "workers y = workers x" "nworkers y = nworkers x" "assigned y = taken y @ tasks y"
    "waiting y = waiting x" "taken y = taken x" "finished y = finished x"
    "sem_running (psem y) \<Longrightarrow> sem_running (psem x) \<and>
      unat (sem_count (psem y)) + (if owner y = O_Notify then 1 else 0) + length (tasks x) =
      unat (sem_count (psem x)) + (if owner x = O_Notify then 1 else 0) + length (tasks y)"
  shows "count_inv y"
proof -
  have n: "numw L y = numw L x" for L using assms(2,3) by (rule numw_cong [rotated])
  have "unat (sem_count (psem y)) + numw {W_Granted, W_Pop} y + pushing y = length (tasks y)"
    if r: "sem_running (psem y)"
  proof -
    have "unat (sem_count (psem x)) + numw {W_Granted, W_Pop} x + pushing x = length (tasks x)"
      using assms(1,8) r unfolding count_inv_def by blast
    then show ?thesis using conjunct2 [OF assms(8) [OF r]] unfolding pushing_def n by linarith
  qed
  then show ?thesis using assms(1,4-7) by (simp add: count_inv_def n)
qed

lemma count_step:
  "pool_step x y \<Longrightarrow> count_inv x \<Longrightarrow> phase_inv x \<Longrightarrow> length (assigned x) < 2 ^ 64 \<Longrightarrow> count_inv y"
proof (induction rule: pool_step.induct)
  case (Spawn x)
  have w: "workers x (nworkers x) = W_Exit" using Spawn by (auto simp: phase_inv_def)
  have "numw L (spawn x) = numw L x" if "W_Begin \<notin> L" for L using that by (rule numw_spawn)
  then show ?case using Spawn by (simp add: count_inv_def pushing_def) (simp add: spawn_def)
next
  case (Wait t x)
  have w: "workers x t = W_Wait" "t < nworkers x" using Wait phase_below [of x t] by (auto simp: can_check_def)
  show ?case
  proof (cases rule: obey_wait_cases [where x = x and t = t])
    case granted
    then have "unat (sem_count (psem x) - 1) + 1 = unat (sem_count (psem x))"
      by (simp add: unat_dec Suc_leI unat_gt_0 word_gt_0 unat_eq_0)
    then show ?thesis using granted w Wait.prems(1)
      by (intro count_move [OF Wait.prems(1) w(2), of _ W_Granted]) (simp_all add: count_inv_def)
  next
    case exit
    then show ?thesis using w Wait.prems(1)
      by (intro count_move [OF Wait.prems(1) w(2), of _ W_Exit]) (simp_all add: count_inv_def)
  next
    case block
    then show ?thesis using Wait.prems(1)
      by (intro count_keep [OF Wait.prems(1)]) (simp_all add: count_inv_def)
  qed
next
  case (Enter x t)
  then show ?case using phase_below [of x t]
    by (intro count_move [OF Enter.prems(1), of t _ W_Wait]) (simp_all add: obey_enter_def count_inv_def)
next
  case (Leave x t)
  then show ?case using phase_below [of x t]
    by (intro count_move [OF Leave.prems(1), of t _ W_Pop]) (simp_all add: obey_leave_def count_inv_def)
next
  case (Pop x t y)
  then obtain a as where "tasks x = a # as" "y = wgoto t W_Run (x\<lparr>tasks := as, taken := taken x @ [a]\<rparr>)"
    by (auto simp: obey_pop_def split: list.splits)
  then show ?case using Pop phase_below [of x t]
    by (intro count_move [OF Pop.prems(1), of t _ W_Run]) (simp_all add: count_inv_def)
next
  case (Task_Assign x t a)
  then show ?case using phase_below [of x t]
    by (intro count_move [OF Task_Assign.prems(1), of t _ W_Notify]) (simp_all add: assign_push_def count_inv_def)
next
  case (Task_Occupy x t a y b)
  then show ?case using phase_below [of x t]
    by (cases b) (auto simp: assign_push_def occupy_push_def split: if_splits,
      (intro count_move [OF Task_Occupy.prems(1), of t _ W_Notify]; simp add: count_inv_def))
next
  case (Task_Return x t)
  then show ?case using phase_below [of x t]
    by (intro count_move [OF Task_Return.prems(1), of t _ W_Begin]) (simp_all add: count_inv_def)
next
  case (Task_Notify x t w)
  have t: "t < nworkers x" using Task_Notify phase_below [of x t] by simp
  have "sem_running (psem x) \<Longrightarrow> unat (sem_count (psem x) + 1) = unat (sem_count (psem x)) + 1"
    using notify_room [OF Task_Notify.prems(1,3) pushing_notify [OF t Task_Notify.hyps(1)]] .
  then show ?case using Task_Notify t
    by (intro count_move [OF Task_Notify.prems(1) t, of _ W_Run]) (simp_all add: assign_notify_def count_inv_def)
next
  case (Owner_Notify x w)
  have "0 < pushing x" using Owner_Notify by (simp add: pushing_def)
  then have "sem_running (psem x) \<Longrightarrow> unat (sem_count (psem x) + 1) = unat (sem_count (psem x)) + 1"
    using notify_room Owner_Notify.prems by blast
  then show ?case using Owner_Notify
    by (intro count_keep [OF Owner_Notify.prems(1)]) (simp_all add: assign_notify_def count_inv_def)
next
  case (Owner_Occupy x a y b)
  then show ?case
    by (cases b) (auto simp: assign_push_def occupy_push_def split: if_splits,
      (intro count_keep [OF Owner_Occupy.prems(1)]; simp add: count_inv_def))
next
  case (Owner_Assign x a)
  then show ?case
    by (intro count_keep [OF Owner_Assign.prems(1)]) (simp_all add: assign_push_def count_inv_def)
next
  case (Test_Waiting x)
  then show ?case
    by (intro count_keep [OF Test_Waiting.prems(1)])
      (auto simp: cleanup_test_waiting_def count_inv_def split: if_splits)
next
  case (Test_Tasks x)
  then show ?case
    by (intro count_keep [OF Test_Tasks.prems(1)]) (simp_all add: cleanup_test_tasks_def count_inv_def)
next
  case (Teardown x)
  then show ?case
    by (intro count_keep [OF Teardown.prems(1)]) (simp_all add: cleanup_teardown_def count_inv_def)
next
  case (Cleanup x)
  then show ?case by (intro count_keep [OF Cleanup.prems(1)]) (simp_all add: count_inv_def)
next
  case (Spurious t x)
  then show ?case by (intro count_keep [OF Spurious.prems(1)]) (simp_all add: count_inv_def)
next
  case (Join x)
  then show ?case by (intro count_keep [OF Join.prems(1)]) (simp_all add: count_inv_def)
qed

lemma pool_step_inv: "pool_inv x \<Longrightarrow> pool_step x y \<Longrightarrow> pool_inv y"
  using assigned_grows [of x y] lock_step [of x y] count_step [of x y] phase_step [of x y] waiters_step [of x y]
  by (simp add: pool_inv_def)

interpretation pools: invariant_system "\<lambda>x. x = new_pool" pool_step pool_inv
  by unfold_locales (auto intro: pool_inv_start pool_step_inv)

lemma pool_reachable_inv:
  assumes "pool_step\<^sup>*\<^sup>* new_pool x" "length (assigned x) < 2 ^ 64"
  shows "lock_inv x" "count_inv x" "phase_inv x" "waiters_inv x"
  using pools.inv_reachable [OF refl assms(1)] assms(2) by (simp_all add: pool_inv_def)

text \<open>What the end of the loop of \<open>cleanup()\<close> and the teardown leave.\<close>

lemma all_finished:
  assumes "count_inv x" "phase_inv x" "owner x \<in> {O_Teardown, O_Join, O_Done}"
  shows "tasks x = [] \<and> taken x = assigned x \<and> finished x = length (assigned x)"
proof -
  have t: "tasks x = []" by (rule phase_tasks [OF assms(2,3)])
  have "workers x t \<in> {W_Wait, W_Exit}" if "t < nworkers x" for t
    using assms(2,3) that by (auto simp: phase_inv_alt allowed_def)
  then have "numw {W_Run, W_Notify} x = 0" by (fastforce simp: numw_def card_points_eq_0)
  then show ?thesis using t assms(1) by (auto simp: count_inv_def)
qed

lemma join_step:
  assumes "phase_inv x" "waiters_inv x" "owner x = O_Join"
  shows "(\<exists>y. pool_step x y) \<and> (\<forall>y. pool_step x y \<longrightarrow> assigned y = assigned x \<and>
    (owner y = O_Done \<or> owner y = O_Join \<and> numw {W_Wait} y < numw {W_Wait} x))"
proof -
  have stop: "\<not> sem_running (psem x)" using assms(1) assms(3) by (simp add: phase_inv_alt)
  then have noone: "asleep (psem x) = {}" using assms(2) by (auto simp: waiters_inv_def sem_inv_def)
  have ws: "workers x t \<in> {W_Wait, W_Exit}" for t
    using assms(1) assms(3) phase_at [OF assms(1), of t] by (cases "workers x t = W_Exit") (auto simp: allowed_def)
  have no: "workers x t \<noteq> W_Begin" "workers x t \<noteq> W_Granted" "workers x t \<noteq> W_Pop" "workers x t \<noteq> W_Run"
    "workers x t \<noteq> W_Notify" for t using ws [of t] by auto
  have "\<exists>y. pool_step x y"
  proof (cases "\<forall>t. workers x t = W_Exit")
    case True
    then show ?thesis using Join assms(3) by blast
  next
    case False
    then obtain t where "workers x t = W_Wait" using ws by blast
    then show ?thesis using Wait noone by (fastforce simp: can_check_def)
  qed
  moreover have "assigned y = assigned x \<and> (owner y = O_Done \<or> owner y = O_Join \<and> numw {W_Wait} y < numw {W_Wait} x)"
    if "pool_step x y" for y
    using that
  proof cases
    case (Wait t)
    have w: "workers x t = W_Wait" "t < nworkers x"
      using Wait phase_below [OF assms(1), of t] by (auto simp: can_check_def)
    show ?thesis
    proof (cases rule: obey_wait_cases [where x = x and t = t])
      case exit
      then have "numw {W_Wait} y + 1 = numw {W_Wait} x"
        using numw_update [of t x "{W_Wait}" W_Exit] w Wait by (simp add: numw_def)
      then show ?thesis using exit Wait assms(3) by simp
    qed (use stop in auto)
  qed (use assms(3) no noone in auto)
  ultimately show ?thesis by blast
qed

text \<open>A pool with one worker, the task 7 assigned and the worker about to pop it; and the same after \<open>cleanup()\<close>.\<close>

definition demo_pool :: "worker \<Rightarrow> owner \<Rightarrow> nat list \<Rightarrow> nat pool" where
  "demo_pool w p q = \<lparr>psem = semaphore (if w = W_Begin then 1 else 0), tasks = q,
     waiting = (if w = W_Wait then 1 else 0), nworkers = 1, workers = (\<lambda>_. W_Exit)(0 := w), owner = p,
     holder = None, assigned = [7], taken = (if q = [] then [7] else []), finished = (if q = [] then 1 else 0)\<rparr>"

lemma demo_ready: "pool_step\<^sup>*\<^sup>* new_pool (demo_pool W_Pop O_Busy [7])"
proof -
  have "pool_step (new_pool :: nat pool) (spawn new_pool)" by (rule Spawn) (simp add: new_pool_def)
  moreover have "pool_step (spawn new_pool) (assign_push Owner (7 :: nat) (spawn new_pool)\<lparr>owner := O_Notify\<rparr>)"
    by (rule Owner_Assign) (simp_all add: new_pool_def spawn_def)
  moreover have "pool_step (assign_push Owner (7 :: nat) (spawn new_pool)\<lparr>owner := O_Notify\<rparr>)
      (assign_notify None (assign_push Owner (7 :: nat) (spawn new_pool)\<lparr>owner := O_Notify\<rparr>)\<lparr>owner := O_Busy\<rparr>)"
    by (rule Owner_Notify) (simp_all add: new_pool_def spawn_def assign_push_def wakes_def semaphore_def)
  moreover have "assign_notify None (assign_push Owner (7 :: nat) (spawn new_pool)\<lparr>owner := O_Notify\<rparr>)\<lparr>owner := O_Busy\<rparr>
      = demo_pool W_Begin O_Busy [7]"
    by (simp add: demo_pool_def new_pool_def spawn_def assign_push_def assign_notify_def sem_notify_def
        wake_one_def semaphore_def wgoto_def fun_eq_iff)
  moreover have "pool_step (demo_pool W_Begin O_Busy [7]) (obey_enter 0 (demo_pool W_Begin O_Busy [7]))"
    by (rule Enter) (simp add: demo_pool_def)
  moreover have "pool_step (obey_enter 0 (demo_pool W_Begin O_Busy [7]))
      (obey_wait 0 (obey_enter 0 (demo_pool W_Begin O_Busy [7])))"
    by (rule Wait) (simp add: demo_pool_def obey_enter_def can_check_def semaphore_def)
  moreover have "pool_step (obey_wait 0 (obey_enter 0 (demo_pool W_Begin O_Busy [7])))
      (obey_leave 0 (obey_wait 0 (obey_enter 0 (demo_pool W_Begin O_Busy [7]))))"
    by (rule Leave) (simp add: demo_pool_def obey_enter_def obey_wait_def wait_check_def may_pass_def
        semaphore_def wgoto_def)
  moreover have "obey_leave 0 (obey_wait 0 (obey_enter 0 (demo_pool W_Begin O_Busy [7]))) = demo_pool W_Pop O_Busy [7]"
    by (simp add: demo_pool_def obey_enter_def obey_wait_def obey_leave_def wait_check_def may_pass_def
        semaphore_def wgoto_def fun_eq_iff)
  ultimately show ?thesis by (auto intro: rtranclp.rtrancl_into_rtrancl)
qed

lemma demo_done: "pool_step\<^sup>*\<^sup>* new_pool (demo_pool W_Wait O_Teardown [])"
proof -
  let ?x = "demo_pool W_Pop O_Busy [7]"
  let ?y = "wgoto 0 W_Run (?x\<lparr>tasks := [], taken := [7]\<rparr>)"
  let ?z = "wgoto 0 W_Begin (?y\<lparr>finished := Suc (finished ?y)\<rparr>)"
  have "pool_step ?x ?y" by (rule Pop [where t = 0]) (simp_all add: demo_pool_def obey_pop_def)
  moreover have "pool_step ?y ?z" by (rule Task_Return) simp
  moreover have "pool_step ?z (obey_enter 0 ?z)" by (rule Enter) simp
  moreover have "obey_enter 0 ?z = demo_pool W_Wait O_Busy []"
    by (simp add: demo_pool_def obey_enter_def wgoto_def)
  moreover have "pool_step (demo_pool W_Wait O_Busy []) (demo_pool W_Wait O_Busy []\<lparr>owner := O_Cleanup\<rparr>)"
    by (rule Cleanup) (simp add: demo_pool_def)
  moreover have "demo_pool W_Wait O_Busy []\<lparr>owner := O_Cleanup\<rparr> = demo_pool W_Wait O_Cleanup []"
    by (simp add: demo_pool_def)
  moreover have "pool_step (demo_pool W_Wait O_Cleanup []) (cleanup_test_waiting (demo_pool W_Wait O_Cleanup []))"
    by (rule Test_Waiting) (simp_all add: demo_pool_def)
  moreover have "pool_step (cleanup_test_waiting (demo_pool W_Wait O_Cleanup []))
      (cleanup_test_tasks (cleanup_test_waiting (demo_pool W_Wait O_Cleanup [])))"
    by (rule Test_Tasks) (simp add: demo_pool_def cleanup_test_waiting_def)
  moreover have "cleanup_test_tasks (cleanup_test_waiting (demo_pool W_Wait O_Cleanup [])) = demo_pool W_Wait O_Teardown []"
    by (simp add: demo_pool_def cleanup_test_waiting_def cleanup_test_tasks_def)
  ultimately show ?thesis using demo_ready by (auto intro: rtranclp.rtrancl_into_rtrancl)
qed

section \<open>Idle workers\<close>

text \<open>A worker is idle when it is in its loop and not inside the task function.\<close>

definition idle_points :: "worker set" where
  "idle_points = {W_Begin, W_Wait, W_Granted, W_Pop}"

lemma wakes_exists: "\<exists>w. wakes w s"
proof (cases "asleep s = {}")
  case True
  then show ?thesis by (intro exI [of _ None]) (simp add: wakes_def)
next
  case False
  then obtain t where "t \<in> asleep s" by blast
  then show ?thesis by (intro exI [of _ "Some t"]) (simp add: wakes_def)
qed

lemma idle_worker_moves:
  assumes "pool_step\<^sup>*\<^sup>* new_pool x" "length (assigned x) < 2 ^ 64"
    and task: "tasks x \<noteq> []" and idle: "workers x u \<in> idle_points" and free: "holder x = None"
  shows "\<exists>t y. workers x t \<in> idle_points \<and> pool_step x y \<and> workers y t \<noteq> workers x t"
proof (cases "workers x u = W_Wait \<and> (\<forall>t. workers x t \<notin> {W_Begin, W_Granted, W_Pop})")
  case True
  note inv = pool_reachable_inv [OF assms(1,2)]
  have run: "sem_running (psem x)" using phase_tasks [OF inv(3)] task inv(3) by (auto simp: phase_inv_alt)
  have "pushing x = 0"
    using inv(1) free by (auto simp: pushing_def numw_def card_points_eq_0 lock_inv_def)
  moreover have "numw {W_Granted, W_Pop} x = 0" using True by (auto simp: numw_def card_points_eq_0)
  ultimately have "unat (sem_count (psem x)) = length (tasks x)" using inv(2) run by (simp add: count_inv_def)
  then have c: "unat (sem_count (psem x)) \<noteq> 0" using task by simp
  have "\<exists>t. can_check t x"
  proof (cases "asleep (psem x) = {}")
    case True
    then show ?thesis using \<open>workers x u = W_Wait \<and> _\<close> by (auto simp: can_check_def)
  next
    case False
    then have "unat (sem_count (psem x)) \<le> card (awake (psem x))" "asleep (psem x) \<inter> awake (psem x) = {}"
      using inv(4) by (auto simp: waiters_inv_def sem_inv_def)
    moreover from this have "awake (psem x) \<noteq> {}" using c by auto
    ultimately obtain t where "t \<in> awake (psem x)" "t \<notin> asleep (psem x)" by blast
    then show ?thesis using inv(4) by (auto simp: can_check_def waiters_inv_def)
  qed
  then obtain t where t: "can_check t x" by blast
  have "workers (obey_wait t x) t = W_Granted"
    by (cases rule: obey_wait_cases [where x = x and t = t]) (use run c in auto)
  then show ?thesis using Wait [OF t] t by (fastforce simp: can_check_def idle_points_def)
next
  case False
  then obtain t where t: "workers x t \<in> {W_Begin, W_Granted, W_Pop}" using idle by (auto simp: idle_points_def)
  then consider "workers x t = W_Begin" | "workers x t = W_Granted" | "workers x t = W_Pop" by blast
  then show ?thesis
  proof cases
    case 1
    then show ?thesis using Enter [OF 1] by (fastforce simp: obey_enter_def idle_points_def)
  next
    case 2
    then show ?thesis using Leave [OF 2] by (fastforce simp: obey_leave_def idle_points_def)
  next
    case 3
    obtain a as where "tasks x = a # as" using task by (cases "tasks x") auto
    then have "obey_pop t x = Inr (wgoto t W_Run (x\<lparr>tasks := as, taken := taken x @ [a]\<rparr>))"
      by (simp add: obey_pop_def)
    from Pop [OF 3 free this] show ?thesis using 3 by (fastforce simp: idle_points_def)
  qed
qed

text \<open>Who holds the lock frees it in its next step, which touches no idle worker.\<close>

lemma holder_frees:
  assumes "pool_step\<^sup>*\<^sup>* new_pool x" "length (assigned x) < 2 ^ 64"
    and task: "tasks x \<noteq> []" and idle: "workers x u \<in> idle_points" and held: "holder x \<noteq> None"
  shows "\<exists>y. pool_step x y \<and> holder y = None \<and> tasks y = tasks x \<and> assigned y = assigned x \<and> workers y u = workers x u"
proof -
  note inv = pool_reachable_inv(1) [OF assms(1,2)]
  obtain w where w: "wakes w (psem x)" using wakes_exists by blast
  obtain p where p: "holder x = Some p" using held by blast
  show ?thesis
  proof (cases p)
    case Owner
    then have "owner x = O_Notify \<or> owner x = O_Check" using inv p by (auto simp: lock_inv_def)
    then show ?thesis
    proof
      assume "owner x = O_Notify"
      from Owner_Notify [OF this w] show ?thesis
        by (intro exI [of _ "assign_notify w x\<lparr>owner := O_Busy\<rparr>"]) (simp add: assign_notify_def)
    next
      assume "owner x = O_Check"
      from Test_Tasks [OF this] show ?thesis
        by (intro exI [of _ "cleanup_test_tasks x"]) (simp add: cleanup_test_tasks_def)
    qed
  next
    case (Worker t)
    then have t: "workers x t = W_Notify" using inv p by (auto simp: lock_inv_def)
    then have "u \<noteq> t" using idle by (auto simp: idle_points_def)
    then show ?thesis using Task_Notify [OF t w]
      by (intro exI [of _ "wgoto t W_Run (assign_notify w x)"]) (simp add: assign_notify_def)
  qed
qed

section \<open>Properties\<close>

text \<open>
  C4: Every assigned task is taken exactly once and in the order of assignment, and a worker
  never pops an empty queue. In every reachable state (with fewer than \<open>2 ^ 64\<close> tasks
  assigned so far) the tasks assigned are those taken followed by those queued, and a worker
  at the pop finds a task there.
\<close>

theorem pool_fifo:
  assumes "pool_step\<^sup>*\<^sup>* new_pool x" "length (assigned x) < 2 ^ 64"
  shows "assigned x = taken x @ tasks x \<and> (\<forall>t. workers x t = W_Pop \<longrightarrow> (\<exists>y. obey_pop t x = Inr y))"
proof -
  note inv = pool_reachable_inv [OF assms]
  have "tasks x \<noteq> []" if w: "workers x t = W_Pop" for t
  proof
    assume "tasks x = []"
    moreover have "t < nworkers x" using phase_below [OF inv(3)] w by simp
    moreover have "sem_running (psem x)"
      using phase_at [OF inv(3), of t] inv(3) w by (auto simp: phase_inv_alt allowed_def)
    ultimately show False using count_no_permit(2) [OF inv(2)] w by blast
  qed
  then have "\<exists>y. obey_pop t x = Inr y" if "workers x t = W_Pop" for t
    using that by (cases "tasks x") (auto simp: obey_pop_def)
  then show ?thesis using inv(2) by (auto simp: count_inv_def)
qed

text \<open>
  C5: \<open>cleanup()\<close> waits for all the work. When its loop has ended (and ever after) the queue
  is empty, every task that was ever assigned has been taken, and every call of the task
  function has returned; at the end of \<open>cleanup()\<close> every worker has left its loop.
\<close>

theorem pool_cleanup_complete:
  assumes "pool_step\<^sup>*\<^sup>* new_pool x" "length (assigned x) < 2 ^ 64"
    and "owner x \<in> {O_Teardown, O_Join, O_Done}"
  shows "tasks x = [] \<and> taken x = assigned x \<and> finished x = length (assigned x) \<and>
    (owner x = O_Done \<longrightarrow> (\<forall>t. workers x t = W_Exit))"
proof -
  note inv = pool_reachable_inv [OF assms(1,2)]
  have "workers x t = W_Exit" if "owner x = O_Done" for t
    using inv(3) that by (cases "t < nworkers x") (auto simp: phase_inv_alt allowed_def)
  then show ?thesis using all_finished [OF inv(2,3) assms(3)] by blast
qed

text \<open>
  C15: No task is stranded. When a task is queued and some worker is not inside the task function, it is not the case that
  all idle workers sleep for good. While the lock is free one of them can move on at once. While it is held (between a push and its
  \<open>notify()\<close> they may all sleep) the holder can take the step that frees the lock, the task is still queued, and then one of them can move on.
\<close>

theorem pool_no_stranded_task:
  assumes "pool_step\<^sup>*\<^sup>* new_pool x" "length (assigned x) < 2 ^ 64"
    and task: "tasks x \<noteq> []" and idle: "workers x u \<in> idle_points"
  shows "(holder x = None \<longrightarrow> (\<exists>t y. workers x t \<in> idle_points \<and> pool_step x y \<and> workers y t \<noteq> workers x t)) \<and>
    (holder x \<noteq> None \<longrightarrow> (\<exists>y t z. pool_step x y \<and> holder y = None \<and> tasks y = tasks x \<and>
       workers y t \<in> idle_points \<and> pool_step y z \<and> workers z t \<noteq> workers y t))"
proof (intro conjI impI)
  assume "holder x = None"
  then show "\<exists>t y. workers x t \<in> idle_points \<and> pool_step x y \<and> workers y t \<noteq> workers x t"
    by (rule idle_worker_moves [OF assms])
next
  assume "holder x \<noteq> None"
  then obtain y where y: "pool_step x y" "holder y = None" "tasks y = tasks x" "assigned y = assigned x" "workers y u = workers x u"
    using holder_frees [OF assms] by blast
  have r: "pool_step\<^sup>*\<^sup>* new_pool y" using assms(1) y(1) by (rule rtranclp.rtrancl_into_rtrancl)
  have "\<exists>t z. workers y t \<in> idle_points \<and> pool_step y z \<and> workers z t \<noteq> workers y t"
    by (rule idle_worker_moves [where u = u, OF r _ _ _ y(2)]) (use assms y in simp_all)
  then show "\<exists>y t z. pool_step x y \<and> holder y = None \<and> tasks y = tasks x \<and>
       workers y t \<in> idle_points \<and> pool_step y z \<and> workers z t \<noteq> workers y t" using y by blast
qed

lemma pool_fifo_witness:
  "\<exists>x. pool_step\<^sup>*\<^sup>* new_pool x \<and> workers x 0 = W_Pop \<and> (\<exists>y. obey_pop 0 x = Inr y \<and> taken y = [7 :: nat])"
proof -
  have "length (assigned (demo_pool W_Pop O_Busy [7])) < 2 ^ 64" by (simp add: demo_pool_def)
  from pool_fifo [OF demo_ready this] have "\<exists>y. obey_pop 0 (demo_pool W_Pop O_Busy [7]) = Inr y"
    by (simp add: demo_pool_def)
  then show ?thesis using demo_ready
    by (intro exI [of _ "demo_pool W_Pop O_Busy [7]"]) (auto simp: obey_pop_def demo_pool_def)
qed

lemma pool_cleanup_complete_witness:
  "\<exists>x. pool_step\<^sup>*\<^sup>* new_pool x \<and> assigned x = [7 :: nat] \<and> owner x = O_Teardown \<and> finished x = 1"
proof -
  have "length (assigned (demo_pool W_Wait O_Teardown [])) < 2 ^ 64"
    "owner (demo_pool W_Wait O_Teardown []) \<in> {O_Teardown, O_Join, O_Done}" by (simp_all add: demo_pool_def)
  from pool_cleanup_complete [OF demo_done this] show ?thesis using demo_done
    by (intro exI [of _ "demo_pool W_Wait O_Teardown []"]) (simp add: demo_pool_def)
qed

lemma pool_no_stranded_task_witness:
  "\<exists>x y. pool_step\<^sup>*\<^sup>* new_pool x \<and> tasks x = [7 :: nat] \<and> pool_step x y \<and> workers y 0 \<noteq> workers x 0"
proof -
  let ?x = "demo_pool W_Pop O_Busy [7]"
  have x: "length (assigned ?x) < 2 ^ 64" "tasks ?x \<noteq> []" "holder ?x = None"
    "workers ?x 0 \<in> idle_points" by (simp_all add: demo_pool_def idle_points_def)
  from pool_no_stranded_task [OF demo_ready x(1,2,4), THEN conjunct1] x(3) obtain t y where
    "workers ?x t \<in> idle_points" "pool_step ?x y" "workers y t \<noteq> workers ?x t" by blast
  moreover from this(1) have "t = 0" by (simp add: demo_pool_def idle_points_def split: if_splits)
  ultimately have "pool_step ?x y \<and> workers y 0 \<noteq> workers ?x 0" by simp
  moreover have "tasks ?x = [7]" by (simp add: demo_pool_def)
  ultimately show ?thesis using demo_ready by blast
qed

text \<open>A run in which every task is admitted by \<open>occupy()\<close>: no push happens while the pool is occupied.\<close>

definition occupy_step :: "'a pool \<Rightarrow> 'a pool \<Rightarrow> bool" where
  "occupy_step x y \<longleftrightarrow> pool_step x y \<and> (length (assigned x) < length (assigned y) \<longrightarrow> \<not> occupied x)"

lemma step_lengths:
  "pool_step x y \<Longrightarrow> nworkers x \<le> nworkers y \<and> (length (tasks y) \<le> length (tasks x) \<or>
    length (tasks y) = Suc (length (tasks x)) \<and> length (assigned x) < length (assigned y))"
  by (induction rule: pool_step.induct)
    (auto simp: pool_ops spawn_def obey_wait_def
      split: if_splits option.splits prod.splits list.splits bool.splits)

text \<open>
  \<open>occupy()\<close> bounds the queue. It pushes its task, keeping the lock, exactly when the pool
  is not \<open>occupied()\<close>, and otherwise changes nothing; so in every run whose tasks all come in
  through it the queue never holds more than one task more than there are workers.
\<close>

theorem pool_occupy_bound:
  assumes "occupy_step\<^sup>*\<^sup>* new_pool x"
  shows "length (tasks x) \<le> nworkers x + 1 \<and>
    occupy_push p a x = (if occupied x then (x, False) else (assign_push p a x, True))"
proof -
  from assms have "length (tasks x) \<le> nworkers x + 1"
  proof (induction rule: rtranclp_induct)
    case (step y z)
    then show ?case using step_lengths [of y z] by (auto simp: occupy_step_def occupied_def)
  qed (simp add: new_pool_def)
  then show ?thesis by (simp add: occupy_push_def occupied_def not_less)
qed

lemma pool_occupy_bound_witness:
  "\<exists>x y :: nat pool. occupy_step\<^sup>*\<^sup>* new_pool x \<and> occupy_push Owner 5 x = (y, True)"
proof -
  have "occupy_step (new_pool :: nat pool) (spawn new_pool)"
    by (simp add: occupy_step_def Spawn new_pool_def) (simp add: spawn_def)
  then have "occupy_step\<^sup>*\<^sup>* (new_pool :: nat pool) (spawn new_pool)" by simp
  moreover have "\<not> occupied (spawn (new_pool :: nat pool))" by (simp add: occupied_def spawn_def new_pool_def)
  moreover from calculation have "occupy_push Owner (5 :: nat) (spawn new_pool) = (assign_push Owner 5 (spawn new_pool), True)"
    using pool_occupy_bound [of "spawn new_pool" Owner "5 :: nat"] by simp
  ultimately show ?thesis by blast
qed

text \<open>
  \<open>cleanup()\<close> returns. Once it has torn the semaphore down, a step can always be taken, and
  each step either lets one more worker out of its wait (there are finitely many) or is the
  end of the joins.
\<close>

theorem pool_cleanup_returns:
  assumes "pool_step\<^sup>*\<^sup>* new_pool x" "length (assigned x) < 2 ^ 64" "owner x = O_Join"
  shows "(\<exists>y. pool_step x y) \<and> (\<forall>y. pool_step x y \<longrightarrow>
    owner y = O_Done \<or> owner y = O_Join \<and> numw {W_Wait} y < numw {W_Wait} x)"
  using join_step [OF pool_reachable_inv(3,4) [OF assms(1,2)] assms(3)] by blast

lemma pool_cleanup_returns_witness:
  "\<exists>x y. pool_step\<^sup>*\<^sup>* new_pool x \<and> assigned x = [7 :: nat] \<and> owner x = O_Join \<and> pool_step x y"
proof -
  let ?x = "cleanup_teardown (demo_pool W_Wait O_Teardown [])"
  have r: "pool_step\<^sup>*\<^sup>* new_pool ?x"
    using demo_done by (rule rtranclp.rtrancl_into_rtrancl) (rule Teardown, simp add: demo_pool_def)
  have x: "length (assigned ?x) < 2 ^ 64" "owner ?x = O_Join" "assigned ?x = [7]"
    by (simp_all add: cleanup_teardown_def demo_pool_def)
  from pool_cleanup_returns [OF r x(1,2)] obtain y where "pool_step ?x y" by blast
  then show ?thesis using r x by blast
qed

end
