(* ===== verification/Pool_Drain.thy ===== *)
theory Pool_Drain
  imports Task_Master
begin

text \<open>
  \<open>cleanup()\<close> of the thread pool (\<^verbatim>\<open>src/taskmaster.h\<close>) from its beginning to its end, over the steps of
  \<open>Task_Master\<close>: while the task functions that still run submit no more tasks, the work of the pool is bounded,
  and when it is done the test of \<open>cleanup()\<close> succeeds. \<open>effort\<close> counts the steps that are left.
\<close>

section \<open>The steps left\<close>

fun stage :: "worker \<Rightarrow> nat" where
  "stage W_Exit = 0"
| "stage W_Wait = 1"
| "stage W_Begin = 2"
| "stage W_Run = 3"
| "stage W_Pop = 4"
| "stage W_Granted = 5"
| "stage W_Notify = 10"

definition cost :: "tid set \<Rightarrow> worker \<Rightarrow> tid \<Rightarrow> nat" where
  "cost S w t = (if w = W_Wait \<and> t \<in> S then 0 else stage w)"

text \<open>A permit stands for the round that a worker will make with it.\<close>

definition effort :: "'a pool \<Rightarrow> nat" where
  "effort x = (\<Sum>t < nworkers x. cost (asleep (psem x)) (workers x t) t) + 5 * unat (sem_count (psem x))"

lemma sum_change:
  fixes f g :: "nat \<Rightarrow> nat"
  assumes "t < n" "\<And>u. u \<noteq> t \<Longrightarrow> g u = f u"
  shows "(\<Sum>u < n. g u) + f t = (\<Sum>u < n. f u) + g t"
proof -
  have "(\<Sum>u < n. g u) = g t + (\<Sum>u \<in> {..<n} - {t}. g u)" "(\<Sum>u < n. f u) = f t + (\<Sum>u \<in> {..<n} - {t}. f u)"
    using assms(1) by (intro sum.remove; simp)+
  moreover have "(\<Sum>u \<in> {..<n} - {t}. g u) = (\<Sum>u \<in> {..<n} - {t}. f u)" using assms(2) by (intro sum.cong) auto
  ultimately show ?thesis by simp
qed

text \<open>One worker moves, and nobody else falls asleep or wakes up.\<close>

lemma effort_move:
  assumes "t < nworkers x" "nworkers y = nworkers x" "workers y = (workers x)(t := l)"
    and "\<And>u. u \<noteq> t \<Longrightarrow> u \<in> asleep (psem y) \<longleftrightarrow> u \<in> asleep (psem x)"
  shows "effort y + cost (asleep (psem x)) (workers x t) t + 5 * unat (sem_count (psem x)) =
    effort x + cost (asleep (psem y)) l t + 5 * unat (sem_count (psem y))"
proof -
  have "(\<Sum>u < nworkers x. cost (asleep (psem y)) (workers y u) u) + cost (asleep (psem x)) (workers x t) t =
      (\<Sum>u < nworkers x. cost (asleep (psem x)) (workers x u) u) + cost (asleep (psem y)) (workers y t) t"
    using assms(1,3,4) by (intro sum_change) (auto simp: cost_def)
  then show ?thesis using assms(2,3) by (simp add: effort_def)
qed

lemma effort_notify:
  assumes "wakes w (psem x)" "waiters_inv x" "phase_inv x"
  shows "effort (x\<lparr>psem := sem_notify w (psem x)\<rparr>) \<le> effort x + 6"
proof -
  have five: "5 * unat (sem_count (psem x) + 1) \<le> 5 + 5 * unat (sem_count (psem x))"
    using unat_inc_le [of "sem_count (psem x)"] by simp
  show ?thesis
  proof (cases w)
    case None
    then show ?thesis using five by (simp add: effort_def sem_notify_def wake_one_def)
  next
    case (Some u)
    then have "u \<in> asleep (psem x)" using assms(1) by (simp add: wakes_def)
    then have "workers x u = W_Wait" using assms(2) by (simp add: waiters_inv_def)
    then have "u < nworkers x" using phase_below [OF assms(3), of u] by simp
    then have "(\<Sum>v < nworkers x. cost (asleep (psem x) - {u}) (workers x v) v) + cost (asleep (psem x)) (workers x u) u =
        (\<Sum>v < nworkers x. cost (asleep (psem x)) (workers x v) v) + cost (asleep (psem x) - {u}) (workers x u) u"
      by (intro sum_change) (auto simp: cost_def)
    then show ?thesis using five Some \<open>workers x u = W_Wait\<close>
      by (simp add: effort_def sem_notify_def wake_one_def cost_def)
  qed
qed

section \<open>Each step of the work lowers the effort\<close>

definition good :: "'a pool \<Rightarrow> bool" where
  "good x \<longleftrightarrow> lock_inv x \<and> count_inv x \<and> phase_inv x \<and> waiters_inv x \<and> length (assigned x) < 2 ^ 64"

lemma good_reachable: "pool_step\<^sup>*\<^sup>* new_pool x \<Longrightarrow> length (assigned x) < 2 ^ 64 \<Longrightarrow> good x"
  using pool_reachable_inv [of x] by (simp add: good_def)

lemma good_step: "good x \<Longrightarrow> pool_step x y \<Longrightarrow> assigned y = assigned x \<Longrightarrow> good y"
  using pool_step_inv [of x y] by (simp add: good_def pool_inv_def)

lemma good_below: "good x \<Longrightarrow> workers x t \<noteq> W_Exit \<Longrightarrow> t < nworkers x"
  by (rule phase_below) (simp add: good_def)

lemma good_asleep: "good x \<Longrightarrow> t \<in> asleep (psem x) \<Longrightarrow> workers x t = W_Wait"
  by (simp add: good_def waiters_inv_def)

lemma good_running: "good x \<Longrightarrow> owner x \<in> {O_Cleanup, O_Check} \<Longrightarrow> sem_running (psem x)"
  by (auto simp: good_def phase_inv_alt)

lemma effort_enter:
  assumes "good x" "workers x t = W_Begin"
  shows "effort (obey_enter t x) < effort x"
proof -
  have "t \<notin> asleep (psem x)" using good_asleep [OF assms(1), of t] assms(2) by auto
  then show ?thesis using effort_move [of t x "obey_enter t x" W_Wait] good_below [OF assms(1), of t] assms(2)
    by (simp add: obey_enter_def cost_def)
qed

lemma effort_wait:
  assumes "good x" "can_check t x" "sem_running (psem x)"
  shows "effort (obey_wait t x) < effort x"
proof -
  have t: "workers x t = W_Wait" "t \<notin> asleep (psem x)" "t < nworkers x"
    using assms(2) good_below [OF assms(1), of t] by (simp_all add: can_check_def)
  show ?thesis
  proof (cases rule: obey_wait_cases [where x = x and t = t])
    case granted
    then have "unat (sem_count (psem x) - 1) + 1 = unat (sem_count (psem x))"
      by (simp add: unat_dec Suc_leI unat_gt_0 word_gt_0 unat_eq_0)
    then show ?thesis using effort_move [of t x "obey_wait t x" W_Granted] granted t by (simp add: cost_def)
  next
    case block
    have "workers x = (workers x)(t := W_Wait)" using t(1) by auto
    then show ?thesis using effort_move [of t x "obey_wait t x" W_Wait] block t by (simp add: cost_def)
  qed (use assms(3) in simp)
qed

lemma effort_plain:
  assumes "good x" "workers x t \<noteq> W_Exit" "workers x t \<noteq> W_Wait" "workers y = (workers x)(t := l)" "nworkers y = nworkers x"
    "psem y = psem x" "l \<noteq> W_Wait" "stage l < stage (workers x t)"
  shows "effort y < effort x"
  using effort_move [of t x y l] good_below [OF assms(1,2)] assms by (simp add: cost_def)

lemma effort_task_notify:
  assumes "good x" "workers x t = W_Notify" "wakes w (psem x)"
  shows "effort (wgoto t W_Run (assign_notify w x)) < effort x"
proof -
  let ?z = "x\<lparr>psem := sem_notify w (psem x)\<rparr>"
  have "t \<notin> asleep (psem x)" using good_asleep [OF assms(1), of t] assms(2) by auto
  then have "effort (wgoto t W_Run (assign_notify w x)) + 10 = effort ?z + 3"
    using effort_move [of t ?z "wgoto t W_Run (assign_notify w x)" W_Run] good_below [OF assms(1), of t] assms(2)
    by (simp add: assign_notify_def cost_def)
  moreover have "effort ?z \<le> effort x + 6" using effort_notify assms by (auto simp: good_def)
  ultimately show ?thesis by simp
qed

lemma effort_cleanup:
  assumes x: "good x" "owner x \<in> {O_Cleanup, O_Check}" and step: "pool_step x y" "assigned y = assigned x"
  shows "effort y < effort x \<or> workers y = workers x \<and> tasks y = tasks x \<and>
    (psem y = psem x \<or> (\<exists>t \<in> asleep (psem x). psem y = wake_one (Some t) (psem x)))"
  using step(1)
proof cases
  case (Enter t)
  then show ?thesis using effort_enter [OF x(1)] by simp
next
  case (Wait t)
  then show ?thesis using effort_wait [OF x(1)] good_running [OF x] by simp
next
  case (Leave t)
  then show ?thesis by (intro disjI1 effort_plain [OF x(1), of t _ W_Pop]) (simp_all add: obey_leave_def)
next
  case (Pop t)
  then show ?thesis
    by (intro disjI1 effort_plain [OF x(1), of t _ W_Run]) (auto simp: obey_pop_def split: list.splits)
next
  case (Task_Notify t w)
  then show ?thesis using effort_task_notify [OF x(1)] by simp
next
  case (Task_Return t)
  then show ?thesis by (intro disjI1 effort_plain [OF x(1), of t _ W_Begin]) simp_all
next
  case (Task_Assign t a)
  then show ?thesis using step(2) by (simp add: assign_push_def)
next
  case (Task_Occupy t a z b)
  then show ?thesis using step(2) by (auto simp: occupy_push_def assign_push_def split: if_splits)
qed (use x(2) in \<open>auto simp: cleanup_test_waiting_def cleanup_test_tasks_def\<close>)

section \<open>When nothing is left to do\<close>

lemma cleanup_lower:
  assumes x: "good x" "owner x = O_Cleanup" and t: "workers x t \<noteq> W_Exit" "\<not> (workers x t = W_Wait \<and> t \<in> asleep (psem x))"
    and free: "holder x = None \<or> workers x t = W_Notify"
  shows "\<exists>y. pool_step x y \<and> assigned y = assigned x \<and> owner y = O_Cleanup \<and> effort y < effort x"
proof (cases "workers x t")
  case W_Begin
  then show ?thesis using Enter effort_enter [OF x(1)] x(2) by (intro exI [of _ "obey_enter t x"]) (simp add: obey_enter_def)
next
  case W_Wait
  then have c: "can_check t x" using t(2) by (simp add: can_check_def)
  have r: "sem_running (psem x)" using good_running x by blast
  have "assigned (obey_wait t x) = assigned x \<and> owner (obey_wait t x) = owner x"
    by (cases rule: obey_wait_cases [where x = x and t = t]) simp_all
  then show ?thesis using Wait [OF c] effort_wait [OF x(1) c r] x(2) by auto
next
  case W_Granted
  then have "effort (obey_leave t x) < effort x"
    by (intro effort_plain [OF x(1), of t _ W_Pop]) (simp_all add: obey_leave_def)
  then show ?thesis using Leave [OF W_Granted] x(2) by (intro exI [of _ "obey_leave t x"]) (simp add: obey_leave_def)
next
  case W_Pop
  have "tasks x \<noteq> []"
    using count_no_permit(2) [of x t] good_running [OF x(1)] x W_Pop good_below [OF x(1), of t] by (auto simp: good_def)
  then obtain a as where "tasks x = a # as" by (cases "tasks x") auto
  then have p: "obey_pop t x = Inr (wgoto t W_Run (x\<lparr>tasks := as, taken := taken x @ [a]\<rparr>))" by (simp add: obey_pop_def)
  moreover have "effort (wgoto t W_Run (x\<lparr>tasks := as, taken := taken x @ [a]\<rparr>)) < effort x"
    using W_Pop by (intro effort_plain [OF x(1), of t _ W_Run]) simp_all
  ultimately show ?thesis using Pop [OF W_Pop _ p] free W_Pop x(2) by auto
next
  case W_Run
  let ?y = "wgoto t W_Begin (x\<lparr>finished := Suc (finished x)\<rparr>)"
  have "effort ?y < effort x" using W_Run by (intro effort_plain [OF x(1), of t _ W_Begin]) simp_all
  then show ?thesis using Task_Return [OF W_Run] x(2) by (intro exI [of _ ?y]) simp
next
  case W_Notify
  obtain w where w: "wakes w (psem x)" using wakes_exists by blast
  then show ?thesis using Task_Notify [OF W_Notify w] effort_task_notify [OF x(1) W_Notify w] x(2)
    by (intro exI [of _ "wgoto t W_Run (assign_notify w x)"]) (simp add: assign_notify_def)
qed (use t(1) in simp)

lemma cleanup_still:
  assumes x: "good x" "owner x = O_Cleanup"
    and still: "\<nexists>y. pool_step x y \<and> assigned y = assigned x \<and> owner y = O_Cleanup \<and> effort y < effort x"
  shows "holder x = None" "waiting x = int (nworkers x)" "nworkers x \<noteq> 0 \<Longrightarrow> tasks x = []"
proof -
  have noone: "workers x t \<noteq> W_Notify" for t using cleanup_lower [OF x, of t] still by auto
  then show free: "holder x = None" using x by (cases "holder x") (auto simp: good_def lock_inv_def split: who.splits, metis who.exhaust)
  have sleeps: "workers x t = W_Wait \<and> t \<in> asleep (psem x)" if "t < nworkers x" for t
  proof -
    have "workers x t \<noteq> W_Exit" using x that by (auto simp: good_def phase_inv_alt allowed_def)
    then show ?thesis using cleanup_lower [OF x] still free by blast
  qed
  then have "numw {W_Wait, W_Granted, W_Exit} x = nworkers x" by (simp add: numw_def card_points_eq_n)
  then show "waiting x = int (nworkers x)" using x(1) by (simp add: good_def count_inv_def)
  show "tasks x = []" if "nworkers x \<noteq> 0"
  proof -
    have "asleep (psem x) \<noteq> {}" using sleeps [of 0] that by auto
    moreover have "awake (psem x) = {}"
    proof (rule equals0I)
      fix t assume t: "t \<in> awake (psem x)"
      then have "workers x t = W_Wait" using x(1) by (simp add: good_def waiters_inv_def)
      then have "t \<in> asleep (psem x)" using sleeps good_below [OF x(1), of t] by simp
      then show False using t x(1) by (auto simp: good_def waiters_inv_def sem_inv_def)
    qed
    ultimately have "unat (sem_count (psem x)) = 0" using x(1) by (simp add: good_def waiters_inv_def sem_inv_def)
    moreover have "numw {W_Granted, W_Pop} x = 0" "numw {W_Notify} x = 0" using sleeps by (auto simp: numw_def card_points_eq_0)
    moreover have "sem_running (psem x)" using good_running x by blast
    ultimately show ?thesis using x by (simp add: good_def count_inv_def pushing_def)
  qed
qed

section \<open>From the test to the end\<close>

lemma joins_end:
  "good x \<Longrightarrow> owner x = O_Join \<Longrightarrow> \<exists>y. pool_step\<^sup>*\<^sup>* x y \<and> owner y = O_Done \<and> assigned y = assigned x"
proof (induction "numw {W_Wait} x" arbitrary: x rule: less_induct)
  case less
  note j = join_step [of x] less.prems
  obtain y where y: "pool_step x y" "assigned y = assigned x"
    "owner y = O_Done \<or> owner y = O_Join \<and> numw {W_Wait} y < numw {W_Wait} x"
    using j by (auto simp: good_def)
  show ?case
  proof (cases "owner y = O_Done")
    case True
    then show ?thesis using y(1,2) by (intro exI [of _ y]) auto
  next
    case False
    then obtain z where "pool_step\<^sup>*\<^sup>* y z" "owner z = O_Done" "assigned z = assigned y"
      using less.hyps [of y] good_step [OF less.prems(1) y(1,2)] y(3) by blast
    then show ?thesis using y(1,2) by (intro exI [of _ z]) (auto intro: converse_rtranclp_into_rtranclp)
  qed
qed

lemma cleanup_passes:
  assumes "good x" "owner x = O_Cleanup" "holder x = None" "waiting x = int (nworkers x)" "tasks x = []"
  shows "\<exists>y. pool_step\<^sup>*\<^sup>* x y \<and> owner y = O_Done \<and> assigned y = assigned x"
proof -
  let ?b = "cleanup_test_waiting x"
  let ?c = "cleanup_test_tasks ?b"
  let ?d = "cleanup_teardown ?c"
  have o: "owner ?b = O_Check" "owner ?c = O_Teardown" "owner ?d = O_Join" "assigned ?b = assigned x"
    "assigned ?c = assigned x" "assigned ?d = assigned x"
    using assms(4,5) by (simp_all add: cleanup_test_waiting_def cleanup_test_tasks_def cleanup_teardown_def)
  have b: "pool_step x ?b" and c: "pool_step ?b ?c" and d: "pool_step ?c ?d"
    using Test_Waiting [OF assms(2,3)] Test_Tasks [OF o(1)] Teardown [OF o(2)] by blast+
  have "good ?d" using good_step [OF good_step [OF good_step [OF assms(1) b] c] d] o by simp
  from joins_end [OF this o(3)] obtain y where y: "pool_step\<^sup>*\<^sup>* ?d y" "owner y = O_Done" "assigned y = assigned ?d" by blast
  then have "pool_step\<^sup>*\<^sup>* x y" using b c d by (meson converse_rtranclp_into_rtranclp)
  then show ?thesis using y o by auto
qed

lemma cleanup_can_end:
  "good x \<Longrightarrow> owner x = O_Cleanup \<Longrightarrow> (nworkers x = 0 \<longrightarrow> tasks x = []) \<Longrightarrow>
    \<exists>y. pool_step\<^sup>*\<^sup>* x y \<and> owner y = O_Done \<and> assigned y = assigned x"
proof (induction "effort x" arbitrary: x rule: less_induct)
  case less
  show ?case
  proof (cases "\<exists>y. pool_step x y \<and> assigned y = assigned x \<and> owner y = O_Cleanup \<and> effort y < effort x")
    case True
    then obtain y where y: "pool_step x y" "assigned y = assigned x" "owner y = O_Cleanup" "effort y < effort x" by blast
    have "nworkers y = 0 \<longrightarrow> tasks y = []" using step_lengths [OF y(1)] y(2) less.prems(3) by auto
    note less.hyps [OF y(4) good_step [OF less.prems(1) y(1,2)] y(3) this]
    then obtain z where "pool_step\<^sup>*\<^sup>* y z" "owner z = O_Done" "assigned z = assigned y" by (elim exE conjE)
    then show ?thesis using y(1,2) by (intro exI [of _ z]) (auto intro: converse_rtranclp_into_rtranclp)
  next
    case False
    note still = cleanup_still [OF less.prems(1,2) False]
    then show ?thesis using cleanup_passes [OF less.prems(1,2) still(1,2)] less.prems(3) by blast
  qed
qed

text \<open>Without a worker the loop of \<open>cleanup()\<close> only ends on an empty queue.\<close>

definition deserted :: "'a pool \<Rightarrow> bool" where
  "deserted x \<longleftrightarrow> owner x \<in> {O_Cleanup, O_Check} \<and> tasks x \<noteq> [] \<and> (\<forall>t. workers x t = W_Exit) \<and> asleep (psem x) = {}"

lemma deserted_step: "pool_step x y \<Longrightarrow> deserted x \<Longrightarrow> deserted y"
  by (induction rule: pool_step.induct)
    (auto simp: deserted_def can_check_def cleanup_test_waiting_def cleanup_test_tasks_def)

lemma deserted_run: "pool_step\<^sup>*\<^sup>* x y \<Longrightarrow> deserted x \<Longrightarrow> deserted y"
  by (induction rule: rtranclp_induct) (auto intro: deserted_step)

section \<open>Property\<close>

text \<open>
  C16: \<open>cleanup()\<close> ends. From the beginning of its loop, in every reachable state of a pool that has a worker or nothing to do,
  there is a way to its end with every task done. As long as nobody submits
  a task, each step lowers \<open>effort\<close>, wakes a worker spuriously or only moves the owner between its tests, and when no step
  lowers it the next test succeeds. A pool that has tasks but was never given a worker never leaves the loop.
\<close>

theorem pool_cleanup_ends:
  assumes "pool_step\<^sup>*\<^sup>* new_pool x" "length (assigned x) < 2 ^ 64" "owner x = O_Cleanup"
  shows "(nworkers x \<noteq> 0 \<or> tasks x = [] \<longrightarrow>
      (\<exists>y. pool_step\<^sup>*\<^sup>* x y \<and> owner y = O_Done \<and> assigned y = assigned x \<and> finished y = length (assigned x))) \<and>
    (\<forall>y. pool_step x y \<and> assigned y = assigned x \<longrightarrow> effort y < effort x \<or>
      workers y = workers x \<and> tasks y = tasks x \<and>
      (psem y = psem x \<or> (\<exists>t \<in> asleep (psem x). psem y = wake_one (Some t) (psem x)))) \<and>
    ((nworkers x \<noteq> 0 \<or> tasks x = []) \<and>
      (\<nexists>y. pool_step x y \<and> assigned y = assigned x \<and> owner y = O_Cleanup \<and> effort y < effort x) \<longrightarrow>
      pool_step x (cleanup_test_waiting x) \<and> owner (cleanup_test_tasks (cleanup_test_waiting x)) = O_Teardown) \<and>
    (nworkers x = 0 \<and> tasks x \<noteq> [] \<longrightarrow> (\<forall>y. pool_step\<^sup>*\<^sup>* x y \<longrightarrow> owner y \<in> {O_Cleanup, O_Check}))"
proof (intro conjI impI allI; (elim conjE)?)
  have x: "good x" using assms(1,2) by (rule good_reachable)
  show "\<exists>y. pool_step\<^sup>*\<^sup>* x y \<and> owner y = O_Done \<and> assigned y = assigned x \<and> finished y = length (assigned x)"
    if "nworkers x \<noteq> 0 \<or> tasks x = []"
  proof -
    have "nworkers x = 0 \<longrightarrow> tasks x = []" using that by auto
    from cleanup_can_end [OF x assms(3) this]
    obtain y where y: "pool_step\<^sup>*\<^sup>* x y" "owner y = O_Done" "assigned y = assigned x" by (elim exE conjE)
    have "good y" using assms(1,2) y by (intro good_reachable) auto
    then show ?thesis using y all_finished [of y] by (auto simp: good_def)
  qed
  show "effort y < effort x \<or> workers y = workers x \<and> tasks y = tasks x \<and>
      (psem y = psem x \<or> (\<exists>t \<in> asleep (psem x). psem y = wake_one (Some t) (psem x)))"
    if "pool_step x y" "assigned y = assigned x" for y using effort_cleanup [OF x _ that] assms(3) by blast
  show "pool_step x (cleanup_test_waiting x)" "owner (cleanup_test_tasks (cleanup_test_waiting x)) = O_Teardown"
    if "nworkers x \<noteq> 0 \<or> tasks x = []"
      "\<nexists>y. pool_step x y \<and> assigned y = assigned x \<and> owner y = O_Cleanup \<and> effort y < effort x"
    using Test_Waiting [OF assms(3)] cleanup_still [OF x assms(3) that(2)] that(1)
    by (auto simp: cleanup_test_waiting_def cleanup_test_tasks_def)
  show "owner y \<in> {O_Cleanup, O_Check}" if "nworkers x = 0" "tasks x \<noteq> []" "pool_step\<^sup>*\<^sup>* x y" for y
  proof -
    have w: "workers x t = W_Exit" for t using good_below [OF x, of t] that(1) by auto
    have "asleep (psem x) = {}" using good_asleep [OF x] w by fastforce
    then have "deserted x" using w that(2) assms(3) by (simp add: deserted_def)
    from deserted_run [OF that(3) this] show ?thesis by (simp add: deserted_def)
  qed
qed

text \<open>A pool whose worker is about to take the task 7 when \<open>cleanup()\<close> begins.\<close>

theorem pool_cleanup_ends_witness:
  "\<exists>x y. pool_step\<^sup>*\<^sup>* new_pool x \<and> owner x = O_Cleanup \<and> tasks x = [7 :: nat] \<and> finished x = 0 \<and>
    pool_step\<^sup>*\<^sup>* x y \<and> owner y = O_Done \<and> finished y = 1"
proof -
  let ?x = "demo_pool W_Pop O_Busy [7]\<lparr>owner := O_Cleanup\<rparr>"
  have r: "pool_step\<^sup>*\<^sup>* new_pool ?x"
    by (rule rtranclp.rtrancl_into_rtrancl [OF demo_ready Cleanup]) (simp add: demo_pool_def)
  have x: "length (assigned ?x) < 2 ^ 64" "owner ?x = O_Cleanup" "nworkers ?x \<noteq> 0 \<or> tasks ?x = []"
    "assigned ?x = [7]" "tasks ?x = [7]" "finished ?x = 0" by (simp_all add: demo_pool_def)
  from pool_cleanup_ends [OF r x(1,2), THEN conjunct1] x(3)
  obtain y where "pool_step\<^sup>*\<^sup>* ?x y" "owner y = O_Done" "finished y = length (assigned ?x)" by blast
  then show ?thesis using r x(2,4,5,6) by (intro exI [of _ ?x] exI [of _ y]) simp
qed

end
