(* ===== verification/Macro_Bits.thy ===== *)
theory Macro_Bits
  imports Macros Output_Dump
begin

text \<open>
  The other macros of \<^verbatim>\<open>src/macro.h\<close>: the loop \<open>IN\<close> over the bits of a board, \<open>SZ\<close>, \<open>ARRAYSIZE\<close>, and the pasting of
  names. The repository has neither the type \<^verbatim>\<open>Board\<close> nor the function \<^verbatim>\<open>least\<close> that \<open>IN\<close> uses: a board is a word of 64
  bits here, as in \<open>SUBSETS\<close>, and \<open>least\<close> is an argument, of which \<open>least_bit\<close> says that it isolates the lowest bit.
\<close>

section \<open>Definitions\<close>

text \<open>The values of \<open>i\<close>, and what the loop leaves in \<open>b\<close>; a loop that does not end is \<open>None\<close>.\<close>

partial_function (option) in_loop :: "(64 word \<Rightarrow> 64 word) \<Rightarrow> 64 word \<Rightarrow> (64 word list \<times> 64 word) option" where
  "in_loop least b = (if least b = 0 then Some ([], b)
     else Option.bind (in_loop least (xor b (least b))) (\<lambda>(is, b'). Some (least b # is, b')))"

text \<open>\<open>SZ\<close> converts a \<^verbatim>\<open>size_t\<close> to \<^verbatim>\<open>int\<close>.\<close>

definition sz_macro :: "size_t \<Rightarrow> int" where
  "sz_macro len = sint (ucast len :: 32 word)"

text \<open>\<open>ARRAYSIZE\<close>, of an array of \<open>n\<close> elements and of a pointer, to elements of \<open>s\<close> bytes.\<close>

datatype c_object = C_Array nat nat | C_Ptr nat

definition array_size :: "c_object \<Rightarrow> nat" where
  "array_size ob = (case ob of C_Array n s \<Rightarrow> n * s div s | C_Ptr s \<Rightarrow> 8 div s)"

text \<open>
  \<open>CONCAT2\<close> pastes the last token of one text and the first of the other, as they are spelled; \<open>CONCAT\<close> expands its arguments first.
  The callers paste a name with \<^verbatim>\<open>__COUNTER__\<close> or \<^verbatim>\<open>__LINE__\<close>.
\<close>

definition concat2 :: "mtext \<Rightarrow> mtext \<Rightarrow> mtext option" where
  "concat2 x y = (if x = [] then Some y else case y of [] \<Rightarrow> Some x
     | t # ts \<Rightarrow> (case (last x, t) of (Word a, Word b) \<Rightarrow> Some (butlast x @ Word (a @ b) # ts) | _ \<Rightarrow> None))"

definition concat_macro :: "(mtext \<Rightarrow> mtext) \<Rightarrow> mtext \<Rightarrow> mtext \<Rightarrow> mtext option" where
  "concat_macro expand x y = concat2 (expand x) (expand y)"

section \<open>The bits of a board\<close>

definition least_bit :: "(64 word \<Rightarrow> 64 word) \<Rightarrow> bool" where
  "least_bit least \<longleftrightarrow> least 0 = 0 \<and> (\<forall>b k. bit b k \<and> (\<forall>j < k. \<not> bit b j) \<longrightarrow> least b = push_bit k 1)"

definition set_bits_of :: "64 word \<Rightarrow> nat list" where
  "set_bits_of b = filter (bit b) [0..<64]"

lemma set_bits_of_Nil: "set_bits_of b = [] \<longleftrightarrow> b = 0"
proof
  assume "set_bits_of b = []"
  then have "\<forall>k < 64. \<not> bit b k" by (auto simp: set_bits_of_def filter_empty_conv)
  then show "b = 0" by (intro bit_word_eqI) simp
qed (simp add: set_bits_of_def)

lemma set_bits_of_Cons:
  assumes "set_bits_of b = k # ks"
  shows "k < 64" "bit b k" "\<forall>j < k. \<not> bit b j" "set_bits_of (xor b (push_bit k 1)) = ks"
proof -
  have k: "k \<in> set (set_bits_of b)" using assms by simp
  then show "k < 64" "bit b k" by (simp_all add: set_bits_of_def)
  have s: "sorted (k # ks)" "distinct (k # ks)" using assms unfolding set_bits_of_def
    by (metis sorted_wrt_filter sorted_upt) (metis assms distinct_filter distinct_upt set_bits_of_def)
  show "\<forall>j < k. \<not> bit b j"
  proof (intro allI impI notI)
    fix j assume "j < k" "bit b j"
    then have "j \<in> set (set_bits_of b)" using \<open>k < 64\<close> by (simp add: set_bits_of_def)
    then show False using s(1) assms \<open>j < k\<close> by auto
  qed
  have "bit (xor b (push_bit k 1)) j \<longleftrightarrow> bit b j \<and> j \<noteq> k" if "j < 64" for j
    using that \<open>k < 64\<close> \<open>bit b k\<close> by (auto simp: bit_simps)
  then have "set_bits_of (xor b (push_bit k 1)) = filter (\<lambda>j. j \<noteq> k) (set_bits_of b)"
    unfolding set_bits_of_def filter_filter by (intro filter_cong) auto
  also have "\<dots> = ks" using s(2) unfolding assms by (auto simp: filter_id_conv)
  finally show "set_bits_of (xor b (push_bit k 1)) = ks" .
qed

lemma push_bit_one: "k < 64 \<Longrightarrow> push_bit k (1 :: 64 word) \<noteq> 0"
proof
  assume "k < 64" "push_bit k (1 :: 64 word) = 0"
  then have "\<not> bit (push_bit k (1 :: 64 word)) k" by simp
  then show False using \<open>k < 64\<close> by (simp add: bit_simps)
qed

section \<open>What they give\<close>

text \<open>
  \<open>IN\<close> ends for every board: \<open>i\<close> is each of its bits, from the lowest to the highest, and the board is then
  empty. \<open>ARRAYSIZE\<close> counts the elements of an array, but not those behind a pointer; \<open>SZ\<close> is the length below \<open>2 ^ 31\<close>.
\<close>

theorem board_macros:
  assumes "least_bit least"
  shows "in_loop least b = Some (map (\<lambda>k. push_bit k 1) (filter (bit b) [0..<64]), 0) \<and>
    (0 < s \<longrightarrow> array_size (C_Array n s) = n) \<and> (8 < s \<longrightarrow> array_size (C_Ptr s) = 0) \<and>
    (unat len < 2 ^ 31 \<longrightarrow> sz_macro len = int (unat len))"
proof (intro conjI impI)
  have "in_loop least b = Some (map (\<lambda>k. push_bit k 1) ks, 0)" if "set_bits_of b = ks" for ks
    using that
  proof (induction ks arbitrary: b)
    case Nil
    then have "b = 0" by (simp add: set_bits_of_Nil)
    then show ?case using assms by (subst in_loop.simps) (simp add: least_bit_def)
  next
    case (Cons k ks)
    note k = set_bits_of_Cons [OF Cons.prems]
    have l: "least b = push_bit k 1" using assms k(2,3) unfolding least_bit_def by blast
    show ?case using Cons.IH [OF k(4)] push_bit_one [OF k(1)] by (subst in_loop.simps) (simp add: l)
  qed
  then show "in_loop least b = Some (map (\<lambda>k. push_bit k 1) (filter (bit b) [0..<64]), 0)" by (simp add: set_bits_of_def)
  show "sz_macro len = int (unat len)" if "unat len < 2 ^ 31"
  proof -
    have "(ucast len :: 32 word) = of_nat (unat len)" by simp
    then show ?thesis unfolding sz_macro_def using sint_32_of_nat [OF that] by (simp only:)
  qed
qed (simp_all add: array_size_def)

definition least_of :: "64 word \<Rightarrow> 64 word" where
  "least_of b = (case find (bit b) [0..<64] of None \<Rightarrow> 0 | Some k \<Rightarrow> push_bit k 1)"

theorem board_macros_witness: "in_loop least_of 0x29 = Some ([1, 8, 0x20], 0)"
proof -
  have "least_bit least_of"
    unfolding least_bit_def
  proof (intro conjI allI impI)
    show "least_of 0 = 0" by (auto simp: least_of_def find_Some_iff split: option.splits)
    fix b :: "64 word" and k
    assume k: "bit b k \<and> (\<forall>j < k. \<not> bit b j)"
    then have "k < 64" using bit_imp_le_length [of b k] by simp
    then have "find (bit b) [0..<64] = Some k" using k by (auto simp: find_Some_iff)
    then show "least_of b = push_bit k 1" by (simp add: least_of_def)
  qed
  from board_macros [OF this, THEN conjunct1, of "0x29"] show ?thesis by (simp add: upt_rec)
qed

text \<open>The name that a number is pasted to.\<close>

lemma concat_macro_names:
  assumes "concat_macro expand [Word name] [Word counter] = Some [Word x]"
    and "expand [Word name] = [Word name]" "expand [Word counter] = [Word (digits n)]"
  shows "x = name @ digits n"
  using assms by (simp add: concat_macro_def concat2_def)

end
