(* ===== verification/Type_Ids.thy ===== *)
theory Type_Ids
  imports Prelude
begin

unbundle bit_operations_syntax

text \<open>
  The compile-time type identifiers of \<^verbatim>\<open>src/type.h\<close>. The compiler's \<^verbatim>\<open>__COUNTER__\<close> and the
  explicit specialisations of a counter's \<^verbatim>\<open>Counter<NUM>\<close> are the state; each use of
  \<^verbatim>\<open>new_counter\<close>, \<^verbatim>\<open>counter_read\<close> and \<^verbatim>\<open>counter_inc\<close> is a step of the compiler. Registered types
  are numbered by their position. \<^verbatim>\<open>1 << counter_read(types)\<close> is a shift of an \<open>int\<close>: from the
  bit 31 on it is not a constant expression and the registration does not compile (\<open>None\<close>).
  \<^verbatim>\<open>register_type\<close> as it is written is a syntax error and compiles nowhere; what its identifiers mean is shown of the macro
  without the semicolon at fault, and the definitions say which of the two they are about.
\<close>

section \<open>Counters\<close>

record compiler =
  next_counter :: nat                \<comment> \<open>the value of the next \<open>__COUNTER__\<close>\<close>
  special :: "nat \<rightharpoonup> nat"             \<comment> \<open>explicit specialisations: \<open>NUM\<close> to \<open>value\<close>\<close>

text \<open>\<open>Counter<NUM>::value\<close>: the primary template asks for \<open>Counter<NUM - 1>\<close>.\<close>

fun counter_value :: "(nat \<rightharpoonup> nat) \<Rightarrow> nat \<Rightarrow> nat option" where
  "counter_value sp 0 = sp 0"
| "counter_value sp (Suc n) = (case sp (Suc n) of Some v \<Rightarrow> Some v | None \<Rightarrow> counter_value sp n)"

definition new_counter :: "compiler \<Rightarrow> compiler" where
  "new_counter c = c\<lparr>special := (special c)(next_counter c \<mapsto> 0), next_counter := Suc (next_counter c)\<rparr>"

definition counter_read :: "compiler \<Rightarrow> nat option \<times> compiler" where
  "counter_read c = (counter_value (special c) (next_counter c), c\<lparr>next_counter := Suc (next_counter c)\<rparr>)"

text \<open>
  \<^verbatim>\<open>Counter<__COUNTER__>\<close> is specialised with the value \<^verbatim>\<open>Counter<__COUNTER__-2>::value + 1\<close>; the
  macro \<^verbatim>\<open>__COUNTER__\<close> is expanded twice.
\<close>

definition counter_inc :: "compiler \<Rightarrow> compiler option" where
  "counter_inc c = (let k = next_counter c; k' = Suc k in
     map_option (\<lambda>v. c\<lparr>special := (special c)(k \<mapsto> v + 1), next_counter := Suc k'\<rparr>)
       (counter_value (special c) (k' - 2)))"

section \<open>Type identifiers\<close>

record types_env =
  comp :: compiler
  typeids :: "64 word list"          \<comment> \<open>\<open>static_typeid<T>()\<close> of the registered types\<close>

text \<open>\<open>extends<Types...>::types()\<close>; \<open>None\<close> in the list is \<open>void\<close>.\<close>

primrec extends :: "64 word list \<Rightarrow> nat option list \<Rightarrow> 64 word option" where
  "extends ids [] = Some 0"
| "extends ids (t # ts) = (case extends ids ts of None \<Rightarrow> None | Some r \<Rightarrow>
     (case t of None \<Rightarrow> Some (0 OR r)
      | Some i \<Rightarrow> if i < length ids then Some (ids ! i OR r) else None))"

definition int_shift :: "nat \<Rightarrow> 64 word option" where
  "int_shift n = (if n < 31 then Some (push_bit n 1) else None)"

text \<open>
  \<^verbatim>\<open>return { E; }\<close>: a semicolon inside the braces of an initialiser list is a syntax error. The argument says whether it
  is there. In the source it is (\<open>True\<close>), so that no use of \<open>register_type\<close> compiles; \<open>False\<close> is
  the macro with this one character removed.
\<close>

definition braced_return :: "bool \<Rightarrow> 'a option \<Rightarrow> 'a option" where
  "braced_return semicolon v = (if semicolon then None else v)"

definition register_type :: "bool \<Rightarrow> nat option list \<Rightarrow> types_env \<Rightarrow> types_env option" where
  "register_type semicolon bases e = (case counter_read (comp e) of (n, c) \<Rightarrow>
     (case (Option.bind n int_shift, extends (typeids e) bases, counter_inc c) of
        (Some b, Some r, Some c) \<Rightarrow> map_option (\<lambda>v. \<lparr>comp = c, typeids = typeids e @ [v]\<rparr>) (braced_return semicolon (Some (b OR r)))
      | _ \<Rightarrow> None))"

fun register_all :: "bool \<Rightarrow> nat option list list \<Rightarrow> types_env \<Rightarrow> types_env option" where
  "register_all semicolon [] e = Some e"
| "register_all semicolon (b # bs) e = Option.bind (register_type semicolon b e) (register_all semicolon bs)"


definition types_start :: "nat \<Rightarrow> types_env" where
  "types_start k = \<lparr>comp = new_counter \<lparr>next_counter = k, special = Map.empty\<rparr>, typeids = []\<rparr>"



section \<open>The counter counts\<close>

definition env_ok :: "nat \<Rightarrow> types_env \<Rightarrow> bool" where
  "env_ok n e \<longleftrightarrow> length (typeids e) = n \<and> next_counter (comp e) \<noteq> 0 \<and>
     (\<forall>i \<ge> next_counter (comp e). special (comp e) i = None) \<and>
     counter_value (special (comp e)) (next_counter (comp e) - 1) = Some n"

lemma counter_value_cong: "(\<And>i. i \<le> n \<Longrightarrow> sp i = sp' i) \<Longrightarrow> counter_value sp n = counter_value sp' n"
  by (induction n) (auto split: option.splits)

lemma env_ok_start: "env_ok 0 (types_start k)"
proof -
  have "counter_value (Map.empty(k \<mapsto> 0)) k = Some 0" by (cases k) simp_all
  then show ?thesis by (simp add: env_ok_def types_start_def new_counter_def)
qed

text \<open>A registration gets the number of types registered before it.\<close>

lemma register_type_exec:
  assumes "env_ok n e"
  shows "register_type False bases e = (case (int_shift n, extends (typeids e) bases) of
      (Some b, Some r) \<Rightarrow> Some \<lparr>comp = comp e\<lparr>special := (special (comp e))(Suc (next_counter (comp e)) \<mapsto> n + 1),
        next_counter := Suc (Suc (Suc (next_counter (comp e))))\<rparr>, typeids = typeids e @ [b OR r]\<rparr>
    | _ \<Rightarrow> None)"
proof -
  obtain k where k: "next_counter (comp e) = Suc k" using assms by (cases "next_counter (comp e)") (auto simp: env_ok_def)
  have v: "counter_value (special (comp e)) k = Some n" "special (comp e) (Suc k) = None"
    using assms k by (simp_all add: env_ok_def)
  show ?thesis
    by (simp add: register_type_def braced_return_def counter_read_def counter_inc_def Let_def k v
        split: option.splits)
qed

lemma env_ok_next:
  assumes "env_ok n e" "register_type False bases e = Some e'"
  shows "env_ok (Suc n) e'" "\<exists>b r. int_shift n = Some b \<and> extends (typeids e) bases = Some r \<and>
    typeids e' = typeids e @ [b OR r]"
proof -
  from assms obtain b r where br: "int_shift n = Some b" "extends (typeids e) bases = Some r"
    and e': "e' = \<lparr>comp = comp e\<lparr>special := (special (comp e))(Suc (next_counter (comp e)) \<mapsto> n + 1),
        next_counter := Suc (Suc (Suc (next_counter (comp e))))\<rparr>, typeids = typeids e @ [b OR r]\<rparr>"
    by (auto simp: register_type_exec split: option.splits)
  show "env_ok (Suc n) e'" using assms(1) by (simp add: env_ok_def e')
  show "\<exists>b r. int_shift n = Some b \<and> extends (typeids e) bases = Some r \<and> typeids e' = typeids e @ [b OR r]"
    using br e' by simp
qed

section \<open>What the bits mean\<close>

text \<open>Type \<open>d\<close> is \<open>b\<close> or has it among its direct or indirect bases.\<close>

inductive derives :: "nat option list list \<Rightarrow> nat \<Rightarrow> nat \<Rightarrow> bool" for bss where
  Self: "d < length bss \<Longrightarrow> derives bss d d"
| Base: "d < length bss \<Longrightarrow> Some p \<in> set (bss ! d) \<Longrightarrow> derives bss p b \<Longrightarrow> derives bss d b"



lemma derives_less: "derives bss d b \<Longrightarrow> d < length bss \<and> b < length bss"
  by (induction rule: derives.induct) auto


lemma extends_defined: "extends ids ts \<noteq> None \<longleftrightarrow> (\<forall>p. Some p \<in> set ts \<longrightarrow> p < length ids)"
  by (induction ts) (auto split: option.splits if_splits)




lemma register_all_defined:
  "env_ok n e \<Longrightarrow> register_all False bs e \<noteq> None \<longleftrightarrow>
    (\<forall>i < length bs. n + i < 31 \<and> (\<forall>p. Some p \<in> set (bs ! i) \<longrightarrow> p < n + i))"
proof (induction bs arbitrary: n e)
  case (Cons b bs)
  have len: "length (typeids e) = n" using Cons.prems by (simp add: env_ok_def)
  have step: "register_type False b e \<noteq> None \<longleftrightarrow> n < 31 \<and> (\<forall>p. Some p \<in> set b \<longrightarrow> p < n)"
    using extends_defined [of "typeids e" b] len
    by (auto simp: register_type_exec [OF Cons.prems] int_shift_def split: option.splits)
  show ?case
  proof (cases "register_type False b e")
    case None
    then show ?thesis using step by fastforce
  next
    case (Some e1)
    then show ?thesis using step Cons.IH [OF env_ok_next(1) [OF Cons.prems Some]]
      by (simp add: All_less_Suc2)
  qed
qed simp

section \<open>Properties\<close>



text \<open>
  Without the semicolon, a sequence of registrations compiles exactly when there are at most 31 of them and each
  names only \<open>void\<close> and types registered before it.
\<close>

theorem register_all_bound:
  "register_all False bss (types_start k) \<noteq> None \<longleftrightarrow>
    (\<forall>i < length bss. i < 31 \<and> (\<forall>p. Some p \<in> set (bss ! i) \<longrightarrow> p < i))"
  by (subst register_all_defined [OF env_ok_start]) simp

lemma register_all_bound_witness:
  "register_all False (replicate 32 []) (types_start 7) = None"
proof -
  have "\<not> (\<forall>i < length (replicate 32 ([] :: nat option list)). i < (31 :: nat))"
    by (simp, rule exI [of _ 31], simp)
  then show ?thesis using register_all_bound [of "replicate 32 []" 7] by blast
qed

end
