(* ===== verification/Dynamic_Ptr.thy ===== *)
theory Dynamic_Ptr
  imports Prelude
begin

text \<open>
  \<^verbatim>\<open>src/dynamic_ptr.h\<close>: a pointer that remembers its static type by throwing itself. What the code
  relies on is the rule by which C++ matches a thrown pointer with a handler: a handler for \<^verbatim>\<open>U*\<close>
  catches a \<^verbatim>\<open>T*\<close> when the types are the same, when \<^verbatim>\<open>U\<close> is \<^verbatim>\<open>void\<close>, or when \<^verbatim>\<open>U\<close> is an unambiguous
  public base class of \<^verbatim>\<open>T\<close>; the handler then gets the address of the base subobject. A class is a
  number, its direct bases have smaller ones; virtual bases are not modelled.
\<close>

section \<open>Classes and their subobjects\<close>

record base =
  base_class :: nat
  public_base :: bool
  base_offset :: "64 word"

type_synonym hierarchy = "base list list"

definition bases :: "hierarchy \<Rightarrow> nat \<Rightarrow> base list" where
  "bases P C = (if C < length P then filter (\<lambda>b. base_class b < C) (P ! C) else [])"

lemma bases_smaller: "b \<in> set (bases P C) \<Longrightarrow> base_class b < C"
  by (simp add: bases_def split: if_splits)

text \<open>All subobjects of an object: the class, whether every step to it is public, and the offset.\<close>

function subobjects :: "hierarchy \<Rightarrow> nat \<Rightarrow> (nat \<times> bool \<times> 64 word) list" where
  "subobjects P C = (C, True, 0) # concat (map (\<lambda>b.
     map (\<lambda>(D, pub, off). (D, public_base b \<and> pub, base_offset b + off)) (subobjects P (base_class b))) (bases P C))"
  by pat_completeness auto
termination by (relation "measure snd") (simp_all add: bases_smaller)

declare subobjects.simps [simp del]

section \<open>Throwing and catching pointers\<close>

datatype object_type = Class_Type nat | Scalar_Type nat | Dynamic_Ptr_Type

datatype pointee = Void | To object_type

fun catch_pointer :: "hierarchy \<Rightarrow> object_type \<Rightarrow> pointee \<Rightarrow> oid \<Rightarrow> oid option" where
  "catch_pointer P T Void p = Some p"
| "catch_pointer P T (To U) p = (if T = U then Some p else
     (case (T, U) of
        (Class_Type C, Class_Type D) \<Rightarrow> (case filter (\<lambda>x. fst x = D) (subobjects P C) of
            [(_, True, off)] \<Rightarrow> Some (if p = 0 then 0 else p + off)
          | _ \<Rightarrow> None)
      | _ \<Rightarrow> None))"

section \<open>dynamic_ptr\<close>

text \<open>\<open>caster_\<close> is the instance of \<open>caster<T>\<close> for the static type the object was made with.\<close>

record dynamic_ptr =
  dp_ptr :: oid
  dp_caster :: object_type

definition dp_of_pointer :: "object_type \<Rightarrow> oid \<Rightarrow> dynamic_ptr" where
  "dp_of_pointer T p = \<lparr>dp_ptr = p, dp_caster = T\<rparr>"

definition dp_of_reference :: "object_type \<Rightarrow> oid \<Rightarrow> dynamic_ptr" where
  "dp_of_reference T a = dp_of_pointer T a"

definition caster :: "dynamic_ptr \<Rightarrow> object_type \<times> oid" where
  "caster d = (dp_caster d, dp_ptr d)"

definition dp_cast :: "hierarchy \<Rightarrow> pointee \<Rightarrow> dynamic_ptr \<Rightarrow> oid" where
  "dp_cast P U d = (case caster d of (T, p) \<Rightarrow> (case catch_pointer P T U p of Some out \<Rightarrow> out | None \<Rightarrow> 0))"

text \<open>
  \<^verbatim>\<open>dynamic_ptr e = d\<close>, for an object \<open>d\<close> at the address \<open>a\<close>: for a \<^verbatim>\<open>const\<close> object this is the implicit copy
  constructor, but for another one the constructor template from a reference is the better match.
\<close>

definition dp_copy :: "bool \<Rightarrow> oid \<Rightarrow> dynamic_ptr \<Rightarrow> dynamic_ptr" where
  "dp_copy const a d = (if const then d else dp_of_reference Dynamic_Ptr_Type a)"

section \<open>Subobjects as a relation\<close>

text \<open>An object of class \<open>C\<close> at \<open>a\<close> has a subobject of class \<open>D\<close> at \<open>x\<close>.\<close>

inductive subobject_at :: "hierarchy \<Rightarrow> nat \<Rightarrow> oid \<Rightarrow> nat \<Rightarrow> oid \<Rightarrow> bool" for P where
  Whole: "subobject_at P C a C a"
| Base: "b \<in> set (bases P C) \<Longrightarrow> subobject_at P (base_class b) (a + base_offset b) D x \<Longrightarrow> subobject_at P C a D x"

inductive_cases subobject_atE: "subobject_at P C a D x"

lemma subobject_at_trans:
  "subobject_at P C a D x \<Longrightarrow> subobject_at P D x E y \<Longrightarrow> subobject_at P C a E y"
  by (induction rule: subobject_at.induct) (auto intro: subobject_at.intros)

lemma subobject_at_le: "subobject_at P C a D x \<Longrightarrow> D \<le> C"
  by (induction rule: subobject_at.induct) (auto dest: bases_smaller)

lemma subobjects_iff:
  "(D, pub, off) \<in> set (subobjects P C) \<longleftrightarrow> (D = C \<and> pub \<and> off = 0) \<or>
    (\<exists>b \<in> set (bases P C). \<exists>pub' off'. (D, pub', off') \<in> set (subobjects P (base_class b)) \<and>
      pub = (public_base b \<and> pub') \<and> off = base_offset b + off')"
  by (subst subobjects.simps) force

lemma subobject_at_iff: "subobject_at P C a D x \<longleftrightarrow> (\<exists>pub off. (D, pub, off) \<in> set (subobjects P C) \<and> x = a + off)"
proof (induction P C arbitrary: a rule: subobjects.induct)
  case (1 P C)
  have "subobject_at P C a D x \<longleftrightarrow> D = C \<and> x = a \<or>
      (\<exists>b \<in> set (bases P C). subobject_at P (base_class b) (a + base_offset b) D x)"
    by (auto elim: subobject_atE intro: subobject_at.intros)
  also have "\<dots> \<longleftrightarrow> D = C \<and> x = a \<or> (\<exists>b \<in> set (bases P C). \<exists>pub off.
      (D, pub, off) \<in> set (subobjects P (base_class b)) \<and> x = a + base_offset b + off)"
    using "1.IH" by blast
  also have "\<dots> \<longleftrightarrow> (\<exists>pub off. (D, pub, off) \<in> set (subobjects P C) \<and> x = a + off)"
  proof (intro iffI; elim disjE conjE bexE exE)
    assume "D = C" "x = a"
    then show "\<exists>pub off. (D, pub, off) \<in> set (subobjects P C) \<and> x = a + off"
      by (intro exI [of _ True] exI [of _ 0]) (simp add: subobjects.simps [of P C])
  next
    fix b pub off
    assume "b \<in> set (bases P C)" "(D, pub, off) \<in> set (subobjects P (base_class b))" "x = a + base_offset b + off"
    then show "\<exists>pub off. (D, pub, off) \<in> set (subobjects P C) \<and> x = a + off"
      unfolding subobjects_iff [of D _ _ P C] by (metis add.assoc)
  next
    fix pub off
    assume "(D, pub, off) \<in> set (subobjects P C)" "x = a + off"
    then show "D = C \<and> x = a \<or> (\<exists>b \<in> set (bases P C). \<exists>pub off.
        (D, pub, off) \<in> set (subobjects P (base_class b)) \<and> x = a + base_offset b + off)"
      unfolding subobjects_iff [of D _ _ P C] by (metis add.assoc add_0_right)
  qed
  finally show ?case .
qed

lemma whole_once: "filter (\<lambda>x. fst x = C) (subobjects P C) = [(C, True, 0)]"
proof -
  have "fst y < C" if "b \<in> set (bases P C)" "y \<in> set (subobjects P (base_class b))" for b y
  proof -
    have "subobject_at P (base_class b) 0 (fst y) (snd (snd y))"
      using that(2) unfolding subobject_at_iff by (metis add_0 prod.collapse)
    then show ?thesis using subobject_at_le bases_smaller [OF that(1)] by fastforce
  qed
  then show ?thesis by (fastforce simp: subobjects.simps [of P C] filter_empty_conv)
qed

text \<open>So the test on equal types is the general rule for classes.\<close>

lemma catch_class:
  "catch_pointer P (Class_Type C) (To (Class_Type D)) p = (case filter (\<lambda>x. fst x = D) (subobjects P C) of
     [(_, True, off)] \<Rightarrow> Some (if p = 0 then 0 else p + off) | _ \<Rightarrow> None)"
  by (cases "C = D") (simp_all add: whole_once)

lemma catch_class_Some:
  "catch_pointer P (Class_Type C) (To (Class_Type D)) p = Some x \<longleftrightarrow>
    (\<exists>off. filter (\<lambda>x. fst x = D) (subobjects P C) = [(D, True, off)] \<and> x = (if p = 0 then 0 else p + off))"
proof (cases "filter (\<lambda>x. fst x = D) (subobjects P C)")
  case Nil
  then show ?thesis unfolding catch_class by simp
next
  case (Cons y ys)
  have "y \<in> set (filter (\<lambda>x. fst x = D) (subobjects P C))" unfolding Cons by simp
  then have "fst y = D" by simp
  then obtain q off where y: "y = (D, q, off)" by (cases y) simp
  show ?thesis
  proof (cases "ys = [] \<and> q")
    case True
    then show ?thesis unfolding catch_class Cons y by auto
  next
    case False
    then have "(case y # ys of [(_, True, off)] \<Rightarrow> Some (if p = 0 then 0 else p + off) | _ \<Rightarrow> None) = None"
      unfolding y by (cases ys; cases q) simp_all
    then show ?thesis unfolding catch_class Cons using False y by auto
  qed
qed

lemma subobject_unique:
  assumes "filter (\<lambda>x. fst x = D) (subobjects P C) = [(D, pub, off)]"
  shows "subobject_at P C a D x \<longleftrightarrow> x = a + off"
proof -
  have "y \<in> set (filter (\<lambda>x. fst x = D) (subobjects P C)) \<longleftrightarrow> y = (D, pub, off)" for y
    unfolding assms by simp
  from this [of "(D, pub', off')" for pub' off']
  have "(D, pub', off') \<in> set (subobjects P C) \<longleftrightarrow> pub' = pub \<and> off' = off" for pub' off' by simp
  then show ?thesis unfolding subobject_at_iff by simp
qed

section \<open>Properties\<close>

text \<open>
  C35: Casts are sound for types. For a \<open>dynamic_ptr\<close> made from a pointer to an object of class
  \<open>C\<close>, a cast to class \<open>D\<close> that does not give null gives the address of a subobject of class \<open>D\<close>
  of that object, and it is the only one; so does a chain of casts. Every cast to the own class,
  and to \<^verbatim>\<open>void\<close>, gives the pointer back; a pointer to anything that is not a class is only given back
  at its own type and as \<^verbatim>\<open>void*\<close>.
\<close>

theorem dp_cast_sound:
  assumes "dp_cast P (To (Class_Type D)) (dp_of_pointer (Class_Type C) a) = x" "x \<noteq> 0"
  shows "subobject_at P C a D x \<and> (\<forall>y. subobject_at P C a D y \<longrightarrow> y = x) \<and>
    (dp_cast P (To (Class_Type E)) (dp_of_pointer (Class_Type D) x) \<noteq> 0 \<longrightarrow>
      subobject_at P C a E (dp_cast P (To (Class_Type E)) (dp_of_pointer (Class_Type D) x))) \<and>
    dp_cast P (To T) (dp_of_pointer T a) = a \<and> dp_cast P Void (dp_of_pointer T a) = a \<and>
    (\<forall>n. U \<noteq> To (Scalar_Type n) \<and> U \<noteq> Void \<longrightarrow> dp_cast P U (dp_of_pointer (Scalar_Type n) a) = 0)"
proof -
  have cast: "dp_cast P (To (Class_Type F)) (dp_of_pointer (Class_Type G) p) = (case catch_pointer P (Class_Type G) (To (Class_Type F)) p of
      Some out \<Rightarrow> out | None \<Rightarrow> 0)" for F G p
    by (simp only: dp_cast_def caster_def dp_of_pointer_def dynamic_ptr.simps prod.case)
  have found: "\<exists>off. filter (\<lambda>z. fst z = F) (subobjects P G) = [(F, True, off)] \<and> q = p + off"
    if "dp_cast P (To (Class_Type F)) (dp_of_pointer (Class_Type G) p) = q" "q \<noteq> 0" for F G p q
  proof -
    have "catch_pointer P (Class_Type G) (To (Class_Type F)) p = Some q"
      using that unfolding cast by (auto split: option.splits)
    then show ?thesis using that(2) unfolding catch_class_Some by (auto split: if_splits)
  qed
  from found [OF assms] have D: "subobject_at P C a D y \<longleftrightarrow> y = x" for y
    using subobject_unique by blast
  have "subobject_at P D x E q" if "dp_cast P (To (Class_Type E)) (dp_of_pointer (Class_Type D) x) = q" "q \<noteq> 0" for q
    using found [OF that] subobject_unique by blast
  then have "dp_cast P (To (Class_Type E)) (dp_of_pointer (Class_Type D) x) \<noteq> 0 \<longrightarrow>
      subobject_at P C a E (dp_cast P (To (Class_Type E)) (dp_of_pointer (Class_Type D) x))"
    using D subobject_at_trans by blast
  moreover have "dp_cast P U (dp_of_pointer (Scalar_Type n) a) = 0" if "U \<noteq> To (Scalar_Type n)" "U \<noteq> Void" for n
    using that by (cases U) (auto simp: dp_cast_def caster_def dp_of_pointer_def)
  ultimately show ?thesis using D by (simp add: dp_cast_def caster_def dp_of_pointer_def)
qed

text \<open>A class with two bases that share a base: 0 and 1 and 2 derived from 0, 3 from 1 and 2.\<close>

definition diamond :: hierarchy where
  "diamond = [[], [\<lparr>base_class = 0, public_base = True, base_offset = 0\<rparr>], [\<lparr>base_class = 0, public_base = True, base_offset = 8\<rparr>],
    [\<lparr>base_class = 1, public_base = True, base_offset = 0\<rparr>, \<lparr>base_class = 2, public_base = True, base_offset = 16\<rparr>]]"

lemma diamond_subobjects:
  "subobjects diamond 0 = [(0, True, 0)]" "subobjects diamond 1 = [(1, True, 0), (0, True, 0)]"
  "subobjects diamond 2 = [(2, True, 0), (0, True, 8)]"
  "subobjects diamond 3 = [(3, True, 0), (1, True, 0), (0, True, 0), (2, True, 16), (0, True, 24)]"
proof -
  have b: "bases diamond 0 = []" "bases diamond 1 = [\<lparr>base_class = 0, public_base = True, base_offset = 0\<rparr>]"
    "bases diamond 2 = [\<lparr>base_class = 0, public_base = True, base_offset = 8\<rparr>]"
    "bases diamond 3 = [\<lparr>base_class = 1, public_base = True, base_offset = 0\<rparr>, \<lparr>base_class = 2, public_base = True, base_offset = 16\<rparr>]"
    by (simp_all add: bases_def diamond_def)
  show 0: "subobjects diamond 0 = [(0, True, 0)]" by (subst subobjects.simps) (simp add: b)
  show 1: "subobjects diamond 1 = [(1, True, 0), (0, True, 0)]" by (subst subobjects.simps) (simp only: b, simp add: 0)
  show 2: "subobjects diamond 2 = [(2, True, 0), (0, True, 8)]" by (subst subobjects.simps) (simp only: b, simp add: 0)
  show "subobjects diamond 3 = [(3, True, 0), (1, True, 0), (0, True, 0), (2, True, 16), (0, True, 24)]"
    using 1 by (subst subobjects.simps) (simp only: b, simp add: 2)
qed

lemma dp_cast_sound_witness:
  "subobject_at diamond 3 4096 2 4112 \<and> dp_cast diamond (To (Class_Type 0)) (dp_of_pointer (Class_Type 3) 4096) = 0 \<and>
   subobject_at diamond 3 4096 0 4120"
proof -
  have c: "dp_cast diamond (To (Class_Type 2)) (dp_of_pointer (Class_Type 3) 4096) = 4112"
    "dp_cast diamond (To (Class_Type 0)) (dp_of_pointer (Class_Type 2) 4112) = 4120"
    "dp_cast diamond (To (Class_Type 0)) (dp_of_pointer (Class_Type 3) 4096) = 0"
    by (simp_all add: dp_cast_def caster_def dp_of_pointer_def diamond_subobjects)
  from dp_cast_sound [OF c(1), of 0] show ?thesis using c by simp
qed

text \<open>
  Which casts succeed. A pointer to a class that has exactly one subobject of class \<open>D\<close>, by
  public inheritance, is cast to it; with none, or more than one, or by another inheritance, the
  result is null. Copying a \<open>dynamic_ptr\<close> that is not \<^verbatim>\<open>const\<close> does not copy it: the new one points to
  the old one, and no cast to a class gives its object.
\<close>

theorem dp_cast_complete:
  assumes "a \<noteq> 0"
  shows "dp_cast P (To (Class_Type D)) (dp_of_pointer (Class_Type C) a) =
      (case filter (\<lambda>z. fst z = D) (subobjects P C) of [(_, True, off)] \<Rightarrow> a + off | _ \<Rightarrow> 0) \<and>
    (\<forall>d b. dp_cast P U (dp_copy True b d) = dp_cast P U d \<and> dp_cast P (To (Class_Type C)) (dp_copy False b d) = 0)"
proof -
  have "dp_cast P (To (Class_Type D)) (dp_of_pointer (Class_Type C) a) = (case catch_pointer P (Class_Type C) (To (Class_Type D)) a of
      Some out \<Rightarrow> out | None \<Rightarrow> 0)"
    by (simp only: dp_cast_def caster_def dp_of_pointer_def dynamic_ptr.simps prod.case)
  moreover have "dp_cast P (To (Class_Type C)) (dp_copy False b d) = 0" for b d
    by (simp add: dp_cast_def caster_def dp_copy_def dp_of_reference_def dp_of_pointer_def)
  ultimately show ?thesis using assms unfolding catch_class
    by (auto simp: dp_copy_def split: list.splits prod.splits bool.splits)
qed

lemma dp_cast_complete_witness:
  "dp_cast diamond (To (Class_Type 1)) (dp_of_pointer (Class_Type 3) 4096) = 4096 \<and>
   dp_cast diamond (To (Class_Type 3)) (dp_copy False 64 (dp_of_pointer (Class_Type 3) 4096)) = 0"
  using dp_cast_complete [of 4096 diamond 1 3] dp_cast_complete [of 4096 diamond 3 3] by (simp add: diamond_subobjects)

end
