(* ===== verification/Test_Assert.thy ===== *)
theory Test_Assert
  imports Test_Report
begin

text \<open>
  The assertions of the library under its build flags: the \<^verbatim>\<open>#ifdef\<close>s of \<^verbatim>\<open>src/output.h\<close> and \<^verbatim>\<open>src/cases.h\<close>,
  \<open>V\<close> and \<open>TypeName\<close>, and the functions of the test runner (\<^verbatim>\<open>src/cases.h\<close>, \<^verbatim>\<open>src/cases.hpp\<close>) with the
  messages of their failed assertions and system calls, of which \<open>Test_Case\<close> and \<open>Test_Report\<close> only
  say that they abort. What the compiler gives for \<^verbatim>\<open>__PRETTY_FUNCTION__\<close> and the texts of \<^verbatim>\<open>strerror\<close> are arguments.

  The system calls other than \<^verbatim>\<open>read\<close> and \<^verbatim>\<open>waitpid\<close> succeed, as in \<open>Test_Report\<close>.
  The conditions of the assertions have no effects here, so it is not observed that a build without
  \<^verbatim>\<open>CAUTIOUS\<close> does not evaluate them.
\<close>

section \<open>Builds\<close>

text \<open>The macros that are defined after the beginning of \<^verbatim>\<open>output.h\<close>, from those given to the compiler.\<close>

definition configured :: "string set \<Rightarrow> string set" where
  "configured D = D \<union> (if ''NVERBOSE'' \<in> D then {} else {''VERBOSE''})
     \<union> (if ''NDEBUG'' \<in> D then {} else {''DEBUG''}) \<union> (if ''NCAUTIOUS'' \<in> D then {} else {''CAUTIOUS''})"

text \<open>
  \<^verbatim>\<open>D(channel) << ...\<close>, which is \<^verbatim>\<open>P\<close> or the disabled stream \<^verbatim>\<open>if(false) std::cftl << ...\<close>: then the text is not
  even evaluated. A text may be a fault itself (\<open>V\<close>).
\<close>

definition d_say :: "string set \<Rightarrow> channel \<Rightarrow> string \<Rightarrow> nat \<Rightarrow> fault + string \<Rightarrow> (unit, 'm) run" where
  "d_say D c file line t =
     (if ''DEBUG'' \<in> D then bind_run (lift_res t) (say c file line) else return_run ())"

text \<open>\<open>EXPECT\<close> and \<open>ASSERT\<close> of \<^verbatim>\<open>output.h\<close>, and the \<open>ASSERT\<close> that \<^verbatim>\<open>cases.h\<close> puts in its place.\<close>

definition expect_in :: "string set \<Rightarrow> bool \<Rightarrow> string \<Rightarrow> fault + string \<Rightarrow> string \<Rightarrow> nat \<Rightarrow> (unit, 'm) run" where
  "expect_in D b condition extra file line = (if b then return_run ()
     else d_say D BRK file line (bind_res extra (\<lambda>t. Inr (failed_assertion condition t))))"

definition assert_in :: "string set \<Rightarrow> bool \<Rightarrow> string \<Rightarrow> fault + string \<Rightarrow> string \<Rightarrow> nat \<Rightarrow> (unit, 'm) run" where
  "assert_in D b condition extra file line =
     (if ''CAUTIOUS'' \<in> D then expect_in D b condition extra file line else return_run ())"

definition case_assert :: "string set \<Rightarrow> bool \<Rightarrow> string \<Rightarrow> fault + string \<Rightarrow> string \<Rightarrow> nat \<Rightarrow> (unit, 'm) run" where
  "case_assert D b condition extra file line =
     (if ''CAUTIOUS'' \<in> D
      then if b then return_run () else d_say D FTL file line (bind_res extra (\<lambda>t. Inr (failed_assertion condition t)))
      else assert_in D b condition extra file line)"

text \<open>\<open>TypeName\<close> skips what it takes for the beginning of the function's name; \<open>V\<close>.\<close>

definition type_prefix :: string where
  "type_prefix = ''const char *logging::TypeName(const Type &) ''"

definition type_name :: "string \<Rightarrow> fault + string" where
  "type_name pretty = (if length type_prefix \<le> length pretty then Inr (drop (length type_prefix) pretty) else Inl Out_Of_Bounds)"

definition v_text :: "string \<Rightarrow> string \<Rightarrow> string \<Rightarrow> fault + string" where
  "v_text pretty var shown = bind_res (type_name pretty) (\<lambda>t. Inr (t @ var @ '' = '' @ shown @ '' ''))"

section \<open>The test runner\<close>

text \<open>\<open>Num\<close> and \<open>ArgName\<close>.\<close>

definition num_text :: "'v test_case \<Rightarrow> string" where
  "num_text c = versus (show_int (int (args_num (args c)))) (show_int (int (length (arg_names c)))) ''Wrong number of argument names!''"

definition num_in :: "string set \<Rightarrow> string \<Rightarrow> 'v test_case \<Rightarrow> (nat, 'm) run" where
  "num_in D file c = bind_run
     (case_assert D (args_num (args c) = length (arg_names c)) ''(_args.Num()) == (_arg_names.size())'' (Inr (num_text c)) file 97)
     (\<lambda>_. return_run (args_num (args c)))"

definition arg_name_in :: "string set \<Rightarrow> string \<Rightarrow> string \<Rightarrow> nat \<Rightarrow> 'v test_case \<Rightarrow> (string, 'm) run" where
  "arg_name_in D pretty file i c = bind_run
     (case_assert D (i < length (arg_names c)) ''i >= 0 && _arg_names.size() > i'' (v_text pretty ''i'' (show_int (int i))) file 101)
     (\<lambda>_. if i < length (arg_names c) then return_run (arg_names c ! i) else fail_run Out_Of_Bounds)"

text \<open>
  \<open>Flush\<close>: \<^verbatim>\<open>read\<close> gives bytes or an error number; 11 is \<^verbatim>\<open>EAGAIN\<close>. Where the assertion lets another error
  pass, \<^verbatim>\<open>fwrite\<close> is asked for \<^verbatim>\<open>(size_t)-1\<close> bytes of a block of 4096.
\<close>

definition flush_text :: "nat \<Rightarrow> int \<Rightarrow> string \<Rightarrow> string" where
  "flush_text i err message = ''Failed to read from child '' @ show_int (int i) @ '' pipe: ('' @ show_int err @ '')'' @ message"

fun flush_in :: "string set \<Rightarrow> string \<Rightarrow> (int \<Rightarrow> string) \<Rightarrow> test_process \<Rightarrow> (int + string) list \<Rightarrow> (test_process, 'm) run" where
  "flush_in D file strerror p [] = (\<lambda>w. None)"
| "flush_in D file strerror p (Inl err # es) = (if err = 11 then flush_in D file strerror p es
     else bind_run (case_assert D False ''r > 0'' (Inr (flush_text (tp_i p) err (strerror err))) file 62) (\<lambda>_. fail_run Out_Of_Bounds))"
| "flush_in D file strerror p (Inr s # es) = (if s = [] then return_run p
     else flush_in D file strerror (p\<lparr>buf := buf p @ s\<rparr>) es)"

text \<open>\<open>Begin\<close> and \<open>Finish\<close>, with \<open>ArgName\<close> in this build.\<close>

definition begin_in :: "string set \<Rightarrow> string \<Rightarrow> string \<Rightarrow> string \<Rightarrow> nat \<Rightarrow> 'v test_case \<Rightarrow> (unit, 'm) run" where
  "begin_in D pretty file name i c = bind_run (put_raw [newline]) (\<lambda>_. bind_run (arg_name_in D pretty file i c) (\<lambda>argn.
     say OUT file 93 (begin_text name argn)))"

definition finish_in ::
  "string set \<Rightarrow> string \<Rightarrow> (64 word \<Rightarrow> string) \<Rightarrow> string \<Rightarrow> string \<Rightarrow> test_process \<Rightarrow> result \<Rightarrow> 'v test_case \<Rightarrow> (result, 'm) run" where
  "finish_in D pretty ms file name p r c = bind_run (arg_name_in D pretty file (tp_i p) c) (\<lambda>argn.
     bind_run (say (case r of SUCCESS \<Rightarrow> OUT | RUNNING \<Rightarrow> FTL | _ \<Rightarrow> ERR) file (finish_line r) (finish_text ms name argn p r (expected c)))
       (\<lambda>_. return_run r))"

text \<open>
  \<open>WaitPid\<close>: \<open>parent\<close> is \<open>TestRun::Parent()\<close>, \<open>ret\<close> what \<^verbatim>\<open>waitpid\<close> returned, with the error number \<open>err\<close>.
\<close>

definition wrong_child :: "string \<Rightarrow> int \<Rightarrow> int \<Rightarrow> fault + string" where
  "wrong_child pretty reaped p = bind_res (v_text pretty ''reaped'' (show_int reaped)) (\<lambda>a.
     bind_res (v_text pretty ''child.pid'' (show_int p)) (\<lambda>b. Inr (''Reaped wrong child!  '' @ a @ b)))"

definition wait_in ::
  "string set \<Rightarrow> string \<Rightarrow> (int \<Rightarrow> string) \<Rightarrow> (64 word \<Rightarrow> string) \<Rightarrow> string \<Rightarrow> string \<Rightarrow> bool \<Rightarrow> int \<Rightarrow>
    test_process \<Rightarrow> 32 word \<Rightarrow> int \<Rightarrow> 64 word \<Rightarrow> 'v test_case \<Rightarrow> (test_process \<times> result, 'm) run" where
  "wait_in D pretty strerror ms file name parent err p ret st n c =
    bind_run (case_assert D parent ''TestRun::Parent()'' (Inr []) file 69) (\<lambda>_.
    bind_run (sys_call ''waitpid'' file 71 (C_Int ret) err (strerror err)) (\<lambda>_.
    let reaped = sint ret; p = p\<lparr>status := (if reaped = 0 then status p else st), usecs := n - start c\<rparr> in
    if reaped = 0 \<and> usecs p < timeout c * us_per_second then return_run (p, RUNNING)
    else bind_run (if reaped = 0 then return_run () else case_assert D (reaped = pid p) ''reaped == child.pid'' (wrong_child pretty reaped (pid p)) file 75) (\<lambda>_.
      bind_run (begin_in D pretty file name (tp_i p) c) (\<lambda>_.
      auto_scope (return_run ()) (bind_run (put_raw (buf p)) (\<lambda>_. bind_run
        (finish_in D pretty ms file name p (if reaped = 0 then TIMEOUT else if status p \<noteq> expected c then FAILURE else SUCCESS) c)
        (\<lambda>r. return_run (p, r))))))))"

section \<open>What assertions do\<close>

text \<open>In the build without flags they are those of the other theories.\<close>

abbreviation default_build :: "string set" where "default_build \<equiv> configured {}"

lemma default_build: "''DEBUG'' \<in> default_build" "''CAUTIOUS'' \<in> default_build"
  by (simp_all add: configured_def)

lemma assert_default: "assert_in default_build b condition (Inr extra) file line = expect_that b condition extra file line"
  by (rule ext) (simp add: assert_in_def expect_in_def d_say_def default_build expect_that_def bind_run_def lift_res_def)

definition checked :: "string set \<Rightarrow> bool" where
  "checked D \<longleftrightarrow> ''DEBUG'' \<in> D \<and> ''CAUTIOUS'' \<in> D"

text \<open>A message on \<open>FTL\<close> is the last thing a process prints.\<close>

definition fatal :: "string \<Rightarrow> nat \<Rightarrow> string \<Rightarrow> 'm world_scheme \<Rightarrow> 'm world_scheme" where
  "fatal file line t w = w\<lparr>printed := printed w @ said FTL file line t (env.truncate w)\<rparr>"

lemma case_assert_true: "case_assert D True condition extra file line w = Some (Inr (), w)"
  by (simp add: case_assert_def assert_in_def expect_in_def return_run_def)

lemma case_assert_false:
  assumes "printable m w" "line < 10000"
  shows "case_assert D False condition (Inr t) file line w =
    (if checked D then Some (Inl Aborted, fatal file line (failed_assertion condition t) w) else Some (Inr (), w))"
  using say_aborts [OF printable_line [OF assms], of "file" "failed_assertion condition t"]
  by (auto simp: case_assert_def assert_in_def expect_in_def d_say_def checked_def return_run_def bind_run_def lift_res_def fatal_def)

lemma type_name_ok: "length type_prefix \<le> length pretty \<Longrightarrow> \<exists>t. v_text pretty var shown = Inr t"
  by (simp add: v_text_def type_name_def)

text \<open>The names that \<open>V\<close> prints with the compilers clang and gcc: the latter spells the function without the blank.\<close>

lemma type_name_compilers:
  "type_name (''const char *logging::TypeName(const Type &) '' @ ''[Type = int]'') = Inr ''[Type = int]''"
  "type_name (''const char* logging::TypeName(const Type&) '' @ ''[with Type = int]'') = Inr ''with Type = int]''"
  by (simp_all add: type_name_def type_prefix_def)

lemma num_in_spec:
  assumes "printable m w"
  shows "num_in D file c w = (if case_num c = Inl Aborted \<and> checked D
    then Some (Inl Aborted, fatal file 97 (failed_assertion ''(_args.Num()) == (_arg_names.size())'' (num_text c)) w)
    else Some (Inr (args_num (args c)), w))"
  by (cases "args_num (args c) = length (arg_names c)")
    (simp_all add: num_in_def case_num_def bind_run_def case_assert_true case_assert_false [OF assms] return_run_def)

lemma arg_name_in_some: "case_arg_name i c = Inr a \<Longrightarrow> arg_name_in D pretty file i c = lift_res (case_arg_name i c)"
  by (rule ext) (auto simp: arg_name_in_def case_arg_name_def bind_run_def case_assert_true return_run_def lift_res_def split: if_splits)

lemma arg_name_in_none:
  assumes "printable m w" "case_arg_name i c = Inl f" "v_text pretty ''i'' (show_int (int i)) = Inr t"
  shows "arg_name_in D pretty file i c w = (if checked D
    then Some (Inl Aborted, fatal file 101 (failed_assertion ''i >= 0 && _arg_names.size() > i'' t) w)
    else Some (Inl Out_Of_Bounds, w))"
proof -
  have i: "\<not> i < length (arg_names c)" using assms(2) by (simp add: case_arg_name_def split: if_splits)
  show ?thesis by (simp add: arg_name_in_def i assms(3) bind_run_def case_assert_false [OF assms(1)] fail_run_def)
qed

lemma in_range_builds:
  assumes "case_arg_name (tp_i p) c = Inr a"
  shows "begin_in D pretty file name (tp_i p) c = begin_case file name (tp_i p) c"
    and "finish_in D pretty ms file name p r c = finish_report ms file name p r c"
  by (simp_all add: begin_in_def begin_case_def finish_in_def finish_report_def arg_name_in_some [OF assms])

text \<open>What \<open>Flush\<close> reads, as events of \<open>Test_Case\<close>.\<close>

fun pipe_read :: "int + string \<Rightarrow> pipe_event" where
  "pipe_read (Inl err) = (if err = 11 then Again else Pipe_Error)"
| "pipe_read (Inr s) = Data s"

lemma flush_in_spec:
  assumes "printable m w"
  shows "case flush_child p (map pipe_read es) of
      None \<Rightarrow> flush_in D file strerror p es w = None
    | Some (Inr q) \<Rightarrow> flush_in D file strerror p es w = Some (Inr q, w)
    | Some (Inl f) \<Rightarrow> (\<exists>err. Inl err \<in> set es \<and> flush_in D file strerror p es w = (if checked D
        then Some (Inl Aborted, fatal file 62 (failed_assertion ''r > 0'' (flush_text (tp_i p) err (strerror err))) w)
        else Some (Inl Out_Of_Bounds, w)))"
proof (induction es arbitrary: p)
  case (Cons e es)
  show ?case
  proof (cases e)
    case (Inl err)
    show ?thesis
    proof (cases "err = 11")
      case True
      then show ?thesis using Cons [of p] Inl by (auto split: option.splits sum.splits)
    next
      case False
      then show ?thesis using Inl by (auto simp: bind_run_def case_assert_false [OF assms] fail_run_def)
    qed
  next
    case (Inr s)
    then show ?thesis using Cons [of "p\<lparr>buf := buf p @ s\<rparr>"]
      by (auto simp: return_run_def split: option.splits sum.splits)
  qed
qed simp

lemma wait_in_start:
  assumes "0 \<le> sint ret"
  shows "wait_in D pretty strerror ms file name True err p ret st n c w =
    (let reaped = sint ret; p = p\<lparr>status := (if reaped = 0 then status p else st), usecs := n - start c\<rparr> in
    if reaped = 0 \<and> usecs p < timeout c * us_per_second then return_run (p, RUNNING)
    else bind_run (if reaped = 0 then return_run () else case_assert D (reaped = pid p) ''reaped == child.pid'' (wrong_child pretty reaped (pid p)) file 75) (\<lambda>_.
      bind_run (begin_in D pretty file name (tp_i p) c) (\<lambda>_.
      auto_scope (return_run ()) (bind_run (put_raw (buf p)) (\<lambda>_. bind_run
        (finish_in D pretty ms file name p (if reaped = 0 then TIMEOUT else if status p \<noteq> expected c then FAILURE else SUCCESS) c)
        (\<lambda>r. return_run (p, r))))))) w"
  using assms by (simp add: wait_in_def bind_run_def case_assert_true sys_call_def return_run_def)

lemma wait_in_report:
  assumes "0 \<le> sint ret" "sint ret = 0 \<or> sint ret = pid p" "case_arg_name (tp_i p) c = Inr argn"
  shows "wait_in D pretty strerror ms file name True err p ret st n c w = wait_report ms file name p (sint ret) st n c w"
proof -
  let ?p = "p\<lparr>status := (if sint ret = 0 then status p else st), usecs := n - start c\<rparr>"
  have a: "case_arg_name (tp_i ?p) c = Inr argn" using assms(3) by simp
  show ?thesis using assms
    by (auto simp: wait_in_start [OF assms(1)] wait_report_def Let_def bind_run_def [where m = "return_run ()"]
      bind_run_def [where m = "case_assert _ _ _ _ _ _"] case_assert_true return_run_def in_range_builds [OF a, simplified])
qed

lemma wait_in_wrong:
  assumes room: "printable 126 w" and ret: "0 < sint ret" "sint ret \<noteq> pid p" and argn: "case_arg_name (tp_i p) c = Inr argn"
    and msg: "wrong_child pretty (sint ret) (pid p) = Inr t"
  shows "\<exists>v. wait_in D pretty strerror ms file name True err p ret st n c w = (if checked D
      then Some (Inl Aborted, fatal file 75 (failed_assertion ''reaped == child.pid'' t) w)
      else Some (Inr (p\<lparr>status := st, usecs := n - start c\<rparr>, if st \<noteq> expected c then FAILURE else SUCCESS), v))"
proof (cases "checked D")
  case True
  then show ?thesis using ret case_assert_false [OF room, of 75 D] msg
    by (simp add: wait_in_start Let_def bind_run_def)
next
  case False
  let ?p = "p\<lparr>status := st, usecs := n - start c\<rparr>"
  have a: "case_arg_name (tp_i ?p) c = Inr argn" using argn by simp
  have "case_assert D False ''reaped == child.pid'' (wrong_child pretty (sint ret) (pid p)) file 75 w = Some (Inr (), w)"
    using case_assert_false [OF room, of 75 D] msg False by simp
  then show ?thesis
    using False ret report_exec [OF room a, of "if st \<noteq> expected c then FAILURE else SUCCESS" "file" name ms]
    by (simp add: wait_in_start Let_def bind_run_def [where m = "case_assert _ _ _ _ _ _"] in_range_builds [OF a, simplified])
qed

lemma wait_in_aborts:
  assumes room: "printable 126 w"
  shows "checked D \<Longrightarrow> wait_in D pretty strerror ms file name False err p ret st n c w =
      Some (Inl Aborted, fatal file 69 (failed_assertion ''TestRun::Parent()'' []) w)"
    and "sint ret < 0 \<Longrightarrow> wait_in D pretty strerror ms file name True err p ret st n c w =
      Some (Inl Aborted, fatal file 71 (syscall_text ''waitpid'' err (strerror err)) w)"
  using case_assert_false [OF room, of 69 D] say_aborts [OF printable_line [OF room], of 71]
  by (simp_all add: wait_in_def bind_run_def case_assert_true sys_call_def fatal_def)

section \<open>Property\<close>

text \<open>
  C24: the test runner under its build flags. With \<^verbatim>\<open>DEBUG\<close> and \<^verbatim>\<open>CAUTIOUS\<close> defined, as they are by default, each assertion that
  fails is reported on \<open>FTL\<close> with its condition and its values and ends the process, exactly where the model of the runner aborts;
  otherwise its functions are those of the model. In a build with \<^verbatim>\<open>NDEBUG\<close> or \<^verbatim>\<open>NCAUTIOUS\<close> nothing is checked: a wrong
  number of names is not noticed, a name that is missing and an unreadable pipe are read out of bounds, and the status of another
  child is taken for that of the own. A failed \<^verbatim>\<open>waitpid\<close> aborts in every build.
\<close>

theorem assertion_builds:
  assumes room: "printable 126 w" and pretty: "length type_prefix \<le> length pretty"
  shows "checked (configured {}) \<and> (\<forall>F. checked (configured F) \<or> ''NDEBUG'' \<in> F \<or> ''NCAUTIOUS'' \<in> F) \<and>
    num_in D file c w = (if case_num c = Inl Aborted \<and> checked D
      then Some (Inl Aborted, fatal file 97 (failed_assertion ''(_args.Num()) == (_arg_names.size())'' (num_text c)) w)
      else Some (Inr (args_num (args c)), w)) \<and>
    (\<forall>i. case case_arg_name i c of
        Inr a \<Rightarrow> arg_name_in D pretty file i c w = Some (Inr a, w)
      | Inl _ \<Rightarrow> (\<exists>t. v_text pretty ''i'' (show_int (int i)) = Inr t \<and> arg_name_in D pretty file i c w = (if checked D
          then Some (Inl Aborted, fatal file 101 (failed_assertion ''i >= 0 && _arg_names.size() > i'' t) w)
          else Some (Inl Out_Of_Bounds, w)))) \<and>
    (case flush_child p (map pipe_read es) of
        None \<Rightarrow> flush_in D file strerror p es w = None
      | Some (Inr q) \<Rightarrow> flush_in D file strerror p es w = Some (Inr q, w)
      | Some (Inl _) \<Rightarrow> (\<exists>err. Inl err \<in> set es \<and> flush_in D file strerror p es w = (if checked D
          then Some (Inl Aborted, fatal file 62 (failed_assertion ''r > 0'' (flush_text (tp_i p) err (strerror err))) w)
          else Some (Inl Out_Of_Bounds, w)))) \<and>
    (sint ret < 0 \<longrightarrow> wait_in D pretty strerror ms file name True err p ret st n c w =
      Some (Inl Aborted, fatal file 71 (syscall_text ''waitpid'' err (strerror err)) w)) \<and>
    (\<forall>a. case_arg_name (tp_i p) c = Inr a \<longrightarrow>
      (0 \<le> sint ret \<and> (sint ret = 0 \<or> sint ret = pid p) \<longrightarrow>
        wait_in D pretty strerror ms file name True err p ret st n c w = wait_report ms file name p (sint ret) st n c w) \<and>
      (0 < sint ret \<and> sint ret \<noteq> pid p \<longrightarrow>
        (\<exists>t v. wrong_child pretty (sint ret) (pid p) = Inr t \<and>
          wait_in D pretty strerror ms file name True err p ret st n c w = (if checked D
            then Some (Inl Aborted, fatal file 75 (failed_assertion ''reaped == child.pid'' t) w)
            else Some (Inr (p\<lparr>status := st, usecs := n - start c\<rparr>, if st \<noteq> expected c then FAILURE else SUCCESS), v)))))"
proof (intro conjI allI impI)
  show "checked (configured {})" "checked (configured F) \<or> ''NDEBUG'' \<in> F \<or> ''NCAUTIOUS'' \<in> F" for F
    by (simp_all add: checked_def configured_def)
  show "num_in D file c w = (if case_num c = Inl Aborted \<and> checked D
      then Some (Inl Aborted, fatal file 97 (failed_assertion ''(_args.Num()) == (_arg_names.size())'' (num_text c)) w)
      else Some (Inr (args_num (args c)), w))" by (rule num_in_spec [OF room])
  show "case case_arg_name i c of
        Inr a \<Rightarrow> arg_name_in D pretty file i c w = Some (Inr a, w)
      | Inl _ \<Rightarrow> (\<exists>t. v_text pretty ''i'' (show_int (int i)) = Inr t \<and> arg_name_in D pretty file i c w = (if checked D
          then Some (Inl Aborted, fatal file 101 (failed_assertion ''i >= 0 && _arg_names.size() > i'' t) w)
          else Some (Inl Out_Of_Bounds, w)))" for i
  proof (cases "case_arg_name i c")
    case (Inl f)
    obtain t where "v_text pretty ''i'' (show_int (int i)) = Inr t" using type_name_ok [OF pretty] by blast
    then show ?thesis using arg_name_in_none [OF room Inl] Inl by auto
  next
    case (Inr a)
    then show ?thesis by (simp add: arg_name_in_some [OF Inr] lift_res_def)
  qed
  show "case flush_child p (map pipe_read es) of
        None \<Rightarrow> flush_in D file strerror p es w = None
      | Some (Inr q) \<Rightarrow> flush_in D file strerror p es w = Some (Inr q, w)
      | Some (Inl _) \<Rightarrow> (\<exists>err. Inl err \<in> set es \<and> flush_in D file strerror p es w = (if checked D
          then Some (Inl Aborted, fatal file 62 (failed_assertion ''r > 0'' (flush_text (tp_i p) err (strerror err))) w)
          else Some (Inl Out_Of_Bounds, w)))" by (rule flush_in_spec [OF room])
  show "wait_in D pretty strerror ms file name True err p ret st n c w =
      Some (Inl Aborted, fatal file 71 (syscall_text ''waitpid'' err (strerror err)) w)" if "sint ret < 0"
    by (rule wait_in_aborts(2) [OF room that])
next
  fix a
  assume a: "case_arg_name (tp_i p) c = Inr a"
  show "wait_in D pretty strerror ms file name True err p ret st n c w = wait_report ms file name p (sint ret) st n c w"
    if "0 \<le> sint ret \<and> (sint ret = 0 \<or> sint ret = pid p)" using wait_in_report that a by blast
  show "\<exists>t v. wrong_child pretty (sint ret) (pid p) = Inr t \<and>
      wait_in D pretty strerror ms file name True err p ret st n c w = (if checked D
        then Some (Inl Aborted, fatal file 75 (failed_assertion ''reaped == child.pid'' t) w)
        else Some (Inr (p\<lparr>status := st, usecs := n - start c\<rparr>, if st \<noteq> expected c then FAILURE else SUCCESS), v))"
    if ret: "0 < sint ret \<and> sint ret \<noteq> pid p"
  proof -
    obtain t where t: "wrong_child pretty (sint ret) (pid p) = Inr t"
      using type_name_ok [OF pretty] by (metis bind_res.simps(2) wrong_child_def)
    then show ?thesis using wait_in_wrong [OF room _ _ a t] ret by blast
  qed
qed

text \<open>A case with one row and no name, built by clang with \<^verbatim>\<open>NDEBUG\<close> and without.\<close>

theorem assertion_builds_witness:
  "num_in (configured {''NDEBUG''}) ''cases.h'' (new_case 0 :: nat test_case) quiet_world = Some (Inr 1, quiet_world) \<and>
    (\<exists>v. num_in (configured {}) ''cases.h'' (new_case 0 :: nat test_case) quiet_world = Some (Inl Aborted, v))"
proof -
  have room: "printable 126 quiet_world" by (simp add: quiet_world_printable)
  have "length type_prefix \<le> length (type_prefix @ ''[Type = int]'')" by simp
  note t = assertion_builds [OF room this, where c = "new_case 0 :: nat test_case", THEN conjunct2, THEN conjunct2, THEN conjunct1]
  have "checked (configured {})" "\<not> checked (configured {''NDEBUG''})" by (simp_all add: checked_def configured_def)
  moreover have "case_num (new_case 0 :: nat test_case) = Inl Aborted" "args_num (args (new_case 0 :: nat test_case)) = 1"
    by (simp_all add: case_num_def new_case_def args_num_def)
  ultimately show ?thesis using t [of "configured {''NDEBUG''}" "''cases.h''"] t [of "configured {}" "''cases.h''"] by simp
qed

end
