(* ===== verification/Test_Wait.thy ===== *)
theory Test_Wait
  imports Test_Report
begin

text \<open>
  \<open>WaitAll\<close> of \<^verbatim>\<open>src/cases.hpp\<close> with its output: each visit of a child flushes its pipe and waits for it,
  and what \<open>WaitPid\<close> prints goes to the world. It refines \<open>wait_all\<close> of \<open>Test_Case\<close>.
\<close>

definition visit_report ::
  "(64 word \<Rightarrow> string) \<Rightarrow> string \<Rightarrow> string \<Rightarrow> test_process \<Rightarrow> visit \<Rightarrow> 'v test_case \<Rightarrow> (test_process \<times> result, 'm) run" where
  "visit_report ms file name p v c w = (case flush_child p (v_pipe v) of None \<Rightarrow> None
     | Some (Inl e) \<Rightarrow> Some (Inl e, w)
     | Some (Inr p) \<Rightarrow> wait_report ms file name p (v_reaped v) (v_status v) (v_now v) c w)"

fun wait_pass_report ::
  "(64 word \<Rightarrow> string) \<Rightarrow> string \<Rightarrow> string \<Rightarrow> test_process list \<Rightarrow> visit list \<Rightarrow> 'v test_case \<Rightarrow>
   (test_process list \<times> visit list, 'm) run" where
  "wait_pass_report ms file name [] vs c = return_run ([], vs)"
| "wait_pass_report ms file name (p # ps) [] c = (\<lambda>w. None)"
| "wait_pass_report ms file name (p # ps) (v # vs) c = bind_run (visit_report ms file name p v c) (\<lambda>(p, r).
     if r \<noteq> RUNNING then fail_run Bad_Iterator
     else bind_run (wait_pass_report ms file name ps vs c) (\<lambda>(ps, vs). return_run (p # ps, vs)))"

lemma wait_pass_report_shorter:
  "wait_pass_report ms src name ps vs c w = Some (Inr (qs, ws), u) \<Longrightarrow> length vs = length ps + length ws"
proof (induction ms src name ps vs c arbitrary: w qs ws u rule: wait_pass_report.induct)
  case (3 ms src name p ps v vs c)
  then show ?case by (fastforce simp: bind_run_Inr_iff run_simps split: if_splits)
qed (auto simp: run_simps)

function wait_all_report ::
  "(64 word \<Rightarrow> string) \<Rightarrow> string \<Rightarrow> string \<Rightarrow> visit list \<Rightarrow> 'v test_case \<Rightarrow> (bool, 'm) run" where
  "wait_all_report ms file name vs c w = (if children c = [] then Some (Inr True, w)
     else case wait_pass_report ms file name (children c) vs c w of None \<Rightarrow> None
       | Some (Inl e, w) \<Rightarrow> Some (Inl e, w)
       | Some (Inr (ps, vs), w) \<Rightarrow> wait_all_report ms file name vs (c\<lparr>children := ps\<rparr>) w)"
  by pat_completeness auto
termination
  by (relation "measure (\<lambda>(ms, src, name, vs, c, w). length vs)") (auto dest: wait_pass_report_shorter)

declare wait_all_report.simps [simp del]

section \<open>Visits\<close>

lemma flush_same:
  "flush_child p es = Some (Inr q) \<Longrightarrow> \<exists>s. q = p\<lparr>buf := buf p @ s\<rparr>"
proof (induction p es rule: flush_child.induct)
  case (2 p e es)
  show ?case
  proof (cases e)
    case (Data s)
    show ?thesis
    proof (cases "s = []")
      case False
      then obtain t where "q = p\<lparr>buf := buf p @ s, buf := buf (p\<lparr>buf := buf p @ s\<rparr>) @ t\<rparr>"
        using 2 Data by fastforce
      then show ?thesis by auto
    qed (use 2 Data in \<open>auto intro: exI [of _ "[]"]\<close>)
  qed (use 2 in \<open>auto intro: exI [of _ "[]"]\<close>)
qed simp

lemma wait_pid_buf: "wait_pid p reaped st n c = Inr (q, r) \<Longrightarrow> buf q = buf p"
  by (auto simp: wait_pid_def Let_def bind_res_Inr_iff split: if_splits)

lemma visit_value:
  assumes "printable 126 w"
  shows "map_option fst (visit_report ms src name p v c w) = visit_child p v c"
proof -
  have "\<exists>u. wait_report ms src name q (v_reaped v) (v_status v) (v_now v) c w =
      Some (wait_pid q (v_reaped v) (v_status v) (v_now v) c, u)" for q
    using wait_report_spec [OF assms] by blast
  then show ?thesis by (fastforce simp: visit_report_def visit_child_def split: option.splits sum.splits)
qed

lemma visit_running:
  assumes "visit_child p v c = Some (Inr (q, RUNNING))"
  shows "visit_report ms src name p v c w = Some (Inr (q, RUNNING), w)"
proof -
  obtain p' where f: "flush_child p (v_pipe v) = Some (Inr p')"
    and r: "wait_pid p' (v_reaped v) (v_status v) (v_now v) c = Inr (q, RUNNING)"
    using assms by (auto simp: visit_child_def split: option.splits sum.splits)
  have "v_reaped v = 0 \<and> v_now v - start c < timeout c * us_per_second \<and> q = p'\<lparr>usecs := v_now v - start c\<rparr>"
    using r by (auto simp: wait_pid_def Let_def bind_res_Inr_iff finish_def split: if_splits)
  then show ?thesis using f by (simp add: visit_report_def wait_report_def Let_def run_simps)
qed

lemma visit_ended:
  assumes "printable 126 w" "visit_child p v c = Some (Inr (q, r))" "r \<noteq> RUNNING" "case_arg_name (tp_i p) c = Inr argn"
  shows "visit_report ms src name p v c w =
    Some (Inr (q, r), w\<lparr>printed := printed w @ report_lines ms src name argn q r (expected c) (env.truncate w)\<rparr>)"
proof -
  obtain p' where f: "flush_child p (v_pipe v) = Some (Inr p')"
    and r: "wait_pid p' (v_reaped v) (v_status v) (v_now v) c = Inr (q, r)"
    using assms(2) by (auto simp: visit_child_def split: option.splits sum.splits)
  have "tp_i p' = tp_i p" using flush_same [OF f] by auto
  then show ?thesis
    using wait_report_spec [OF assms(1), of ms src name p' "v_reaped v" "v_status v" "v_now v" c] r f assms(3,4)
    by (auto simp: visit_report_def)
qed

section \<open>Passes\<close>

text \<open>The values are those of \<open>wait_pass\<close> and \<open>wait_all\<close>, and a pass that ends has printed nothing.\<close>

lemma pass_value:
  assumes "printable 126 w"
  shows "map_option fst (wait_pass_report ms src name ps vs c w) = wait_pass ps vs c \<and>
    (\<forall>x u. wait_pass_report ms src name ps vs c w = Some (Inr x, u) \<longrightarrow> u = w)"
proof (induction ps vs c rule: wait_pass.induct)
  case (3 p ps v vs c)
  have v: "map_option fst (visit_report ms src name p v c w) = visit_child p v c" by (rule visit_value [OF assms])
  consider (none) "visit_child p v c = None" | (fault) e where "visit_child p v c = Some (Inl e)"
    | (running) q where "visit_child p v c = Some (Inr (q, RUNNING))"
    | (ended) q r where "visit_child p v c = Some (Inr (q, r))" "r \<noteq> RUNNING"
    by (cases "visit_child p v c") (auto, metis sum.exhaust surj_pair)
  then show ?case
  proof cases
    case (running q)
    note IH = "3.IH" [OF running refl refl, simplified]
    have "wait_pass ps vs c = map_option fst (wait_pass_report ms src name ps vs c w)" using IH by simp
    then show ?thesis using IH [THEN conjunct2] running visit_running [OF running, of ms src name w]
      by (auto simp: bind_run_def return_run_def split: option.splits sum.splits)
  qed (use v in \<open>auto simp: bind_run_def fail_run_def split: option.splits sum.splits\<close>)
qed (simp_all add: run_simps)

lemma wait_all_value:
  assumes "printable 126 w"
  shows "map_option fst (wait_all_report ms src name vs c w) = wait_all vs c"
proof (induction vs c rule: wait_all.induct)
  case (1 vs c)
  note v = pass_value [OF assms, of ms src name "children c" vs c]
  show ?case
  proof (cases "children c = []")
    case True
    then show ?thesis by (simp add: wait_all.simps [of vs] wait_all_report.simps [of ms src name vs])
  next
    case False
    show ?thesis
    proof (cases "wait_pass_report ms src name (children c) vs c w")
      case None
      then show ?thesis using False v by (simp add: wait_all.simps [of vs] wait_all_report.simps [of ms src name vs])
    next
      case (Some a)
      obtain y u where a: "a = (y, u)" by (cases a)
      show ?thesis
      proof (cases y)
        case (Inl e)
        then have "wait_pass (children c) vs c = Some (Inl e)" using v Some a by simp
        then show ?thesis using False Some a Inl by (simp add: wait_all.simps [of vs] wait_all_report.simps [of ms src name vs])
      next
        case (Inr z)
        obtain ps ws where z: "z = (ps, ws)" by (cases z)
        have pass: "wait_pass (children c) vs c = Some (Inr (ps, ws))" "u = w" using v Some a Inr z by auto
        show ?thesis using "1.IH" [OF False pass(1) refl refl] False Some a Inr z pass
          by (simp add: wait_all.simps [of vs] wait_all_report.simps [of ms src name vs])
      qed
    qed
  qed
qed

lemma pass_runs:
  assumes "list_all2 (\<lambda>p v. \<exists>q. visit_child p v c = Some (Inr (q, RUNNING))) ps us"
  shows "\<exists>qs. wait_pass_report ms src name (ps @ p # ps') (us @ v # vs) c w =
    bind_run (wait_pass_report ms src name (p # ps') (v # vs) c) (\<lambda>(rs, vs). return_run (qs @ rs, vs)) w"
  using assms
proof (induction ps us rule: list_all2_induct)
  case Nil
  then show ?case by (intro exI [of _ "[]"]) (auto simp: bind_run_def return_run_def split: option.splits sum.splits)
next
  case (Cons p1 ps v1 us)
  obtain q where q: "visit_child p1 v1 c = Some (Inr (q, RUNNING))" using Cons(1) by blast
  obtain qs where "wait_pass_report ms src name (ps @ p # ps') (us @ v # vs) c w =
      bind_run (wait_pass_report ms src name (p # ps') (v # vs) c) (\<lambda>(rs, vs). return_run (qs @ rs, vs)) w"
    using Cons(3) by blast
  then show ?case using visit_running [OF q, of ms src name w]
    by (intro exI [of _ "q # qs"])
      (auto simp: bind_run_def return_run_def split: option.splits sum.splits simp del: wait_pass_report.simps(3)
        simp: wait_pass_report.simps(3) [of ms src name p1 "ps @ p # ps'" v1 "us @ v # vs" c])
qed

section \<open>Property\<close>

text \<open>
  Only one report. In a pass of \<open>WaitAll\<close> the children that are still running print nothing. The
  first one that has ended gets its full report: the beginning, exactly the bytes that it wrote to
  its pipe, in order, and the verdict. Then the erased iterator is incremented, and no report of
  another child ever follows. The result is always that of \<open>wait_all\<close>.
\<close>

theorem first_report_only:
  assumes "printable 126 w" "children c = ps @ p # ps'"
    "list_all2 (\<lambda>p v. \<exists>q. visit_child p v c = Some (Inr (q, RUNNING))) ps us"
    "visit_child p v c = Some (Inr (q, r))" "r \<noteq> RUNNING" "case_arg_name (tp_i p) c = Inr argn"
  shows "wait_all_report ms src name (us @ v # vs) c w = Some (Inl Bad_Iterator,
      w\<lparr>printed := printed w @ report_lines ms src name argn q r (expected c) (env.truncate w)\<rparr>) \<and>
    (v_pipe v = es @ End_Of_Pipe # es' \<and> set es \<subseteq> {Again} \<union> Data ` {s. s \<noteq> []} \<longrightarrow>
      buf q = buf p @ concat (map (\<lambda>e. case e of Data s \<Rightarrow> s | _ \<Rightarrow> []) es)) \<and>
    map_option fst (wait_all_report ms src name vs' c w) = wait_all vs' c"
proof (intro conjI impI)
  show "wait_all_report ms src name (us @ v # vs) c w = Some (Inl Bad_Iterator,
      w\<lparr>printed := printed w @ report_lines ms src name argn q r (expected c) (env.truncate w)\<rparr>)"
    using pass_runs [OF assms(3), of ms src name p ps' v vs w] visit_ended [OF assms(1,4-6), of ms src name] assms(2,5)
    by (auto simp: wait_all_report.simps [of ms src name "us @ v # vs"] run_simps)
  show "buf q = buf p @ concat (map (\<lambda>e. case e of Data s \<Rightarrow> s | _ \<Rightarrow> []) es)"
    if "v_pipe v = es @ End_Of_Pipe # es' \<and> set es \<subseteq> {Again} \<union> Data ` {s. s \<noteq> []}"
  proof -
    have "flush_child p (v_pipe v) = Some (Inr (p\<lparr>buf := buf p @ concat (map (\<lambda>e. case e of Data s \<Rightarrow> s | _ \<Rightarrow> []) es)\<rparr>))"
      using flush_until_end [of es p es' _ _ _ c, THEN conjunct2, THEN conjunct1] that by (simp only: simp_thms)
    then show ?thesis using assms(4) wait_pid_buf by (fastforce simp: visit_child_def)
  qed
  show "map_option fst (wait_all_report ms src name vs' c w) = wait_all vs' c" by (rule wait_all_value [OF assms(1)])
qed

text \<open>Two children, of which the first is still running and the second has written two characters.\<close>

definition two_children :: "nat test_case" where
  "two_children = case_fork 1 5 43 (case_fork 0 1 42 (case_name ''b'' (case_name ''a'' (new_case 1))))"

definition child_43 :: test_process where
  "child_43 = \<lparr>tp_i = 1, pid = 43, status = 0, usecs = 0, buf = []\<rparr>"

lemma two_children_simps:
  "children two_children = [\<lparr>tp_i = 0, pid = 42, status = 0, usecs = 0, buf = []\<rparr>] @ child_43 # []"
  "case_arg_name (tp_i child_43) two_children = Inr ''b''" "expected two_children = 0"
  "visit_child \<lparr>tp_i = 0, pid = 42, status = 0, usecs = 0, buf = []\<rparr> \<lparr>v_pipe = [End_Of_Pipe], v_reaped = 0, v_status = 0, v_now = 6\<rparr> two_children =
    Some (Inr (\<lparr>tp_i = 0, pid = 42, status = 0, usecs = 1, buf = []\<rparr>, RUNNING))"
  "visit_child child_43 \<lparr>v_pipe = [Data ''hi'', Again, End_Of_Pipe], v_reaped = 43, v_status = 0, v_now = 9\<rparr> two_children =
    Some (Inr (\<lparr>tp_i = 1, pid = 43, status = 0, usecs = 4, buf = ''hi''\<rparr>, SUCCESS))"
  by (simp_all add: two_children_def child_43_def case_fork_def case_name_def new_case_def insert_child_def case_arg_name_def
      visit_child_def wait_pid_def Let_def finish_simps us_per_second_def)

lemma first_report_only_witness:
  "wait_all_report (\<lambda>_. ''0.004'') ''t.cpp'' ''adds'' [\<lparr>v_pipe = [End_Of_Pipe], v_reaped = 0, v_status = 0, v_now = 6\<rparr>,
      \<lparr>v_pipe = [Data ''hi'', Again, End_Of_Pipe], v_reaped = 43, v_status = 0, v_now = 9\<rparr>] two_children quiet_world =
    Some (Inl Bad_Iterator, quiet_world\<lparr>printed := report_lines (\<lambda>_. ''0.004'') ''t.cpp'' ''adds'' ''b''
      \<lparr>tp_i = 1, pid = 43, status = 0, usecs = 4, buf = ''hi''\<rparr> SUCCESS 0 (env.truncate quiet_world)\<rparr>)"
proof -
  let ?v = "\<lparr>v_pipe = [End_Of_Pipe], v_reaped = 0, v_status = 0, v_now = 6\<rparr>"
  let ?p = "\<lparr>tp_i = 0, pid = 42, status = 0, usecs = 0, buf = []\<rparr>"
  have room: "printable 126 quiet_world" by (simp add: quiet_world_printable)
  have "list_all2 (\<lambda>p v. \<exists>q. visit_child p v two_children = Some (Inr (q, RUNNING))) [?p] [?v]"
    using two_children_simps(4) by simp
  from first_report_only [OF room two_children_simps(1) this two_children_simps(5) _ two_children_simps(2),
      of "\<lambda>_. ''0.004''" "''t.cpp''" "''adds''" "[]", THEN conjunct1]
  show ?thesis by (simp add: two_children_simps(3))
qed

end
