(* ===== verification/Socket_Setup.thy ===== *)
theory Socket_Setup
  imports Socket_IO Util
begin

text \<open>
  Sockets with their messages: the constructors, \<open>bind\<close>, what \<open>recv\<close>, \<open>send\<close>, \<open>listen\<close> and \<open>connect\<close> of
  \<^verbatim>\<open>src/socket.cpp\<close> print when they fail, and the remote address of a connection. The results of the
  system calls and the text of \<^verbatim>\<open>strerror\<close> are arguments.
\<close>

section \<open>Sockets\<close>

text \<open>The two constructors differ in the line of their message.\<close>

definition failed_text :: "string \<Rightarrow> string" where
  "failed_text err = ''Socket failed: '' @ err"

definition socket_create :: "string \<Rightarrow> nat \<Rightarrow> int option \<Rightarrow> string \<Rightarrow> fds \<Rightarrow> (int \<times> fds, 'm) run" where
  "socket_create file line fd err s w = (case fd of
       Some _ \<Rightarrow> Some (socket_new fd s, w)
     | None \<Rightarrow> bind_run (say FTL file line (failed_text err)) (\<lambda>_. lift_res (Inl Aborted)) w)"

definition tcp_socket :: "string \<Rightarrow> int option \<Rightarrow> string \<Rightarrow> fds \<Rightarrow> (int \<times> fds, 'm) run" where
  "tcp_socket file = socket_create file 75"

definition unix_socket :: "string \<Rightarrow> int option \<Rightarrow> string \<Rightarrow> fds \<Rightarrow> (int \<times> fds, 'm) run" where
  "unix_socket file = socket_create file 147"

section \<open>Binding\<close>

text \<open>A failed \<open>bind\<close> is a message on \<open>ERR\<close>; nothing is returned. The value here is the address passed on.\<close>

definition tcp_bind_address :: "int \<Rightarrow> sockaddr_in" where
  "tcp_bind_address port = \<lparr>s_addr = 0, sin_port = htons (word_of_int port)\<rparr>"

definition bind_text :: "string \<Rightarrow> int \<Rightarrow> string \<Rightarrow> string \<Rightarrow> string \<Rightarrow> string" where
  "bind_text kind sock what arg err = kind @ '' '' @ show_int sock @ '' failed to bind on '' @ what @ '' '' @ arg @ '': '' @ err"

definition tcp_bind :: "string \<Rightarrow> int \<Rightarrow> int \<Rightarrow> bool \<Rightarrow> string \<Rightarrow> (sockaddr_in, 'm) run" where
  "tcp_bind file sock port fails err = bind_run
     (if fails then say ERR file 92 (bind_text ''TcpSocket'' sock ''port'' (show_int port) err) else return_run ())
     (\<lambda>_. return_run (tcp_bind_address port))"

definition unix_bind :: "string \<Rightarrow> int \<Rightarrow> string \<Rightarrow> bool \<Rightarrow> string \<Rightarrow> (string \<times> size_t, 'm) run" where
  "unix_bind file sock path fails err = bind_run (lift_res (unix_address path)) (\<lambda>a. bind_run
     (if fails then say ERR file 188 (bind_text ''UnixSocket'' sock ''path'' path err) else return_run ())
     (\<lambda>_. return_run a))"

section \<open>Connections\<close>

definition side :: "connection \<Rightarrow> string" where
  "side c = (if client c then ''client'' else ''server'')"

definition recv_text :: "connection \<Rightarrow> string \<Rightarrow> string" where
  "recv_text c err = ''Receive failed on '' @ side c @ '' socket '' @ show_int (conn_sock c) @ '': '' @ err"

definition send_text :: "bool \<Rightarrow> connection \<Rightarrow> string \<Rightarrow> string" where
  "send_text polling c err = (if polling then ''Poll '' else ''Send to '') @ side c @ '' socket '' @ show_int (conn_sock c) @
     '' failed: '' @ err"

definition recv_logged :: "string \<Rightarrow> connection \<Rightarrow> string \<Rightarrow> size_t \<Rightarrow> byte list io_event list \<Rightarrow> (bool \<times> (int \<rightharpoonup> byte), 'm) run" where
  "recv_logged file c err len es w = (case conn_recv len es of None \<Rightarrow> None
     | Some (success, m) \<Rightarrow> bind_run (if success then return_run () else say ERR file 44 (recv_text c err)) (\<lambda>_. return_run (success, m)) w)"

definition send_logged :: "string \<Rightarrow> connection \<Rightarrow> string \<Rightarrow> byte list \<Rightarrow> nat io_event list \<Rightarrow> (bool \<times> byte list, 'm) run" where
  "send_logged file c err data es w = (case conn_send data es of None \<Rightarrow> None
     | Some (success, polling, out) \<Rightarrow> bind_run (if success then return_run () else say ERR file 66 (send_text polling c err))
         (\<lambda>_. return_run (success, out)) w)"

definition connect_text :: "int \<Rightarrow> string \<Rightarrow> string" where
  "connect_text sock err = ''Connecting to socket '' @ show_int sock @ '' failed: '' @ err"

definition tcp_connect_logged :: "string \<Rightarrow> int \<Rightarrow> bool \<Rightarrow> string \<Rightarrow> (connection option, 'm) run" where
  "tcp_connect_logged file sock succeeds err = bind_run
     (if succeeds then return_run () else say ERR file 136 (connect_text sock err))
     (\<lambda>_. return_run (tcp_connect sock succeeds))"

definition listen_text :: "int \<Rightarrow> string \<Rightarrow> string" where
  "listen_text sock err = ''Listen failed on server socket '' @ show_int sock @ '': '' @ err"

definition listen_logged :: "string \<Rightarrow> int \<Rightarrow> bool \<Rightarrow> string \<Rightarrow> round list \<Rightarrow> fds \<Rightarrow> (threads \<times> fds, 'm) run" where
  "listen_logged file sock fails err rs s w = (case socket_listen fails rs s of None \<Rightarrow> None
     | Some r \<Rightarrow> bind_run (if fails then say ERR file 101 (listen_text sock err) else return_run ()) (\<lambda>_. lift_res r) w)"

definition unix_connect_text :: "int \<Rightarrow> string \<Rightarrow> string \<Rightarrow> string" where
  "unix_connect_text sock path err = ''Connecting socket '' @ show_int sock @ '' to '' @ path @ '' failed: '' @ err"

definition unix_connect_logged ::
  "string \<Rightarrow> int \<Rightarrow> string \<Rightarrow> 64 word \<Rightarrow> 64 word \<Rightarrow> (bool \<times> 64 word) list \<Rightarrow> string \<Rightarrow> (connection option, 'm) run" where
  "unix_connect_logged file sock path msec_timeout start es err w = (case unix_connect sock path msec_timeout start es of
       Inl e \<Rightarrow> Some (Inl e, w)
     | Inr None \<Rightarrow> None
     | Inr (Some (Some c)) \<Rightarrow> Some (Inr (Some c), w)
     | Inr (Some None) \<Rightarrow> bind_run (say ERR file 170 (unix_connect_text sock path err)) (\<lambda>_. return_run None) w)"

text \<open>\<open>remote\<close> is the dotted address (\<open>inet_ntoa\<close>), of the bytes in memory order.\<close>

definition byte_of :: "nat \<Rightarrow> 32 word \<Rightarrow> nat" where
  "byte_of k a = unat (drop_bit (8 * k) a AND 255)"

definition conn_remote :: "sockaddr_in \<Rightarrow> string" where
  "conn_remote a = digits (byte_of 0 (s_addr a)) @ ''.'' @ digits (byte_of 1 (s_addr a)) @ ''.'' @
     digits (byte_of 2 (s_addr a)) @ ''.'' @ digits (byte_of 3 (s_addr a))"

section \<open>Ports and addresses\<close>

lemma htons_bits: "bit (htons w) n \<longleftrightarrow> (if n < 8 then bit w (n + 8) else n < 16 \<and> bit w (n - 8))" for w :: "16 word"
  by (auto simp: htons_def bit_simps add.commute dest: bit_imp_le_length)

lemma htons_htons: "htons (htons w) = w"
  by (rule bit_word_eqI) (auto simp: htons_bits)

lemma uint_htons: "uint (htons w) = (uint w mod 256) * 256 + uint w div 256"
proof -
  have "push_bit 8 w AND drop_bit 8 w = 0"
    by (rule bit_word_eqI) (auto simp: bit_simps dest: bit_imp_le_length)
  then have "uint (push_bit 8 w) AND uint (drop_bit 8 w) = 0"
    by (metis uint_and unsigned_0)
  then have "uint (htons w) = uint (push_bit 8 w) + uint (drop_bit 8 w)"
    by (simp add: htons_def unsigned_or_eq disjunctive_add_eq_or)
  moreover have "uint (push_bit 8 w) = (uint w mod 256) * 256"
    using mod_mult_mult2 [of "uint w" 256 256] by (simp add: uint_word_ariths push_bit_eq_mult)
  moreover have "uint (drop_bit 8 w) = uint w div 256"
    by (simp add: drop_bit_eq_div uint_div_distrib)
  ultimately show ?thesis by simp
qed

lemma htons_fixed: "uint (htons w) = uint w \<longleftrightarrow> uint w mod 256 = uint w div 256"
proof -
  have "0 \<le> uint w" "uint w < 65536" using uint_lt2p [of w] by simp_all
  then show ?thesis unfolding uint_htons by presburger
qed

section \<open>Failures are reported once\<close>

text \<open>
  What an operation prints: one line block on \<open>ERR\<close> exactly when it returns false or null, with the
  descriptor and the side, nothing on success; the descriptor table is not touched by a failure.
\<close>

lemma say_err_then:
  assumes "printable n w" "line < 10000"
  shows "bind_run (if b then return_run () else say ERR src line t) (\<lambda>_. return_run x) w =
    Some (Inr x, w\<lparr>printed := printed w @ (if b then [] else said ERR src line t (env.truncate w))\<rparr>)"
  using say_printed [OF printable_line [OF assms]] by (simp add: run_simps)

lemma recv_logs:
  assumes "printable n w"
  shows "recv_logged src c err len es w = map_option (\<lambda>(success, m). (Inr (success, m),
    w\<lparr>printed := printed w @ (if success then [] else said ERR src 44 (recv_text c err) (env.truncate w))\<rparr>)) (conn_recv len es)"
  using assms by (auto simp: recv_logged_def say_err_then split: option.split)

lemma send_logs:
  assumes "printable n w"
  shows "send_logged src c err data es w = map_option (\<lambda>(success, polling, out). (Inr (success, out),
    w\<lparr>printed := printed w @ (if success then [] else said ERR src 66 (send_text polling c err) (env.truncate w))\<rparr>)) (conn_send data es)"
  using assms by (auto simp: send_logged_def say_err_then split: option.split)

lemma listen_logs:
  assumes "printable n w"
  shows "listen_logged src sock True err rs s w =
    Some (Inr ([], s), w\<lparr>printed := printed w @ said ERR src 101 (listen_text sock err) (env.truncate w)\<rparr>)"
  using say_printed [OF printable_line [OF assms, of 101]]
  by (simp add: listen_logged_def socket_listen_def run_simps)

lemma create_logs:
  assumes "printable n w"
  shows "tcp_socket src None err s w =
      Some (Inl Aborted, w\<lparr>printed := printed w @ said FTL src 75 (failed_text err) (env.truncate w)\<rparr>)"
    and "unix_socket src None err s w =
      Some (Inl Aborted, w\<lparr>printed := printed w @ said FTL src 147 (failed_text err) (env.truncate w)\<rparr>)"
  using say_aborts [OF printable_line [OF assms, of 75]] say_aborts [OF printable_line [OF assms, of 147]]
  by (simp_all add: tcp_socket_def unix_socket_def socket_create_def run_simps)

section \<open>Properties\<close>

text \<open>
  The port of a connection. \<open>connect\<close> and \<open>bind\<close> store the low 16 bits of the port with the two bytes
  exchanged, and \<open>port()\<close> returns the stored number as it is: the caller reads the port it
  connected to only when both bytes are equal (8080 comes back as 36895); the second exchange
  that is missing would give it back.
\<close>

theorem port_bytes:
  "sin_port (tcp_bind_address p) = sin_port (tcp_address a p) \<and>
   conn_port (tcp_address a p) = (p mod 256) * 256 + p mod 65536 div 256 \<and>
   (conn_port (tcp_address a p) = p mod 65536 \<longleftrightarrow> p mod 256 = p mod 65536 div 256) \<and>
   uint (htons (sin_port (tcp_address a p))) = p mod 65536"
proof -
  have "uint (word_of_int p :: 16 word) = p mod 65536" by (simp add: uint_word_of_int)
  moreover have "p mod 65536 mod 256 = p mod 256" by (simp add: mod_mod_cancel)
  ultimately show ?thesis
    using uint_htons [of "word_of_int p"] htons_fixed [of "word_of_int p"]
    by (simp add: tcp_bind_address_def tcp_address_def conn_port_def htons_htons)
qed

end
