(* ===== verification/Spec2Isabelle.thy ===== *)
theory Spec2Isabelle
  imports Array_Write Shared_Pointer Shared_Race Output_Fork Lock_Threads Socket_Link Socket_Signal Test_Declare Pool_Drain Macro_Bits Type_Ids Timing Dynamic_Ptr Streams Test_Assert Test_Wait Test_Registry Test_Arguments Socket_Setup
begin

text \<open>
  A verification of libmandrews, a C++ utility library: copy-on-write objects and arrays, a
  semaphore and a thread pool, formatted output channels, sockets, a forking test runner, and
  the macros and compile-time type identifiers under them.

  \<^bold>\<open>The parts and their theories.\<close>
  \<^item> \<open>Prelude\<close>: machine types, the faults of the C++ abstract machine as values, sequencing of
    operations that can fault, facts on 64-bit words, threads at program points, and the
    interface \<open>invariant_system\<close> of step relations with an invariant.
  \<^item> \<open>Shared_Ref\<close>: \<^verbatim>\<open>src/Shared.h\<close>, the reference count with a copy-on-write flag. The state is
    the allocated counts and flags and the live handles; each member function is an operation.
    The client's callback is a parameter, its contract the locale \<open>release_callback\<close>.
    \<open>Shared_Race\<close>: one group of handles in several threads, each member function split at its
    accesses to the atomic count and flag, in any interleaving.
  \<^item> \<open>Shared_Pointer\<close>: \<^verbatim>\<open>Pointer<T>\<close> of \<^verbatim>\<open>src/Shared.h\<close>, a client of \<open>Shared_Ref\<close> with objects of its own.
  \<^item> \<open>Array_Cow\<close>: \<^verbatim>\<open>src/Array.h\<close> and \<^verbatim>\<open>src/tests/array.cpp\<close>. The heap of \<open>Shared_Ref\<close> is extended
    with views and element blocks; the callback is the lambda that \<open>Array\<close> gives to \<open>Shared\<close>, and
    the contract is discharged for it. The ends of an array are in the order of C++, view before \<open>Shared\<close>. \<open>Array_Write\<close>: assignments to elements.
  \<^item> \<open>Semaphore\<close>: \<^verbatim>\<open>src/semaphore.h\<close> and \<^verbatim>\<open>src/semaphore.cpp\<close>. One step is one critical section;
    sleeping and woken threads are sets; the test program is a second step relation over it.
  \<^item> \<open>Task_Master\<close>: \<^verbatim>\<open>src/taskmaster.h\<close>, the thread pool, on the semaphore's operations: program
    points of the workers and of the owner, the queue, the lock. \<open>Pool_Drain\<close>: the whole of \<open>cleanup()\<close>.
  \<^item> \<open>Output_Dump\<close>: \<^verbatim>\<open>src/output.h\<close>: channels, the prompt, the wrapping loop, flushing. \<open>Process\<close>
    makes statements of it: the world of a process (what was printed, what can be typed, the
    indentation, the clock) and \<open>say\<close>, the statement \<^verbatim>\<open>P(channel) << text\<close>, which all theories below
    use where the code prints. \<open>Streams\<close>: the other classes and macros of \<^verbatim>\<open>src/output.h\<close> (null
    streams, choices, prompts, captured output, static initialisation) and \<^verbatim>\<open>src/output.cpp\<close>.
    \<open>Output_Lock\<close>: threads that print, each message compiled to its critical sections under
    \<open>logging::lock\<close>. \<open>Output_Fork\<close>: what the child of a fork inherits of that lock.
  \<^item> \<open>Util\<close>: \<^verbatim>\<open>src/util.h\<close>, checked system calls, the clock, command lines, stack traces.
    \<open>Timing\<close>: \<^verbatim>\<open>src/context.h\<close>, \<^verbatim>\<open>src/timing.h\<close> and \<^verbatim>\<open>src/lock.h\<close>, contexts of timers and locks with a
    small language of nested \<^verbatim>\<open>with\<close> statements, and the interval loop. The contract of a
    context is the locale \<open>scoped_context\<close>, interpreted for both. \<open>Lock_Threads\<close>: the same statements
    in several threads.
  \<^item> \<open>Socket_IO\<close>: \<^verbatim>\<open>src/socket.h\<close> and \<^verbatim>\<open>src/socket.cpp\<close>: the transfer loops, the server loop,
    connecting, descriptors. \<open>Socket_Setup\<close>: constructors, binding, what each operation prints
    when it fails, ports and addresses. \<open>Socket_Link\<close>: both ends of a connection, round by round
    of their transfer loops, over a bounded queue in each direction. \<open>Socket_Signal\<close>: the handler
    of \<^verbatim>\<open>SIGPIPE\<close> that \<open>listen\<close> replaces, and \<open>try_recv\<close>.
  \<^item> \<open>Test_Case\<close>: \<^verbatim>\<open>src/arguments.h\<close>, \<^verbatim>\<open>src/cases.h\<close>, \<^verbatim>\<open>src/cases.hpp\<close>, \<^verbatim>\<open>src/testing.h\<close> and
    \<^verbatim>\<open>src/testing.hpp\<close>: rows of arguments, the parent's side of forking, waiting, verdicts. It uses
    the indentation and the channels of \<open>Output_Dump\<close>. \<open>Test_Fork\<close>: both processes of a fork, with
    their descriptors, and \<open>TestRun\<close>. \<open>Test_Report\<close>: what the runner prints, signal handlers.
    \<open>Test_Wait\<close>: \<open>WaitAll\<close> with what it prints. \<open>Test_Registry\<close>: the ordered map of tests, \<open>NamedTest\<close> in both processes, \<open>RunAll\<close>. \<open>Test_Arguments\<close>:
    arguments by value, pointer and reference. \<open>Test_Declare\<close>: what \<open>CASE\<close> and \<open>TEST\<close> expand to, and
    the static initialisation of several units. \<open>Test_Assert\<close>: the assertions under the build flags of
    \<^verbatim>\<open>src/output.h\<close>, with the messages of those that fail in the runner.
  \<^item> \<open>Macros\<close> and \<open>Macro_Bits\<close>: \<^verbatim>\<open>src/macro.h\<close>. \<open>Type_Ids\<close>: \<^verbatim>\<open>src/type.h\<close>, with \<open>register_type\<close> as it
    is written, a syntax error, and without the semicolon at fault. \<open>Dynamic_Ptr\<close>: \<^verbatim>\<open>src/dynamic_ptr.h\<close>, casts
    by thrown pointers over a table of classes and their bases.

  \<^bold>\<open>What is shown.\<close> For \<open>Shared\<close>: runs that respect the class contract never fault, each count is
  the number of live handles, each resource is released once, and the operations refine a map
  from handles to groups; for \<open>Pointer\<close> the rule under which its objects are deleted exactly once,
  and what happens without it. In several threads no access follows the deletion and there is at most
  one release; when all handles test before one decrements there is none. For \<open>Array\<close>: appending and adding have value semantics,
  elements are shared until then (\<open>operator[]\<close> does not copy on write), the test
  program prints what it should; and the faults of its lifetimes: a leak, a dangling \<open>this\<close>, and that the last array of a group has no
  defined end, since its callback reads a destroyed view and would delete with the wrong form of \<^verbatim>\<open>delete\<close>. For \<open>Semaphore\<close> and \<open>TaskMaster\<close>: conservation of permits, no lost wakeup, the
  teardown, the test program cannot fail and ends; first-in first-out and exactly-once execution,
  \<open>cleanup()\<close> is complete and, given a worker, can always reach its end, while nobody submits tasks by steps that
  lower a measure; no task is stranded (while the lock is held, once its holder has freed it), the bound of \<open>occupy()\<close>. For
  \<open>Dump\<close>: what is printed, exactly, the round trip where nothing is lost, what is lost, the
  width of the prompt, the outcome of a flush. Threads print whole messages, in the order in which they
  take the lock; a child forked meanwhile may never print, one forked while the lock is free prints up to its end, an abort or a question. For the streams: what null streams, choices and
  the initialisation of the width do. For the utilities: when a checked system call returns, how
  command lines are parsed on every count of arguments, what a stack trace shows. For contexts:
  nested scopes restore what they change, a timer measures its body, intervals do not drift; threads
  that nest their locks in one order all end. For
  sockets: two processes receive what the other sent, in order, and finish when a message fits
  the kernel's buffer; when a \<open>send\<close> kills the process; both transfer loops are exact, the server leaks no descriptor, the faults at the end of
  a stream and at the end of a client, one message for each failure, the bytes of a port. For the
  test runner: rows come back, each row is run in exactly one process with its own pipe, the
  verdict of \<open>WaitPid\<close> and the report that goes with it, that \<open>WaitAll\<close> cannot return one and
  prints one report only, how
  \<open>TestRun\<close> ends in each process, how a test dies of a signal and which child is killed, what the registry holds, that the result of a
  named test is lost, and that \<open>RunAll\<close> calls only the first of them; the rows and tests that the declaration macros declare are the written ones; what the assertions check and print in
  each build. For \<open>dynamic_ptr\<close>: casts are sound
  for the types and succeed exactly for unique public bases. For the macros: their meaning up to 43 arguments and what they do beyond. For
  the type identifiers: that they cannot be registered as the code is written, and without the one character at fault their meaning and bounds.

  \<^bold>\<open>Conventions.\<close> An operation returns \<open>Inl fault\<close> at the first undefined behaviour, failed
  assertion or abort, else \<open>Inr\<close> its result. What the operating system, the terminal and the
  user do is an argument: a list of events. A loop over events that uses them up has not returned
  and has the value \<open>None\<close>; that it returns is proved as such. The lengths of these lists are the
  only bound of this kind, and they are arbitrary. Other loops are total functions: their
  termination is proved. Allocation does not fail and does not reuse addresses; \<open>size_t\<close> and
  \<open>uint64_t\<close> are 64-bit words that wrap; where an \<open>int\<close> counter of the source is an integer here its
  bounds are proved or the hypothesis is stated. Messages are printed under the hypothesis
  \<open>printable\<close> (a source line below 10000, at most 1026 columns, less than 400 levels of
  indentation), outside of which \<open>Output_Dump\<close> shows what goes wrong. The fuel of \<open>deliver\<close> counts the
  signals that a handler raises itself; two are enough. What the compiler, the demangler and the
  formatting of floating-point numbers give is an argument.

  Threads are sequentially consistent, as the default operations of \<^verbatim>\<open>std::atomic\<close> and correctly
  locked programs are; the environment (width, indentation, variables) is fixed while threads print,
  since \<open>Indentation()\<close> is a plain variable. The kernel's queue between two processes has a
  capacity below \<open>2 ^ 31\<close>, an argument.

  \<^bold>\<open>Not modelled.\<close> The
  \<open>initializer_list\<close> members and the template constructor of \<open>Array\<close> (they cannot be instantiated),
  virtual base classes, variables of other types than \<^verbatim>\<open>int\<close>, \<^verbatim>\<open>char\<close> and \<^verbatim>\<open>std::string\<close> in
  \<open>parse_arguments\<close>, what the compiler spells (types, \<open>STRINGIFY\<close>: arguments), the function \<open>least\<close> that
  the macro \<open>IN\<close> calls (not in the repository: an argument), \<open>Connection::poll\<close> (one system call), the closing of a
  child's pipe and memory stream by \<open>WaitPid\<close>; build files and empty translation
  units have nothing to model.
\<close>

end
